(* ===== verification/ZS_Prelude.thy ===== *)
theory ZS_Prelude
  imports Main "HOL-Library.Word" "HOL-Library.Monad_Syntax"
begin

text \<open>
  Shared vocabulary of the development.

  \<^item> The machine integers of the C sources (\<open>uint8_t\<close> to \<open>uint64_t\<close>) as words.
  \<^item> Flat memory: a region is a list of bytes; a read or a write outside the region is
    \<^term>\<open>None\<close>.  Throughout the development \<^term>\<open>None\<close> stands for behaviour the C code must
    never show: an access outside a node, a failed \<open>assert\<close>, an \<open>abort\<close>.
  \<^item> Little-endian encoding of fixed-width integers, which is how the packed structures of the
    leaf node lie in memory on the only platform the sources build for (x86-64).
  \<^item> Generic lemmas on lists, sums of lengths and words used by several components.
\<close>

type_synonym byte = "8 word"
type_synonym u8 = "8 word"
type_synonym u16 = "16 word"
type_synonym u32 = "32 word"
type_synonym u64 = "64 word"
type_synonym mem = "byte list"

named_theorems mem_simps \<open>reads and writes inside a region\<close>
named_theorems leaf_decode \<open>decoding of a canonically encoded leaf node\<close>

section \<open>Memory regions\<close>

definition mem_read :: "mem \<Rightarrow> nat \<Rightarrow> nat \<Rightarrow> mem option" where
  "mem_read m off len = (if off + len \<le> length m then Some (take len (drop off m)) else None)"

definition mem_write :: "mem \<Rightarrow> nat \<Rightarrow> mem \<Rightarrow> mem option" where
  "mem_write m off bs =
     (if off + length bs \<le> length m
      then Some (take off m @ bs @ drop (off + length bs) m) else None)"

lemma mem_read_append [mem_simps]:
  assumes "off = length xs" and "len = length ys"
  shows "mem_read (xs @ ys @ zs) off len = Some ys"
  using assms by (simp add: mem_read_def)

lemma mem_read_prefix [mem_simps]:
  "len \<le> length xs \<Longrightarrow> mem_read xs 0 len = Some (take len xs)"
  by (simp add: mem_read_def)

lemma mem_write_append [mem_simps]:
  assumes "off = length xs" and "length bs = length ys"
  shows "mem_write (xs @ ys @ zs) off bs = Some (xs @ bs @ zs)"
  using assms by (simp add: mem_write_def)

lemma mem_read_length: "mem_read m off len = Some bs \<Longrightarrow> length bs = len"
  by (auto simp: mem_read_def split: if_splits)

section \<open>Little-endian integers\<close>

primrec le_bytes :: "nat \<Rightarrow> nat \<Rightarrow> mem" where
  "le_bytes 0 x = []"
| "le_bytes (Suc k) x = word_of_nat x # le_bytes k (x div 256)"

primrec le_nat :: "mem \<Rightarrow> nat" where
  "le_nat [] = 0"
| "le_nat (b # bs) = unat b + 256 * le_nat bs"

lemma length_le_bytes [simp]: "length (le_bytes k x) = k"
  by (induction k arbitrary: x) auto

lemma le_nat_le_bytes [simp]: "le_nat (le_bytes k x) = x mod 256 ^ k"
proof (induction k arbitrary: x)
  case 0
  show ?case by simp
next
  case (Suc k)
  have "x mod 256 ^ Suc k = 256 * (x div 256 mod 256 ^ k) + x mod 256"
    by (simp add: mod_mult2_eq)
  then show ?case by (simp add: Suc unat_of_nat)
qed

lemma le_bytes_mod: "le_bytes k (x mod 256 ^ k) = le_bytes k x"
proof (induction k arbitrary: x)
  case 0
  show ?case by simp
next
  case (Suc k)
  have d: "x mod 256 ^ Suc k div 256 = x div 256 mod 256 ^ k"
    by (simp add: mod_mult2_eq)
  have m: "(word_of_nat (x mod 256 ^ Suc k) :: byte) = word_of_nat x"
    by (rule word_unat_eq_iff [THEN iffD2]) (simp add: unat_of_nat mod_mod_cancel)
  from d m Suc show ?case by (simp del: power_Suc)
qed

section \<open>Lists and words\<close>

lemma unat_of_nat_less [simp]:
  "x < 2 ^ LENGTH('a) \<Longrightarrow> unat (word_of_nat x :: 'a::len word) = x"
  by (simp add: unat_of_nat)

lemma of_nat_unat_ucast: "word_of_nat (unat (w :: 'a::len word)) = (ucast w :: 'b::len word)"
  by simp

lemma sum_list_take_Suc:
  "i < length xs \<Longrightarrow> sum_list (take (Suc i) xs) = sum_list (take i xs) + (xs ! i :: nat)"
  by (simp add: take_Suc_conv_app_nth)

lemma split_at:
  assumes "i < length xs"
  shows "xs = take i xs @ xs ! i # drop (Suc i) xs"
  using assms by (rule id_take_nth_drop)

lemma nth_split:
  assumes "i < length xs"
  obtains as bs where "xs = as @ xs ! i # bs" and "length as = i"
  using assms id_take_nth_drop [of i xs] that by force

definition insert_at :: "nat \<Rightarrow> 'a \<Rightarrow> 'a list \<Rightarrow> 'a list" where
  "insert_at i x xs = take i xs @ x # drop i xs"

definition remove_at :: "nat \<Rightarrow> 'a list \<Rightarrow> 'a list" where
  "remove_at i xs = take i xs @ drop (Suc i) xs"

lemma length_insert_at [simp]: "i \<le> length xs \<Longrightarrow> length (insert_at i x xs) = Suc (length xs)"
  by (simp add: insert_at_def)

lemma length_remove_at [simp]: "i < length xs \<Longrightarrow> length (remove_at i xs) = length xs - 1"
  by (simp add: remove_at_def)

lemma remove_insert_at [simp]: "i \<le> length xs \<Longrightarrow> remove_at i (insert_at i x xs) = xs"
  by (simp add: insert_at_def remove_at_def)

lemma insert_remove_at: "i < length xs \<Longrightarrow> insert_at i x (remove_at i xs) = xs[i := x]"
  by (simp add: insert_at_def remove_at_def upd_conv_take_nth_drop min_def)

lemma insert_at_end [simp]: "insert_at (length xs) x xs = xs @ [x]"
  by (simp add: insert_at_def)

lemma insert_at_0 [simp]: "insert_at 0 x xs = x # xs"
  by (simp add: insert_at_def)

lemma set_insert_at: "i \<le> length xs \<Longrightarrow> set (insert_at i x xs) = insert x (set xs)"
  by (metis append_take_drop_id insert_at_def list.simps(15) set_append Un_insert_right)

lemma set_remove_at_subset: "set (remove_at i xs) \<subseteq> set xs"
  by (auto simp: remove_at_def dest: in_set_takeD in_set_dropD)

end
