(* ===== verification/Leaf_Node.thy ===== *)
theory Leaf_Node
  imports ZS_Prelude
begin

text \<open>
  The variable-size leaf node of the btree (\<open>src/btree/btree_var_leaf.c\<close> and \<open>.h\<close>), translated at
  the level of bytes.  A node keeps an array of entry headers that grows upwards and, at its end,
  a data area that grows downwards; every entry of the data area is a packed metadata structure of
  one of four sizes, the part of the key that is not shared with an earlier key, and the data.
  Keys may share a prefix with an earlier key of the node (prefix compression), and an entry whose
  metadata equals that of its predecessor stores only its sequence number.

  A node is the record \<open>leaf_node\<close>: the headers of its keys and the bytes from \<open>insert_ptr\<close> to the
  end of the node.  Header offsets are relative to \<open>insert_ptr\<close> in the code, hence relative to the
  start of \<open>ln_area\<close> here, and \<open>nkeys\<close> and \<open>insert_ptr\<close> are the lengths of the two parts.
  \<^term>\<open>None\<close> is an access outside the node or a failed assertion.  Sizes of nodes and offsets in
  them are natural numbers (a node has at most \<open>BTREE_MAX_NODE_SIZE\<close> = 32768 bytes); lengths,
  prefix indices, pointers and sequence numbers keep the width of their C types.
\<close>

section \<open>Types\<close>

datatype key_meta_type = TYPE1 | TYPE2 | TYPE3 | TYPE4

record entry_header =
  tombstone :: bool
  meta_type :: key_meta_type
  header_offset :: u16

record key_meta =
  km_keylen :: u32
  km_datalen :: u64
  km_prefix_idx :: u16
  km_prefix_len :: u32
  km_ptr :: u64
  km_seqno :: u64
  km_tombstone :: bool
  km_meta_type :: key_meta_type
  compact_meta :: bool

record key_info =
  ki_key :: mem
  ki_keylen :: u32
  ki_datalen :: u64
  ki_ptr :: u64
  ki_seqno :: u64
  ki_tombstone :: bool

text \<open>
  The fields of \<open>btree_raw_t\<close> the node code reads.  The last four are process-wide variables of
  the sources (\<open>space_op_disabled\<close>, \<open>min_common_length\<close>, \<open>bt_storm_mode\<close>, \<open>datasz_in_overflow\<close>),
  set once at start-up; \<open>cmp_cb\<close> is the comparison callback of the container.
\<close>

record btree_raw =
  nodesize :: nat
  nodesize_less_hdr :: nat
  big_object_size :: nat
  max_key_size :: nat
  rootid :: u64
  cmp_cb :: "mem \<Rightarrow> mem \<Rightarrow> int"
  space_op_disabled :: bool
  min_common_length :: nat
  bt_storm_mode :: bool
  datasz_in_overflow :: u64

record leaf_node =
  ln_flags :: u32
  ln_logical_id :: u64
  ln_next :: u64
  ln_rightmost :: u64
  ln_headers :: "entry_header list"
  ln_area :: mem

record btree_metadata =
  md_flags :: u32
  md_seqno :: u64
  md_start_seqno :: u64
  md_end_seqno :: u64

unbundle bit_operations_syntax

definition READ_SEQNO_EQ :: u32 where "READ_SEQNO_EQ = push_bit 4 1"
definition READ_SEQNO_LE :: u32 where "READ_SEQNO_LE = push_bit 5 1"
definition READ_SEQNO_GT_LE :: u32 where "READ_SEQNO_GT_LE = push_bit 6 1"
definition INSERT_TOMBSTONE :: u32 where "INSERT_TOMBSTONE = push_bit 19 1"

definition UNKNOWN_NODE :: u32 where "UNKNOWN_NODE = 1"
definition LEAF_NODE :: u32 where "LEAF_NODE = 2"
definition OVERFLOW_NODE :: u32 where "OVERFLOW_NODE = 4"
definition BAD_CHILD :: u64 where "BAD_CHILD = 0"

abbreviation sizeof_entry_header :: nat where "sizeof_entry_header \<equiv> 3"

abbreviation nkeys :: "leaf_node \<Rightarrow> nat" where "nkeys n \<equiv> length (ln_headers n)"

definition insert_ptr :: "btree_raw \<Rightarrow> leaf_node \<Rightarrow> nat" where
  "insert_ptr bt n = nodesize bt - length (ln_area n)"

definition assert_opt :: "bool \<Rightarrow> unit option" where
  "assert_opt b = (if b then Some () else None)"

section \<open>Sizes\<close>

definition get_data_in_overflownode :: "btree_raw \<Rightarrow> u64" where
  "get_data_in_overflownode bt =
     (if bt_storm_mode bt then datasz_in_overflow bt else word_of_nat (nodesize_less_hdr bt))"

definition big_object_kd :: "btree_raw \<Rightarrow> u32 \<Rightarrow> u64 \<Rightarrow> bool" where
  "big_object_kd bt k d = (word_of_nat (big_object_size bt) \<le> ucast k + d)"

abbreviation big_object :: "btree_raw \<Rightarrow> key_meta \<Rightarrow> bool" where
  "big_object bt km \<equiv> big_object_kd bt (km_keylen km) (km_datalen km)"

definition btree_get_bigobj_inleaf :: "btree_raw \<Rightarrow> u32 \<Rightarrow> u64 \<Rightarrow> u64 option" where
  "btree_get_bigobj_inleaf bt keylen datalen =
     (let ovdatasize = get_data_in_overflownode bt;
          rem = word_of_nat (big_object_size bt) - ucast keylen
      in if \<not> big_object_kd bt keylen datalen then None
         else if datalen \<le> ovdatasize then Some 0
         else if datalen mod ovdatasize < rem then Some (datalen mod ovdatasize)
         else Some 0)"

text \<open>The bytes of an object's data that stay in the leaf: the branch on \<open>big_object\<close> that every
  user of \<open>btree_get_bigobj_inleaf\<close> writes out.\<close>

definition datalen_in_leaf :: "btree_raw \<Rightarrow> u32 \<Rightarrow> u64 \<Rightarrow> u64 option" where
  "datalen_in_leaf bt keylen datalen =
     (if big_object_kd bt keylen datalen then btree_get_bigobj_inleaf bt keylen datalen
      else Some datalen)"

fun get_meta_type_to_size :: "key_meta_type \<Rightarrow> nat" where
  "get_meta_type_to_size TYPE1 = 8"
| "get_meta_type_to_size TYPE2 = 13"
| "get_meta_type_to_size TYPE3 = 24"
| "get_meta_type_to_size TYPE4 = 34"

definition get_key_meta_space_used :: "btree_raw \<Rightarrow> key_meta \<Rightarrow> nat option" where
  "get_key_meta_space_used bt km = do {
     d \<leftarrow> datalen_in_leaf bt (km_keylen km) (km_datalen km);
     Some (get_meta_type_to_size (km_meta_type km)
           + unat (km_keylen km - km_prefix_len km) + unat d)
   }"

definition btree_leaf_get_max_meta :: nat where
  "btree_leaf_get_max_meta =
     (let a = (if get_meta_type_to_size TYPE1 > get_meta_type_to_size TYPE2
               then get_meta_type_to_size TYPE1 else get_meta_type_to_size TYPE2);
          b = (if get_meta_type_to_size TYPE3 > get_meta_type_to_size TYPE4
               then get_meta_type_to_size TYPE3 else get_meta_type_to_size TYPE4)
      in if a > b then a else b)"

definition btree_leaf_used_space :: "leaf_node \<Rightarrow> nat" where
  "btree_leaf_used_space n = nkeys n * sizeof_entry_header + length (ln_area n)"

definition btree_leaf_init :: "leaf_node \<Rightarrow> leaf_node" where
  "btree_leaf_init n =
     n\<lparr>ln_flags := LEAF_NODE, ln_rightmost := BAD_CHILD, ln_headers := [], ln_area := []\<rparr>"

section \<open>Packed metadata\<close>

definition get_key_meta_type :: "key_meta \<Rightarrow> key_meta_type" where
  "get_key_meta_type km =
     (if compact_meta km then TYPE1
      else if km_keylen km < 0xff \<and> km_datalen km < 0xff then TYPE2
      else if km_keylen km < 0xffff \<and> km_datalen km < 0xffff then TYPE3
      else TYPE4)"

definition key_meta_to_key_metax :: "key_meta \<Rightarrow> key_meta_type \<times> mem" where
  "key_meta_to_key_metax km =
     (let ty = get_key_meta_type km in
      (ty,
       case ty of
         TYPE1 \<Rightarrow> le_bytes 8 (unat (km_seqno km))
       | TYPE2 \<Rightarrow>
           le_bytes 1 (unat (km_keylen km)) @ le_bytes 1 (unat (km_datalen km)) @
           le_bytes 2 (unat (km_prefix_idx km)) @ le_bytes 1 (unat (km_prefix_len km)) @
           le_bytes 8 (unat (km_seqno km))
       | TYPE3 \<Rightarrow>
           le_bytes 2 (unat (km_keylen km)) @ le_bytes 2 (unat (km_datalen km)) @
           le_bytes 2 (unat (km_prefix_idx km)) @ le_bytes 2 (unat (km_prefix_len km)) @
           le_bytes 8 (unat (km_ptr km)) @ le_bytes 8 (unat (km_seqno km))
       | TYPE4 \<Rightarrow>
           le_bytes 4 (unat (km_keylen km)) @ le_bytes 8 (unat (km_datalen km)) @
           le_bytes 2 (unat (km_prefix_idx km)) @ le_bytes 4 (unat (km_prefix_len km)) @
           le_bytes 8 (unat (km_ptr km)) @ le_bytes 8 (unat (km_seqno km))))"

definition field :: "mem \<Rightarrow> nat \<Rightarrow> nat \<Rightarrow> nat" where
  "field p off len = le_nat (take len (drop off p))"

text \<open>The zero-initialised \<open>key_meta_t\<close> that callers hand to the decoding functions.\<close>

definition key_meta0 :: key_meta where
  "key_meta0 = \<lparr>km_keylen = 0, km_datalen = 0, km_prefix_idx = 0, km_prefix_len = 0, km_ptr = 0,
     km_seqno = 0, km_tombstone = False, km_meta_type = TYPE2, compact_meta = False\<rparr>"

definition key_meta1_to_key_meta :: "mem \<Rightarrow> key_meta \<Rightarrow> key_meta" where
  "key_meta1_to_key_meta p prev =
     prev\<lparr>km_seqno := word_of_nat (field p 0 8), km_meta_type := TYPE1, compact_meta := True\<rparr>"

definition key_meta2_to_key_meta :: "mem \<Rightarrow> key_meta" where
  "key_meta2_to_key_meta p = key_meta0\<lparr>
     km_keylen := word_of_nat (field p 0 1), km_datalen := word_of_nat (field p 1 1),
     km_prefix_idx := word_of_nat (field p 2 2), km_prefix_len := word_of_nat (field p 4 1),
     km_seqno := word_of_nat (field p 5 8), km_ptr := 0\<rparr>"

definition key_meta3_to_key_meta :: "mem \<Rightarrow> key_meta" where
  "key_meta3_to_key_meta p = key_meta0\<lparr>
     km_keylen := word_of_nat (field p 0 2), km_datalen := word_of_nat (field p 2 2),
     km_prefix_idx := word_of_nat (field p 4 2), km_prefix_len := word_of_nat (field p 6 2),
     km_ptr := word_of_nat (field p 8 8), km_seqno := word_of_nat (field p 16 8)\<rparr>"

definition key_meta4_to_key_meta :: "mem \<Rightarrow> key_meta" where
  "key_meta4_to_key_meta p = key_meta0\<lparr>
     km_keylen := word_of_nat (field p 0 4), km_datalen := word_of_nat (field p 4 8),
     km_prefix_idx := word_of_nat (field p 12 2), km_prefix_len := word_of_nat (field p 14 4),
     km_ptr := word_of_nat (field p 18 8), km_seqno := word_of_nat (field p 26 8)\<rparr>"

fun btree_leaf_get_meta :: "leaf_node \<Rightarrow> nat \<Rightarrow> key_meta option" where
  "btree_leaf_get_meta n index =
     (if index < nkeys n then
        let h = ln_headers n ! index in do {
          p \<leftarrow> mem_read (ln_area n) (unat (header_offset h)) (get_meta_type_to_size (meta_type h));
          km \<leftarrow> (case meta_type h of
                  TYPE1 \<Rightarrow>
                    (if index = 0 then None
                     else map_option (key_meta1_to_key_meta p) (btree_leaf_get_meta n (index - 1)))
                | TYPE2 \<Rightarrow> Some (key_meta2_to_key_meta p)
                | TYPE3 \<Rightarrow> Some (key_meta3_to_key_meta p)
                | TYPE4 \<Rightarrow> Some (key_meta4_to_key_meta p));
          Some (km\<lparr>km_meta_type := meta_type h, km_tombstone := tombstone h\<rparr>)
        }
      else None)"

declare btree_leaf_get_meta.simps [simp del]

text \<open>
  \<open>key_metax_to_key_meta\<close> decodes metadata found at an arbitrary address; for a compact entry it
  reads the metadata of the entry \<open>index\<close> (which recurses to its predecessor).
\<close>

definition key_metax_to_key_meta ::
  "leaf_node \<Rightarrow> nat \<Rightarrow> key_meta_type \<Rightarrow> nat \<Rightarrow> key_meta option" where
  "key_metax_to_key_meta n off ty index = do {
     p \<leftarrow> mem_read (ln_area n) off (get_meta_type_to_size ty);
     km \<leftarrow> (case ty of
             TYPE1 \<Rightarrow> map_option (key_meta1_to_key_meta p) (btree_leaf_get_meta n index)
           | TYPE2 \<Rightarrow> Some (key_meta2_to_key_meta p)
           | TYPE3 \<Rightarrow> Some (key_meta3_to_key_meta p)
           | TYPE4 \<Rightarrow> Some (key_meta4_to_key_meta p));
     Some (km\<lparr>km_meta_type := ty\<rparr>)
   }"

section \<open>Prefixes\<close>

fun common_len :: "mem \<Rightarrow> mem \<Rightarrow> nat" where
  "common_len (x # xs) (y # ys) = (if x = y then Suc (common_len xs ys) else 0)"
| "common_len _ _ = 0"

definition get_common_part :: "btree_raw \<Rightarrow> mem \<Rightarrow> mem \<Rightarrow> nat" where
  "get_common_part bt key1 key2 =
     (if space_op_disabled bt then 0
      else let i = common_len key1 key2 in if i < min_common_length bt then 0 else i)"

definition build_key_prefix_int ::
  "btree_raw \<Rightarrow> mem \<Rightarrow> mem \<Rightarrow> nat \<Rightarrow> key_meta \<Rightarrow> key_meta \<Rightarrow> key_meta" where
  "build_key_prefix_int bt prev_key key prev_key_index prev_key_meta km =
     (let plen = (word_of_nat (get_common_part bt prev_key key) :: u32);
          (plen', pidx) =
            (if plen = 0 then (plen, 0)
             else if km_prefix_len prev_key_meta > 0
             then (if plen > km_prefix_len prev_key_meta then km_prefix_len prev_key_meta else plen,
                   km_prefix_idx prev_key_meta)
             else (plen, word_of_nat prev_key_index));
          compact =
            (word_of_nat (length key) = km_keylen prev_key_meta \<and>
             km_datalen km = km_datalen prev_key_meta \<and>
             plen' = km_prefix_len prev_key_meta \<and>
             pidx = km_prefix_idx prev_key_meta \<and>
             km_ptr km = 0 \<and> km_prefix_len prev_key_meta \<noteq> 0 \<and>
             \<not> space_op_disabled bt)
      in km\<lparr>km_prefix_len := plen', km_prefix_idx := pidx, compact_meta := compact\<rparr>)"

text \<open>The address (in the data area) of the key a prefix index points to.  Chains of prefixes are
  ruled out by an assertion of the code.\<close>

definition get_key_prefix :: "leaf_node \<Rightarrow> nat \<Rightarrow> nat option" where
  "get_key_prefix n index = do {
     km \<leftarrow> btree_leaf_get_meta n index;
     if km_prefix_len km \<noteq> 0 then None
     else Some (unat (header_offset (ln_headers n ! index))
                + get_meta_type_to_size (km_meta_type km))
   }"

definition btree_leaf_get_nth_key_info :: "leaf_node \<Rightarrow> nat \<Rightarrow> key_info option" where
  "btree_leaf_get_nth_key_info n index = do {
     km \<leftarrow> btree_leaf_get_meta n index;
     prefix \<leftarrow> (if km_prefix_len km \<noteq> 0
                then do {
                  off \<leftarrow> get_key_prefix n (unat (km_prefix_idx km));
                  mem_read (ln_area n) off (unat (km_prefix_len km)) }
                else Some []);
     short_key \<leftarrow> mem_read (ln_area n)
                    (unat (header_offset (ln_headers n ! index))
                     + get_meta_type_to_size (km_meta_type km))
                    (unat (km_keylen km - km_prefix_len km));
     Some \<lparr>ki_key = prefix @ short_key, ki_keylen = km_keylen km, ki_datalen = km_datalen km,
           ki_ptr = km_ptr km, ki_seqno = km_seqno km,
           ki_tombstone = tombstone (ln_headers n ! index)\<rparr>
   }"

text \<open>The same with the buffer for the key supplied by the caller.\<close>

definition btree_leaf_get_nth_key_info2 :: "leaf_node \<Rightarrow> nat \<Rightarrow> key_info option" where
  "btree_leaf_get_nth_key_info2 n index = btree_leaf_get_nth_key_info n index"

definition btree_leaf_get_nth_key :: "leaf_node \<Rightarrow> nat \<Rightarrow> (mem \<times> u32 \<times> u64) option" where
  "btree_leaf_get_nth_key n index = do {
     ki \<leftarrow> btree_leaf_get_nth_key_info n index;
     Some (ki_key ki, ki_keylen ki, ki_seqno ki)
   }"

definition btree_leaf_is_key_tombstoned :: "leaf_node \<Rightarrow> nat \<Rightarrow> bool option" where
  "btree_leaf_is_key_tombstoned n index =
     (if index < nkeys n then Some (tombstone (ln_headers n ! index)) else None)"

text \<open>The data pointer of an entry is the part of the node that starts there.\<close>

definition btree_leaf_get_data_nth_key :: "leaf_node \<Rightarrow> nat \<Rightarrow> (mem \<times> u64) option" where
  "btree_leaf_get_data_nth_key n index = do {
     km \<leftarrow> btree_leaf_get_meta n index;
     Some (drop (unat (header_offset (ln_headers n ! index))
                 + get_meta_type_to_size (km_meta_type km)
                 + unat (km_keylen km - km_prefix_len km)) (ln_area n),
           km_datalen km)
   }"

definition build_key_prefix :: "btree_raw \<Rightarrow> leaf_node \<Rightarrow> nat \<Rightarrow> mem \<Rightarrow> key_meta \<Rightarrow> key_meta option" where
  "build_key_prefix bt n index key km =
     (let km0 = km\<lparr>km_prefix_len := 0, km_prefix_idx := 0\<rparr> in
      if index = 0 then Some km0
      else do {
        prev \<leftarrow> btree_leaf_get_meta n (index - 1);
        ki \<leftarrow> btree_leaf_get_nth_key_info2 n (index - 1);
        Some (build_key_prefix_int bt (ki_key ki) key (index - 1) prev km0)
      })"

end
