(* ===== verification/Leaf_Ops.thy ===== *)
theory Leaf_Ops
  imports Leaf_Node
begin

text \<open>
  The operations that change a leaf node (\<open>src/btree/btree_var_leaf.c\<close>, from
  \<open>btree_leaf_adjust_prefix_idx\<close> on): insertion, removal, update, the fullness check, the split,
  and the moves between neighbours (copy, shift, merge).  The code builds the new node in a scratch
  buffer and copies it back; here the scratch buffer is a header list and a byte list.
\<close>

section \<open>Fixing up offsets and prefix indices in place\<close>

text \<open>Add \<open>shift\<close> to the prefix index stored at \<open>off + pi\<close> of the area when the prefix length
  stored at \<open>off + pl\<close> (\<open>pll\<close> bytes) is positive and the index exceeds \<open>base\<close>.\<close>

definition shift_prefix_idx ::
  "mem \<Rightarrow> nat \<Rightarrow> nat \<Rightarrow> nat \<Rightarrow> nat \<Rightarrow> int \<Rightarrow> int \<Rightarrow> mem option" where
  "shift_prefix_idx a off pi pl pll base shift = do {
     i \<leftarrow> mem_read a (off + pi) 2;
     l \<leftarrow> mem_read a (off + pl) pll;
     if le_nat l > 0 \<and> int (le_nat i) > base
     then mem_write a (off + pi) (le_bytes 2 (nat ((int (le_nat i) + shift) mod 65536)))
     else Some a
   }"

definition btree_leaf_adjust_prefix_idx ::
  "leaf_node \<Rightarrow> nat \<Rightarrow> int \<Rightarrow> int \<Rightarrow> leaf_node option" where
  "btree_leaf_adjust_prefix_idx n index base shift =
     (if index < nkeys n then
        let h = ln_headers n ! index; off = unat (header_offset h) in do {
          a \<leftarrow> (case meta_type h of
                 TYPE1 \<Rightarrow> Some (ln_area n)
               | TYPE2 \<Rightarrow> shift_prefix_idx (ln_area n) off 2 4 1 base shift
               | TYPE3 \<Rightarrow> shift_prefix_idx (ln_area n) off 4 6 2 base shift
               | TYPE4 \<Rightarrow> shift_prefix_idx (ln_area n) off 12 14 4 base shift);
          Some (n\<lparr>ln_area := a\<rparr>)
        }
      else None)"

primrec adjust_prefix_idxes_list ::
  "leaf_node \<Rightarrow> nat list \<Rightarrow> int \<Rightarrow> int \<Rightarrow> leaf_node option" where
  "adjust_prefix_idxes_list n [] base shift = Some n"
| "adjust_prefix_idxes_list n (i # is) base shift = do {
     n' \<leftarrow> btree_leaf_adjust_prefix_idx n i base shift;
     adjust_prefix_idxes_list n' is base shift
   }"

definition btree_leaf_adjust_prefix_idxes ::
  "leaf_node \<Rightarrow> nat \<Rightarrow> int \<Rightarrow> int \<Rightarrow> int \<Rightarrow> leaf_node option" where
  "btree_leaf_adjust_prefix_idxes n from_idx to_idx base shift =
     adjust_prefix_idxes_list n [from_idx..<nat (to_idx + 1)] base shift"

definition set_header_offset :: "leaf_node \<Rightarrow> nat \<Rightarrow> nat \<Rightarrow> leaf_node" where
  "set_header_offset n i off =
     n\<lparr>ln_headers := (ln_headers n)[i := (ln_headers n ! i)\<lparr>header_offset := word_of_nat off\<rparr>]\<rparr>"

text \<open>The loop of \<open>btree_leaf_adjust_offsets\<close>: \<open>todo\<close> headers are left, from index \<open>i\<close> on.\<close>

primrec adjust_offsets_loop :: "btree_raw \<Rightarrow> leaf_node \<Rightarrow> nat \<Rightarrow> nat \<Rightarrow> nat \<Rightarrow> leaf_node option" where
  "adjust_offsets_loop bt n 0 i off = Some n"
| "adjust_offsets_loop bt n (Suc todo) i off =
     (let n' = set_header_offset n i off; ty = meta_type (ln_headers n ! i) in do {
        km \<leftarrow> key_metax_to_key_meta n' off ty i;
        d \<leftarrow> datalen_in_leaf bt (km_keylen km) (km_datalen km);
        adjust_offsets_loop bt n' todo (Suc i)
          (off + get_meta_type_to_size ty + unat (km_keylen km - km_prefix_len km) + unat d)
      })"

definition btree_leaf_adjust_offsets :: "btree_raw \<Rightarrow> leaf_node \<Rightarrow> leaf_node option" where
  "btree_leaf_adjust_offsets bt n = adjust_offsets_loop bt n (nkeys n) 0 0"

section \<open>Building entries in the scratch buffer\<close>

definition append_entry_to_tmp_buf ::
  "btree_raw \<Rightarrow> key_meta \<Rightarrow> key_info \<Rightarrow> mem \<Rightarrow> u64 \<Rightarrow> (key_meta_type \<times> mem) option" where
  "append_entry_to_tmp_buf bt km ki data datalen =
     (let (ty, meta) = key_meta_to_key_metax km in do {
        k \<leftarrow> mem_read (ki_key ki) (unat (km_prefix_len km)) (unat (km_keylen km - km_prefix_len km));
        d \<leftarrow> (if \<not> big_object bt km then mem_read data 0 (unat datalen)
             else do {
               r \<leftarrow> btree_get_bigobj_inleaf bt (km_keylen km) (km_datalen km);
               mem_read data 0 (unat r) });
        Some (ty, meta @ k @ d)
      })"

text \<open>
  The loop of \<open>copy_impacted_keys_to_tmp_buf\<close>: re-encode the keys from \<open>from_idx + copy_idx\<close> on
  against their new predecessor, appending to \<open>buf\<close> and recording the metadata types in the
  scratch headers from \<open>hb\<close> on, until the first key without prefix before and after.
\<close>

function copy_impacted_loop ::
  "btree_raw \<Rightarrow> leaf_node \<Rightarrow> nat \<Rightarrow> nat \<Rightarrow> nat \<Rightarrow> nat \<Rightarrow> entry_header list \<Rightarrow> mem \<Rightarrow> mem \<Rightarrow> key_meta
    \<Rightarrow> (nat \<times> entry_header list \<times> mem) option" where
  "copy_impacted_loop bt n from_idx hb copy_idx prev_key_index hdrs buf prev_key prev_meta =
     (if from_idx + copy_idx < nkeys n then do {
        ki \<leftarrow> btree_leaf_get_nth_key_info n (from_idx + copy_idx);
        old \<leftarrow> btree_leaf_get_meta n (from_idx + copy_idx);
        let new = build_key_prefix_int bt prev_key (ki_key ki) prev_key_index prev_meta
                    (key_meta0\<lparr>km_keylen := ki_keylen ki, km_datalen := ki_datalen ki,
                               km_ptr := ki_ptr ki, km_seqno := ki_seqno ki\<rparr>);
        if km_meta_type old \<noteq> TYPE1 \<and> km_prefix_len new = 0 \<and> km_prefix_len old = 0
        then Some (copy_idx, hdrs, buf)
        else do {
          (d, dl) \<leftarrow> btree_leaf_get_data_nth_key n (from_idx + copy_idx);
          (ty, bs) \<leftarrow> append_entry_to_tmp_buf bt new ki d dl;
          copy_impacted_loop bt n from_idx hb (Suc copy_idx) (Suc prev_key_index)
            (hdrs[hb + copy_idx := (hdrs ! (hb + copy_idx))\<lparr>meta_type := ty\<rparr>])
            (buf @ bs) (ki_key ki) new
        }
      }
      else Some (copy_idx, hdrs, buf))"
  by pat_completeness auto
termination
  by (relation "measure (\<lambda>(bt, n, from_idx, hb, copy_idx, _). nkeys n - (from_idx + copy_idx))") auto

declare copy_impacted_loop.simps [simp del]

text \<open>With no previous key the first copied key is stored without a prefix.\<close>

definition copy_impacted_keys_to_tmp_buf ::
  "btree_raw \<Rightarrow> leaf_node \<Rightarrow> nat \<Rightarrow> nat \<Rightarrow> nat \<Rightarrow> entry_header list \<Rightarrow> (mem \<times> key_meta) option
    \<Rightarrow> (nat \<times> entry_header list \<times> mem) option" where
  "copy_impacted_keys_to_tmp_buf bt n from_idx prev_key_index hb hdrs prev =
     (case prev of
        Some (prev_key, prev_meta) \<Rightarrow>
          copy_impacted_loop bt n from_idx hb 0 prev_key_index hdrs [] prev_key prev_meta
      | None \<Rightarrow>
          (if from_idx < nkeys n then do {
             ki \<leftarrow> btree_leaf_get_nth_key_info n from_idx;
             m \<leftarrow> btree_leaf_get_meta n from_idx;
             (d, dl) \<leftarrow> btree_leaf_get_data_nth_key n from_idx;
             let km = m\<lparr>km_prefix_len := 0, km_prefix_idx := 0, km_keylen := ki_keylen ki,
                        km_datalen := ki_datalen ki, km_seqno := ki_seqno ki,
                        km_ptr := ki_ptr ki, compact_meta := False\<rparr>;
             (ty, bs) \<leftarrow> append_entry_to_tmp_buf bt km ki d dl;
             copy_impacted_loop bt n from_idx hb 1 0
               (hdrs[hb := (hdrs ! hb)\<lparr>meta_type := ty\<rparr>]) bs (ki_key ki) km
           }
           else Some (0, hdrs, [])))"

text \<open>The part of the data area that holds the first \<open>index\<close> entries.\<close>

definition bytes_before :: "btree_raw \<Rightarrow> leaf_node \<Rightarrow> nat \<Rightarrow> mem option" where
  "bytes_before bt n index =
     (if index = 0 then Some []
      else do {
        km \<leftarrow> btree_leaf_get_meta n (index - 1);
        sz \<leftarrow> get_key_meta_space_used bt km;
        mem_read (ln_area n) 0 (unat (header_offset (ln_headers n ! (index - 1))) + sz)
      })"

text \<open>The part of the data area from entry \<open>index\<close> on, copied in bulk.\<close>

definition bytes_from :: "leaf_node \<Rightarrow> nat \<Rightarrow> mem option" where
  "bytes_from n index =
     (if index < nkeys n then
        let off = unat (header_offset (ln_headers n ! index))
        in mem_read (ln_area n) off (length (ln_area n) - off)
      else None)"

section \<open>Insertion and removal\<close>

definition btree_leaf_insert_key_index ::
  "btree_raw \<Rightarrow> leaf_node \<Rightarrow> mem \<Rightarrow> mem \<Rightarrow> u64 \<Rightarrow> key_info \<Rightarrow> nat \<Rightarrow> bool
    \<Rightarrow> (leaf_node \<times> int) option" where
  "btree_leaf_insert_key_index bt n key data datalen ki index dry_run = do {
     _ \<leftarrow> assert_opt (index \<le> nkeys n \<and> length key < max_key_size bt);
     km0 \<leftarrow> build_key_prefix bt n index key
             (key_meta0\<lparr>km_keylen := word_of_nat (length key), km_datalen := datalen,
                        km_seqno := ki_seqno ki, km_ptr := ki_ptr ki\<rparr>);
     let ty = fst (key_meta_to_key_metax km0);
     let km = km0\<lparr>km_meta_type := ty\<rparr>;
     let hdrs = take index (ln_headers n) @
                \<lparr>tombstone = ki_tombstone ki, meta_type = ty, header_offset = 0\<rparr> #
                drop index (ln_headers n);
     before \<leftarrow> bytes_before bt n index;
     (ty', entry) \<leftarrow> append_entry_to_tmp_buf bt km ki data datalen;
     let hdrs1 = hdrs[index := (hdrs ! index)\<lparr>meta_type := ty'\<rparr>];
     (copied, hdrs2, impacted) \<leftarrow>
        copy_impacted_keys_to_tmp_buf bt n index index (Suc index) hdrs1 (Some (key, km));
     let items_copied = Suc (index + copied);
     rest \<leftarrow> (if items_copied \<ge> nkeys n + 1 then Some [] else bytes_from n (items_copied - 1));
     let buf = before @ entry @ impacted @ rest;
     let new_used_space = (nkeys n + 1) * sizeof_entry_header + length buf;
     _ \<leftarrow> assert_opt (dry_run \<or> new_used_space \<le> nodesize_less_hdr bt);
     let bytes_increased = int new_used_space - int (btree_leaf_used_space n);
     if dry_run then Some (n, bytes_increased)
     else do {
       n1 \<leftarrow> btree_leaf_adjust_offsets bt (n\<lparr>ln_headers := hdrs2, ln_area := buf\<rparr>);
       n2 \<leftarrow> btree_leaf_adjust_prefix_idxes n1 items_copied (int (nkeys n + 1) - 1)
              (int index - 1) 1;
       Some (n2, bytes_increased)
     }
   }"

definition btree_leaf_remove_key_index_int ::
  "btree_raw \<Rightarrow> leaf_node \<Rightarrow> nat \<Rightarrow> bool \<Rightarrow> (leaf_node \<times> int) option" where
  "btree_leaf_remove_key_index_int bt n index dry_run = do {
     _ \<leftarrow> assert_opt (index < nkeys n);
     let hdrs = take index (ln_headers n) @ drop (Suc index) (ln_headers n);
     before \<leftarrow> bytes_before bt n index;
     prev \<leftarrow> (if index = 0 then Some None
             else do {
               ki \<leftarrow> btree_leaf_get_nth_key_info n (index - 1);
               km \<leftarrow> btree_leaf_get_meta n (index - 1);
               Some (Some (ki_key ki, km)) });
     (copied, hdrs2, impacted) \<leftarrow>
        copy_impacted_keys_to_tmp_buf bt n (Suc index) (index - 1) index hdrs prev;
     let items_copied = index + copied;
     rest \<leftarrow> (if items_copied \<ge> nkeys n - 1 then Some [] else bytes_from n (items_copied + 1));
     let buf = before @ impacted @ rest;
     let new_used_space = (nkeys n - 1) * sizeof_entry_header + length buf;
     let bytes_decreased = int (btree_leaf_used_space n) - int new_used_space;
     if dry_run then Some (n, bytes_decreased)
     else do {
       n1 \<leftarrow> btree_leaf_adjust_offsets bt (n\<lparr>ln_headers := hdrs2, ln_area := buf\<rparr>);
       n2 \<leftarrow> btree_leaf_adjust_prefix_idxes n1 items_copied (int (nkeys n - 1) - 1)
              (int index) (- 1);
       Some (n2, bytes_decreased)
     }
   }"

definition btree_leaf_remove_key_index ::
  "btree_raw \<Rightarrow> leaf_node \<Rightarrow> nat \<Rightarrow> (leaf_node \<times> int) option" where
  "btree_leaf_remove_key_index bt n index = btree_leaf_remove_key_index_int bt n index False"

definition max_meta_size :: nat where
  "max_meta_size = get_meta_type_to_size TYPE4 + sizeof_entry_header"

definition btree_leaf_entry_max_size :: "u32 \<Rightarrow> u64 \<Rightarrow> int" where
  "btree_leaf_entry_max_size keylen datalen = int (unat keylen + unat datalen + max_meta_size)"

text \<open>The result carries the new node, \<open>bytes_saved\<close> and \<open>size_increased\<close>.\<close>

definition btree_leaf_update_key ::
  "btree_raw \<Rightarrow> leaf_node \<Rightarrow> mem \<Rightarrow> mem \<Rightarrow> u64 \<Rightarrow> u64 \<Rightarrow> u64 \<Rightarrow> btree_metadata \<Rightarrow> nat \<Rightarrow> bool
    \<Rightarrow> (leaf_node \<times> int \<times> int) option" where
  "btree_leaf_update_key bt n key data datalen seqno ptr meta index key_exists = do {
     _ \<leftarrow> assert_opt (length key < max_key_size bt);
     let ki = \<lparr>ki_key = key, ki_keylen = word_of_nat (length key), ki_datalen = datalen,
               ki_ptr = ptr, ki_seqno = seqno,
               ki_tombstone = (md_flags meta AND INSERT_TOMBSTONE \<noteq> 0)\<rparr>;
     (n1, bytes_decreased) \<leftarrow>
        (if key_exists then btree_leaf_remove_key_index_int bt n index False else Some (n, 0));
     (n2, bytes_increased) \<leftarrow> btree_leaf_insert_key_index bt n1 key data datalen ki index False;
     let size_increased = bytes_increased - bytes_decreased;
     Some (n2, btree_leaf_entry_max_size (word_of_nat (length key)) datalen - size_increased,
           size_increased)
   }"

section \<open>Fullness\<close>

definition global_tmp_data :: mem where "global_tmp_data = replicate 16384 0"

definition btree_leaf_is_full_index ::
  "btree_raw \<Rightarrow> leaf_node \<Rightarrow> mem \<Rightarrow> u64 \<Rightarrow> btree_metadata \<Rightarrow> bool \<Rightarrow> nat \<Rightarrow> bool option" where
  "btree_leaf_is_full_index bt n key datalen meta key_exists index =
     (let keylen = (word_of_nat (length key) :: u32);
          bytes_free = int (nodesize_less_hdr bt) - int (btree_leaf_used_space n)
      in do {
       new_datalen \<leftarrow> datalen_in_leaf bt keylen datalen;
       if nkeys n \<le> index \<and> btree_leaf_entry_max_size keylen new_datalen < bytes_free
       then Some False
       else do {
         bytes_needed \<leftarrow>
           (if key_exists then do {
              km \<leftarrow> btree_leaf_get_meta n index;
              let ty = get_key_meta_type (km\<lparr>compact_meta := False, km_datalen := datalen\<rparr>);
              old_datalen \<leftarrow> datalen_in_leaf bt keylen (km_datalen km);
              Some (max 0 (int (unat new_datalen) - int (unat old_datalen)
                           + int (get_meta_type_to_size ty)))
            }
            else
              map_option snd
                (btree_leaf_insert_key_index bt n key global_tmp_data datalen
                   \<lparr>ki_key = key, ki_keylen = keylen, ki_datalen = datalen,
                     ki_ptr = (if big_object_kd bt keylen datalen then 0xdeadc0de else 0),
                     ki_seqno = 0,
                     ki_tombstone = (md_flags meta AND INSERT_TOMBSTONE \<noteq> 0)\<rparr>
                   index True));
         Some (bytes_free < bytes_needed)
       }
     })"

end
