(* ===== verification/Leaf_Codec.thy ===== *)
theory Leaf_Codec
  imports Leaf_Ops
begin

text \<open>
  The contents of a leaf node as a list of entries, and the canonical encoding of such a list as a
  node.  The layout of an entry (how much of its key is shared, with which entry, and whether its
  metadata is compact) is a function of the entry, its position and its predecessor, so a list of
  entries has exactly one encoding; the later theories show that every operation of the code turns
  the encoding of a list into the encoding of the list the operation should produce.
\<close>

section \<open>Entries and their layout\<close>

record leaf_entry =
  le_key :: mem
  le_data :: mem
  le_datalen :: u64
  le_ptr :: u64
  le_seqno :: u64
  le_tombstone :: bool

record layout =
  lay_plen :: nat
  lay_pidx :: nat
  lay_compact :: bool

type_synonym item = "leaf_entry \<times> layout"

abbreviation key_of :: "item \<Rightarrow> mem" where "key_of x \<equiv> le_key (fst x)"
abbreviation plen :: "item \<Rightarrow> nat" where "plen x \<equiv> lay_plen (snd x)"
abbreviation pidx :: "item \<Rightarrow> nat" where "pidx x \<equiv> lay_pidx (snd x)"

definition layout_step :: "btree_raw \<Rightarrow> nat \<Rightarrow> item option \<Rightarrow> leaf_entry \<Rightarrow> layout" where
  "layout_step bt i prev e =
     (case prev of
        None \<Rightarrow> \<lparr>lay_plen = 0, lay_pidx = 0, lay_compact = False\<rparr>
      | Some p \<Rightarrow>
          (let c = get_common_part bt (key_of p) (le_key e);
               l = (if c = 0 then 0 else if plen p > 0 then min c (plen p) else c);
               j = (if c = 0 then 0 else if plen p > 0 then pidx p else i - 1)
           in \<lparr>lay_plen = l, lay_pidx = j,
               lay_compact =
                 (length (le_key e) = length (key_of p) \<and> le_datalen e = le_datalen (fst p) \<and>
                  l = plen p \<and> j = pidx p \<and> le_ptr e = 0 \<and> plen p \<noteq> 0 \<and>
                  \<not> space_op_disabled bt)\<rparr>))"

primrec layouts :: "btree_raw \<Rightarrow> nat \<Rightarrow> item option \<Rightarrow> leaf_entry list \<Rightarrow> item list" where
  "layouts bt i prev [] = []"
| "layouts bt i prev (e # es) =
     (let x = (e, layout_step bt i prev e) in x # layouts bt (Suc i) (Some x) es)"

definition item_meta :: "item \<Rightarrow> key_meta" where
  "item_meta x =
     (let e = fst x; l = snd x; km = \<lparr>
        km_keylen = word_of_nat (length (le_key e)), km_datalen = le_datalen e,
        km_prefix_idx = word_of_nat (lay_pidx l), km_prefix_len = word_of_nat (lay_plen l),
        km_ptr = le_ptr e, km_seqno = le_seqno e, km_tombstone = le_tombstone e,
        km_meta_type = TYPE1, compact_meta = lay_compact l\<rparr>
      in km\<lparr>km_meta_type := get_key_meta_type km\<rparr>)"

abbreviation item_type :: "item \<Rightarrow> key_meta_type" where
  "item_type x \<equiv> km_meta_type (item_meta x)"

definition item_bytes :: "item \<Rightarrow> mem" where
  "item_bytes x = snd (key_meta_to_key_metax (item_meta x)) @ drop (plen x) (key_of x) @ le_data (fst x)"

primrec item_headers :: "nat \<Rightarrow> item list \<Rightarrow> entry_header list" where
  "item_headers off [] = []"
| "item_headers off (x # xs) =
     \<lparr>tombstone = le_tombstone (fst x), meta_type = item_type x,
      header_offset = word_of_nat off\<rparr> # item_headers (off + length (item_bytes x)) xs"

abbreviation items_bytes :: "item list \<Rightarrow> mem" where
  "items_bytes xs \<equiv> concat (map item_bytes xs)"

definition encode_leaf :: "btree_raw \<Rightarrow> leaf_node \<Rightarrow> leaf_entry list \<Rightarrow> leaf_node" where
  "encode_leaf bt n es =
     (let xs = layouts bt 0 None es
      in n\<lparr>ln_headers := item_headers 0 xs, ln_area := items_bytes xs\<rparr>)"

section \<open>Well-formed trees, entries and contents\<close>

text \<open>
  What \<open>btree_raw_init\<close> guarantees of a tree: \<open>big_object_size\<close> is a quarter of the node less one
  entry header and the largest metadata, four keys of the largest size fit into a node (28 is the
  size of \<open>node_vlkey_t\<close>), and the largest node has 32768 bytes.  509 bytes is the smallest value
  of \<open>big_object_size\<close> for which an object with the smallest metadata cannot be a big one; a node
  of 2250 bytes suffices.
\<close>

definition tree_ok :: "btree_raw \<Rightarrow> bool" where
  "tree_ok bt \<longleftrightarrow>
     509 \<le> big_object_size bt \<and>
     4 * (big_object_size bt + sizeof_entry_header + btree_leaf_get_max_meta) \<le> nodesize_less_hdr bt \<and>
     4 * (max_key_size bt + 28) \<le> nodesize_less_hdr bt \<and>
     nodesize_less_hdr bt \<le> 32768 \<and> get_data_in_overflownode bt \<noteq> 0"

text \<open>
  An entry as callers build it: a key of legal length, the overflow pointer is set exactly for big
  objects, and the bytes in the leaf are as many as the code keeps there.  Keys longer than
  \<open>big_object_size\<close> are excluded: \<open>btree_get_bigobj_inleaf\<close> subtracts the key length from it.
\<close>

definition entry_ok :: "btree_raw \<Rightarrow> leaf_entry \<Rightarrow> bool" where
  "entry_ok bt e \<longleftrightarrow>
     length (le_key e) < max_key_size bt \<and> length (le_key e) \<le> big_object_size bt \<and>
     (le_ptr e \<noteq> 0 \<longleftrightarrow> big_object_kd bt (word_of_nat (length (le_key e))) (le_datalen e)) \<and>
     datalen_in_leaf bt (word_of_nat (length (le_key e))) (le_datalen e)
       = Some (word_of_nat (length (le_data e))) \<and>
     length (le_data e) < 32768"

definition leaf_used :: "btree_raw \<Rightarrow> leaf_entry list \<Rightarrow> nat" where
  "leaf_used bt es = length es * sizeof_entry_header + length (items_bytes (layouts bt 0 None es))"

definition entries_ok :: "btree_raw \<Rightarrow> leaf_entry list \<Rightarrow> bool" where
  "entries_ok bt es \<longleftrightarrow> (\<forall>e\<in>set es. entry_ok bt e) \<and> leaf_used bt es \<le> nodesize_less_hdr bt"

end
