(* ===== verification/Leaf_Meta.thy ===== *)
theory Leaf_Meta
  imports Leaf_Codec
begin

text \<open>
  The metadata of one entry: sizes of the four on-node formats, the range conditions on items under
  which each format loses nothing, and that decoding the bytes that \<open>key_meta_to_key_metax\<close> writes
  gives back the metadata.
\<close>

section \<open>Sizes and metadata\<close>

lemma fst_key_metax [simp]: "fst (key_meta_to_key_metax km) = get_key_meta_type km"
  by (simp add: key_meta_to_key_metax_def Let_def)

lemma length_key_metax [simp]:
  "length (snd (key_meta_to_key_metax km)) = get_meta_type_to_size (get_key_meta_type km)"
  by (simp add: key_meta_to_key_metax_def Let_def split: key_meta_type.split)

lemma meta_size_pos: "8 \<le> get_meta_type_to_size ty"
  by (cases ty) auto

lemma meta_size_le: "get_meta_type_to_size ty \<le> 34"
  by (cases ty) auto

lemma item_meta_simps [simp]:
  "km_keylen (item_meta x) = word_of_nat (length (key_of x))"
  "km_datalen (item_meta x) = le_datalen (fst x)"
  "km_prefix_idx (item_meta x) = word_of_nat (pidx x)"
  "km_prefix_len (item_meta x) = word_of_nat (plen x)"
  "km_ptr (item_meta x) = le_ptr (fst x)"
  "km_seqno (item_meta x) = le_seqno (fst x)"
  "km_tombstone (item_meta x) = le_tombstone (fst x)"
  "compact_meta (item_meta x) = lay_compact (snd x)"
  by (simp_all add: item_meta_def Let_def)

lemma get_key_meta_type_irrelevant [simp]:
  "get_key_meta_type (km\<lparr>km_meta_type := t\<rparr>) = get_key_meta_type km"
  "get_key_meta_type (km\<lparr>km_tombstone := b\<rparr>) = get_key_meta_type km"
  "get_key_meta_type (km\<lparr>km_prefix_len := l\<rparr>) = get_key_meta_type km"
  "get_key_meta_type (km\<lparr>km_prefix_idx := i\<rparr>) = get_key_meta_type km"
  "get_key_meta_type (km\<lparr>km_seqno := q\<rparr>) = get_key_meta_type km"
  "get_key_meta_type (km\<lparr>km_ptr := q\<rparr>) = get_key_meta_type km"
  by (simp_all add: get_key_meta_type_def)

lemma key_metax_irrelevant [simp]:
  "key_meta_to_key_metax (km\<lparr>km_meta_type := t\<rparr>) = key_meta_to_key_metax km"
  "key_meta_to_key_metax (km\<lparr>km_tombstone := b\<rparr>) = key_meta_to_key_metax km"
  by (simp_all add: key_meta_to_key_metax_def Let_def split: key_meta_type.split)

lemma get_key_meta_type_item [simp]: "get_key_meta_type (item_meta x) = item_type x"
  by (simp add: item_meta_def Let_def get_key_meta_type_def)

lemma item_type_TYPE1 [simp]: "item_type x = TYPE1 \<longleftrightarrow> lay_compact (snd x)"
  by (simp add: item_meta_def Let_def get_key_meta_type_def)

section \<open>Items in range\<close>

definition item_ok :: "btree_raw \<Rightarrow> item \<Rightarrow> bool" where
  "item_ok bt x \<longleftrightarrow> entry_ok bt (fst x) \<and> plen x \<le> length (key_of x) \<and> pidx x < 65536"

definition same_meta :: "item \<Rightarrow> item \<Rightarrow> bool" where
  "same_meta p x \<longleftrightarrow> length (key_of p) = length (key_of x) \<and>
     le_datalen (fst p) = le_datalen (fst x) \<and> plen p = plen x \<and> pidx p = pidx x \<and>
     le_ptr (fst p) = le_ptr (fst x)"

text \<open>What reading the metadata of an entry needs: items in range, and a compact item has a
  predecessor with the same metadata.\<close>

definition items_ok :: "btree_raw \<Rightarrow> item list \<Rightarrow> bool" where
  "items_ok bt xs \<longleftrightarrow>
     (\<forall>x\<in>set xs. item_ok bt x) \<and>
     (\<forall>i<length xs. lay_compact (snd (xs ! i)) \<longrightarrow> 0 < i \<and> same_meta (xs ! (i - 1)) (xs ! i))"


lemma unat_keylen [simp]:
  "k < 32768 \<Longrightarrow> unat (word_of_nat k :: u32) = k"
  "k < 65536 \<Longrightarrow> unat (word_of_nat k :: u16) = k"
  "k < 65536 \<Longrightarrow> unat (word_of_nat k :: u64) = k"
  by (simp_all add: unat_of_nat)

lemma word_less_255 [simp]:
  "k < 32768 \<Longrightarrow> (word_of_nat k :: u32) < 0xff \<longleftrightarrow> k < 255"
  "k < 32768 \<Longrightarrow> (word_of_nat k :: u32) < 0xffff \<longleftrightarrow> k < 65535"
  by (simp_all add: word_less_nat_alt)

lemma unat_sub_len:
  assumes "l \<le> k" and "k < 32768"
  shows "unat ((word_of_nat k :: u32) - word_of_nat l) = k - l"
proof -
  have "(word_of_nat l :: u32) \<le> word_of_nat k" using assms by (simp add: word_le_nat_alt)
  then show ?thesis using assms by (simp add: unat_sub)
qed

lemma u32_0_iff [simp]: "k < 32768 \<Longrightarrow> (word_of_nat k :: u32) = 0 \<longleftrightarrow> k = 0"
  by (simp add: unat_eq_zero [symmetric])

lemma unat_ucast_u32 [simp]: "unat (ucast (w :: u32) :: u64) = unat w"
proof -
  have "unat w < 2 ^ 32" using unsigned_less [of w] by simp
  then have "unat (word_of_nat (unat w) :: u64) = unat w" by (simp add: unat_of_nat del: of_nat_unat)
  then show ?thesis by simp
qed

lemma small_not_big:
  assumes "tree_ok bt" and "k < 255" and "d < (255 :: u64)"
  shows "\<not> big_object_kd bt (word_of_nat k) d"
proof -
  have d: "unat d < 255" using assms(3) by (simp add: word_less_nat_alt)
  have "unat (ucast (word_of_nat k :: u32) :: u64) = k"
    using assms(2) by simp
  then have s: "unat (ucast (word_of_nat k :: u32) + d) = k + unat d"
    using d assms(2) by (simp add: unat_word_ariths)
  have "big_object_size bt < 65536" "509 \<le> big_object_size bt"
    using assms(1) by (auto simp: tree_ok_def)
  then show ?thesis
    using s d assms(2) by (simp add: big_object_kd_def word_le_nat_alt)
qed

lemma entry_ok_keylen:
  assumes "tree_ok bt" and "entry_ok bt e"
  shows "length (le_key e) < 32768"
  using assms by (simp add: tree_ok_def entry_ok_def)

section \<open>Decoding metadata\<close>

lemma field_le_bytes [simp]: "field (le_bytes k x) 0 k = x mod 256 ^ k"
  by (simp add: field_def)

lemma field_le_bytes_append:
  "field (le_bytes k x @ ys) 0 k = x mod 256 ^ k"
  "k \<le> off \<Longrightarrow> field (le_bytes k x @ ys) off len = field ys (off - k) len"
  by (simp_all add: field_def)

lemma u64_of_nat_mod [simp]: "(word_of_nat (unat (w :: u64) mod 18446744073709551616) :: u64) = w"
proof -
  have "unat w < 18446744073709551616" using unsigned_less [of w] by simp
  then show ?thesis by simp
qed

lemma item_type_cases:
  "item_type x = (if lay_compact (snd x) then TYPE1
     else if (word_of_nat (length (key_of x)) :: u32) < 0xff \<and> le_datalen (fst x) < 0xff then TYPE2
     else if (word_of_nat (length (key_of x)) :: u32) < 0xffff \<and> le_datalen (fst x) < 0xffff then TYPE3
     else TYPE4)"
  by (simp add: item_meta_def Let_def get_key_meta_type_def)

lemma item_TYPE2:
  assumes "tree_ok bt" and "item_ok bt x" and "item_type x = TYPE2"
  shows "length (key_of x) < 255" and "unat (le_datalen (fst x)) < 255" and "plen x < 255"
    and "le_ptr (fst x) = 0" and "\<not> lay_compact (snd x)" and "pidx x < 65536"
proof -
  have k: "length (key_of x) < 32768" using assms entry_ok_keylen by (auto simp: item_ok_def)
  show c: "\<not> lay_compact (snd x)" using assms(3) by (auto simp: item_type_cases)
  from assms(3) c have "(word_of_nat (length (key_of x)) :: u32) < 0xff" and d: "le_datalen (fst x) < 0xff"
    by (auto simp: item_type_cases split: if_splits)
  with k show l: "length (key_of x) < 255" by simp
  show "unat (le_datalen (fst x)) < 255" using d by (simp add: word_less_nat_alt)
  show "plen x < 255" using l assms(2) by (auto simp: item_ok_def)
  show "pidx x < 65536" using assms(2) by (auto simp: item_ok_def)
  have "\<not> big_object_kd bt (word_of_nat (length (key_of x))) (le_datalen (fst x))"
    using small_not_big [OF assms(1) l] d by simp
  then show "le_ptr (fst x) = 0" using assms(2) by (auto simp: item_ok_def entry_ok_def)
qed

lemma item_TYPE3:
  assumes "tree_ok bt" and "item_ok bt x" and "item_type x = TYPE3"
  shows "length (key_of x) < 32768" and "unat (le_datalen (fst x)) < 65535" and "plen x < 32768"
    and "\<not> lay_compact (snd x)" and "pidx x < 65536"
proof -
  show k: "length (key_of x) < 32768" using assms entry_ok_keylen by (auto simp: item_ok_def)
  show c: "\<not> lay_compact (snd x)" using assms(3) by (auto simp: item_type_cases)
  from assms(3) c have d: "le_datalen (fst x) < 0xffff"
    by (auto simp: item_type_cases split: if_splits)
  show "unat (le_datalen (fst x)) < 65535" using d by (simp add: word_less_nat_alt)
  show "plen x < 32768" using k assms(2) by (auto simp: item_ok_def)
  show "pidx x < 65536" using assms(2) by (auto simp: item_ok_def)
qed

lemma item_TYPE4:
  assumes "tree_ok bt" and "item_ok bt x" and "item_type x = TYPE4"
  shows "length (key_of x) < 32768" and "plen x < 32768"
    and "\<not> lay_compact (snd x)" and "pidx x < 65536"
proof -
  show k: "length (key_of x) < 32768" using assms entry_ok_keylen by (auto simp: item_ok_def)
  show c: "\<not> lay_compact (snd x)" using assms(3) by (auto simp: item_type_cases)
  show "plen x < 32768" using k assms(2) by (auto simp: item_ok_def)
  show "pidx x < 65536" using assms(2) by (auto simp: item_ok_def)
qed

abbreviation meta_bytes :: "item \<Rightarrow> mem" where
  "meta_bytes x \<equiv> snd (key_meta_to_key_metax (item_meta x))"

lemma meta_bytes_TYPE2:
  "item_type x = TYPE2 \<Longrightarrow> meta_bytes x =
     le_bytes 1 (unat (word_of_nat (length (key_of x)) :: u32)) @
     le_bytes 1 (unat (le_datalen (fst x))) @ le_bytes 2 (unat (word_of_nat (pidx x) :: u16)) @
     le_bytes 1 (unat (word_of_nat (plen x) :: u32)) @ le_bytes 8 (unat (le_seqno (fst x)))"
  by (simp add: key_meta_to_key_metax_def Let_def)

lemma meta_bytes_TYPE3:
  "item_type x = TYPE3 \<Longrightarrow> meta_bytes x =
     le_bytes 2 (unat (word_of_nat (length (key_of x)) :: u32)) @
     le_bytes 2 (unat (le_datalen (fst x))) @ le_bytes 2 (unat (word_of_nat (pidx x) :: u16)) @
     le_bytes 2 (unat (word_of_nat (plen x) :: u32)) @ le_bytes 8 (unat (le_ptr (fst x))) @
     le_bytes 8 (unat (le_seqno (fst x)))"
  by (simp add: key_meta_to_key_metax_def Let_def)

lemma meta_bytes_TYPE4:
  "item_type x = TYPE4 \<Longrightarrow> meta_bytes x =
     le_bytes 4 (unat (word_of_nat (length (key_of x)) :: u32)) @
     le_bytes 8 (unat (le_datalen (fst x))) @ le_bytes 2 (unat (word_of_nat (pidx x) :: u16)) @
     le_bytes 4 (unat (word_of_nat (plen x) :: u32)) @ le_bytes 8 (unat (le_ptr (fst x))) @
     le_bytes 8 (unat (le_seqno (fst x)))"
  by (simp add: key_meta_to_key_metax_def Let_def)

lemma meta_bytes_TYPE1:
  "item_type x = TYPE1 \<Longrightarrow> meta_bytes x = le_bytes 8 (unat (le_seqno (fst x)))"
  by (simp add: key_meta_to_key_metax_def Let_def del: item_type_TYPE1)

lemma decode_TYPE2:
  assumes "tree_ok bt" and "item_ok bt x" and "item_type x = TYPE2"
  shows "(key_meta2_to_key_meta (meta_bytes x))
           \<lparr>km_meta_type := TYPE2, km_tombstone := le_tombstone (fst x)\<rparr> = item_meta x"
  using item_TYPE2 [OF assms] assms(3)
  by (intro key_meta.equality)
    (simp_all add: meta_bytes_TYPE2 key_meta2_to_key_meta_def key_meta0_def field_le_bytes_append
      del: One_nat_def)

lemma decode_TYPE3:
  assumes "tree_ok bt" and "item_ok bt x" and "item_type x = TYPE3"
  shows "(key_meta3_to_key_meta (meta_bytes x))
           \<lparr>km_meta_type := TYPE3, km_tombstone := le_tombstone (fst x)\<rparr> = item_meta x"
  using item_TYPE3 [OF assms] assms(3)
  by (intro key_meta.equality)
    (simp_all add: meta_bytes_TYPE3 key_meta3_to_key_meta_def key_meta0_def field_le_bytes_append
      del: One_nat_def)

lemma decode_TYPE4:
  assumes "tree_ok bt" and "item_ok bt x" and "item_type x = TYPE4"
  shows "(key_meta4_to_key_meta (meta_bytes x))
           \<lparr>km_meta_type := TYPE4, km_tombstone := le_tombstone (fst x)\<rparr> = item_meta x"
  using item_TYPE4 [OF assms] assms(3)
  by (intro key_meta.equality)
    (simp_all add: meta_bytes_TYPE4 key_meta4_to_key_meta_def key_meta0_def field_le_bytes_append
      del: One_nat_def)

lemma decode_TYPE1:
  assumes "item_type x = TYPE1" and "same_meta p x"
  shows "(key_meta1_to_key_meta (meta_bytes x) (item_meta p))
           \<lparr>km_meta_type := TYPE1, km_tombstone := le_tombstone (fst x)\<rparr> = item_meta x"
proof -
  have c: "lay_compact (snd x)" using assms(1) by simp
  show ?thesis
    using assms c
    by (intro key_meta.equality)
      (simp_all add: meta_bytes_TYPE1 key_meta1_to_key_meta_def same_meta_def del: item_type_TYPE1)
qed

end
