(* ===== verification/Leaf_Decode.thy ===== *)
theory Leaf_Decode
  imports Leaf_Meta
begin

text \<open>
  Reading an entry of an encoded node: \<open>btree_leaf_get_meta\<close>, \<open>btree_leaf_get_nth_key_info\<close> and
  \<open>btree_leaf_get_data_nth_key\<close> return what was encoded, the byte ranges the bulk copies of the
  code take are those of the entries, and \<open>append_entry_to_tmp_buf\<close> writes one item.
\<close>

section \<open>Reading an entry of an encoded item list\<close>

abbreviation offs :: "item list \<Rightarrow> nat \<Rightarrow> nat" where
  "offs xs i \<equiv> length (items_bytes (take i xs))"

lemma length_item_headers [simp]: "length (item_headers off xs) = length xs"
  by (induction xs arbitrary: off) auto

lemma nth_item_headers:
  "i < length xs \<Longrightarrow> item_headers off xs ! i =
     \<lparr>tombstone = le_tombstone (fst (xs ! i)), meta_type = item_type (xs ! i),
      header_offset = word_of_nat (off + offs xs i)\<rparr>"
proof (induction xs arbitrary: off i)
  case Nil
  then show ?case by simp
next
  case (Cons x xs)
  then show ?case by (cases i) (auto simp: add.assoc)
qed

lemma item_headers_append:
  "item_headers off (xs @ ys) = item_headers off xs @ item_headers (off + length (items_bytes xs)) ys"
  by (induction xs arbitrary: off) (auto simp: add.assoc)

lemma take_item_headers: "take k (item_headers off xs) = item_headers off (take k xs)"
  by (induction xs arbitrary: off k) (auto simp: take_Cons split: nat.split)

lemma length_item_bytes:
  "length (item_bytes x) = get_meta_type_to_size (item_type x) + (length (key_of x) - plen x)
     + length (le_data (fst x))"
  by (simp add: item_bytes_def)

lemma items_bytes_split:
  "i < length xs \<Longrightarrow>
     items_bytes xs = items_bytes (take i xs) @ item_bytes (xs ! i) @ items_bytes (drop (Suc i) xs)"
  by (metis append_Cons append_Nil concat.simps(2) concat_append id_take_nth_drop list.simps(9) map_append)

lemma offs_Suc: "i < length xs \<Longrightarrow> offs xs (Suc i) = offs xs i + length (item_bytes (xs ! i))"
  by (simp add: take_Suc_conv_app_nth)

lemma offs_le: "i < length xs \<Longrightarrow> offs xs i + length (item_bytes (xs ! i)) \<le> length (items_bytes xs)"
  by (simp add: items_bytes_split)

lemma offs_less: "i < length xs \<Longrightarrow> offs xs i < length (items_bytes xs)"
  using offs_le [of i xs] meta_size_pos [of "item_type (xs ! i)"] by (simp add: length_item_bytes)

text \<open>A node whose headers agree with the encoding up to entry \<open>i\<close>, which is all that reading
  entry \<open>i\<close> looks at.\<close>

definition node_upto :: "leaf_node \<Rightarrow> item list \<Rightarrow> nat \<Rightarrow> bool" where
  "node_upto n xs i \<longleftrightarrow>
     ln_area n = items_bytes xs \<and> length (ln_headers n) = length xs \<and>
     (\<forall>j\<le>i. j < length xs \<longrightarrow> ln_headers n ! j = item_headers 0 xs ! j)"

definition node_items :: "leaf_node \<Rightarrow> item list \<Rightarrow> bool" where
  "node_items n xs \<longleftrightarrow> ln_area n = items_bytes xs \<and> ln_headers n = item_headers 0 xs"

lemma node_items_upto: "node_items n xs \<Longrightarrow> node_upto n xs i"
  by (simp add: node_items_def node_upto_def)

lemma node_upto_mono: "node_upto n xs i \<Longrightarrow> j \<le> i \<Longrightarrow> node_upto n xs j"
  by (auto simp: node_upto_def)

lemma node_upto_header:
  assumes "node_upto n xs i" and "j \<le> i" and "j < length xs"
    and "length (items_bytes xs) < 65536"
  shows "meta_type (ln_headers n ! j) = item_type (xs ! j)"
    and "tombstone (ln_headers n ! j) = le_tombstone (fst (xs ! j))"
    and "unat (header_offset (ln_headers n ! j)) = offs xs j"
  using assms offs_less [of j xs] by (simp_all add: node_upto_def nth_item_headers)

lemma read_meta_bytes:
  assumes "i < length xs"
  shows "mem_read (items_bytes xs) (offs xs i) (get_meta_type_to_size (item_type (xs ! i)))
           = Some (meta_bytes (xs ! i))"
  using items_bytes_split [OF assms] by (simp add: item_bytes_def mem_simps)

lemma get_meta_items [leaf_decode]:
  assumes "tree_ok bt" and "items_ok bt xs" and "node_upto n xs i" and "i < length xs"
    and "length (items_bytes xs) < 65536"
  shows "btree_leaf_get_meta n i = Some (item_meta (xs ! i))"
  using assms(3,4)
proof (induction i rule: less_induct)
  case (less i)
  note hdr = node_upto_header [OF less.prems(1) le_refl less.prems(2) assms(5)]
  have len: "i < nkeys n" and area: "ln_area n = items_bytes xs"
    using less.prems by (simp_all add: node_upto_def)
  have ok: "item_ok bt (xs ! i)" using assms(2) less.prems(2) by (simp add: items_ok_def)
  show ?case
  proof (cases "item_type (xs ! i)")
    case TYPE1
    then have c: "lay_compact (snd (xs ! i))" by simp
    with assms(2) less.prems(2) have i: "0 < i" and s: "same_meta (xs ! (i - 1)) (xs ! i)"
      by (auto simp: items_ok_def)
    have "btree_leaf_get_meta n (i - 1) = Some (item_meta (xs ! (i - 1)))"
      using less.IH [of "i - 1"] i less.prems node_upto_mono [of n xs i "i - 1"] by auto
    with TYPE1 i len area hdr read_meta_bytes [OF less.prems(2)] decode_TYPE1 [OF TYPE1 s]
    show ?thesis
      by (subst btree_leaf_get_meta.simps) (simp add: Let_def del: item_type_TYPE1)
  next
    case TYPE2
    with len area hdr read_meta_bytes [OF less.prems(2)] decode_TYPE2 [OF assms(1) ok TYPE2]
    show ?thesis by (subst btree_leaf_get_meta.simps) (simp add: Let_def)
  next
    case TYPE3
    with len area hdr read_meta_bytes [OF less.prems(2)] decode_TYPE3 [OF assms(1) ok TYPE3]
    show ?thesis by (subst btree_leaf_get_meta.simps) (simp add: Let_def)
  next
    case TYPE4
    with len area hdr read_meta_bytes [OF less.prems(2)] decode_TYPE4 [OF assms(1) ok TYPE4]
    show ?thesis by (subst btree_leaf_get_meta.simps) (simp add: Let_def)
  qed
qed

lemma key_metax_items:
  assumes "tree_ok bt" and "items_ok bt xs" and "node_upto n xs i" and "i < length xs"
    and "length (items_bytes xs) < 65536" and "ty = item_type (xs ! i)" and "off = offs xs i"
  obtains km where "key_metax_to_key_meta n off ty i = Some km"
    and "km_keylen km = word_of_nat (length (key_of (xs ! i)))"
    and "km_datalen km = le_datalen (fst (xs ! i))"
    and "km_prefix_len km = word_of_nat (plen (xs ! i))"
proof -
  note gm = get_meta_items [OF assms(1-5)]
  have area: "ln_area n = items_bytes xs" using assms(3) by (simp add: node_upto_def)
  have ok: "item_ok bt (xs ! i)" using assms(2,4) by (simp add: items_ok_def)
  note rd = read_meta_bytes [OF assms(4)]
  show thesis
  proof (cases "item_type (xs ! i)")
    case TYPE1
    then show thesis using that gm area rd assms(6,7)
      by (simp add: key_metax_to_key_meta_def key_meta1_to_key_meta_def del: item_type_TYPE1)
  next
    case TYPE2
    show thesis using that TYPE2 area rd assms(6,7) arg_cong [OF decode_TYPE2 [OF assms(1) ok TYPE2], of km_keylen]
        arg_cong [OF decode_TYPE2 [OF assms(1) ok TYPE2], of km_datalen]
        arg_cong [OF decode_TYPE2 [OF assms(1) ok TYPE2], of km_prefix_len]
      by (simp add: key_metax_to_key_meta_def)
  next
    case TYPE3
    show thesis using that TYPE3 area rd assms(6,7) arg_cong [OF decode_TYPE3 [OF assms(1) ok TYPE3], of km_keylen]
        arg_cong [OF decode_TYPE3 [OF assms(1) ok TYPE3], of km_datalen]
        arg_cong [OF decode_TYPE3 [OF assms(1) ok TYPE3], of km_prefix_len]
      by (simp add: key_metax_to_key_meta_def)
  next
    case TYPE4
    show thesis using that TYPE4 area rd assms(6,7) arg_cong [OF decode_TYPE4 [OF assms(1) ok TYPE4], of km_keylen]
        arg_cong [OF decode_TYPE4 [OF assms(1) ok TYPE4], of km_datalen]
        arg_cong [OF decode_TYPE4 [OF assms(1) ok TYPE4], of km_prefix_len]
      by (simp add: key_metax_to_key_meta_def)
  qed
qed

section \<open>Keys, data and the space of an entry\<close>

text \<open>A prefix index leads to an entry without prefix whose key starts with the prefix.\<close>

definition prefixes_ok :: "item list \<Rightarrow> bool" where
  "prefixes_ok xs \<longleftrightarrow> (\<forall>i<length xs. 0 < plen (xs ! i) \<longrightarrow>
     pidx (xs ! i) < i \<and> plen (xs ! pidx (xs ! i)) = 0 \<and>
     plen (xs ! i) \<le> length (key_of (xs ! pidx (xs ! i))) \<and>
     take (plen (xs ! i)) (key_of (xs ! pidx (xs ! i))) = take (plen (xs ! i)) (key_of (xs ! i)))"

definition entry_info :: "leaf_entry \<Rightarrow> key_info" where
  "entry_info e = \<lparr>ki_key = le_key e, ki_keylen = word_of_nat (length (le_key e)),
     ki_datalen = le_datalen e, ki_ptr = le_ptr e, ki_seqno = le_seqno e,
     ki_tombstone = le_tombstone e\<rparr>"

lemma items_bytes_take_drop: "items_bytes xs = items_bytes (take i xs) @ items_bytes (drop i xs)"
  by (metis append_take_drop_id concat_append map_append)

lemma read_items_prefix: "mem_read (items_bytes xs) 0 (offs xs i) = Some (items_bytes (take i xs))"
  using arg_cong [OF items_bytes_take_drop [of xs i], of "take (offs xs i)"]
    arg_cong [OF items_bytes_take_drop [of xs i], of length]
  by (simp add: mem_read_def)

lemma read_items_suffix:
  "mem_read (items_bytes xs) (offs xs i) (length (items_bytes xs) - offs xs i)
     = Some (items_bytes (drop i xs))"
  using arg_cong [OF items_bytes_take_drop [of xs i], of "drop (offs xs i)"]
    arg_cong [OF items_bytes_take_drop [of xs i], of length]
  by (simp add: mem_read_def)

lemma read_inside_item:
  assumes "i < length xs" and "item_bytes (xs ! i) = ps @ qs @ rs"
    and "off = offs xs i + length ps" and "len = length qs"
  shows "mem_read (items_bytes xs) off len = Some qs"
proof -
  have "items_bytes xs = (items_bytes (take i xs) @ ps) @ qs @ (rs @ items_bytes (drop (Suc i) xs))"
    using items_bytes_split [OF assms(1)] assms(2) by simp
  then show ?thesis using assms(3,4) by (simp only: mem_read_append length_append)
qed

lemma get_nth_key_info_items [leaf_decode]:
  assumes "tree_ok bt" and "items_ok bt xs" and "prefixes_ok xs" and "node_items n xs"
    and "i < length xs" and "length (items_bytes xs) < 65536"
  shows "btree_leaf_get_nth_key_info n i = Some (entry_info (fst (xs ! i)))"
proof -
  define x where "x = xs ! i"
  define t where "t = xs ! pidx x"
  have area: "ln_area n = items_bytes xs" using assms(4) by (simp add: node_items_def)
  note up = node_items_upto [OF assms(4)]
  have gm: "btree_leaf_get_meta n j = Some (item_meta (xs ! j))" if "j < length xs" for j
    using get_meta_items [OF assms(1,2) up that assms(6)] .
  note hdr = node_upto_header [OF up le_refl _ assms(6)]
  have ok: "item_ok bt x" using assms(2,5) by (simp add: items_ok_def x_def)
  have k: "length (key_of x) < 32768" using ok entry_ok_keylen [OF assms(1)] by (auto simp: item_ok_def)
  have l: "plen x \<le> length (key_of x)" using ok by (simp add: item_ok_def)
  have p: "pidx x < 65536" using ok by (simp add: item_ok_def)
  have short: "mem_read (items_bytes xs) (offs xs i + get_meta_type_to_size (item_type x))
      (unat ((word_of_nat (length (key_of x)) :: u32) - word_of_nat (plen x))) = Some (drop (plen x) (key_of x))"
    by (rule read_inside_item [OF assms(5), where ps = "meta_bytes x" and rs = "le_data (fst x)"])
      (use k l in \<open>simp_all add: item_bytes_def x_def unat_sub_len\<close>)
  show ?thesis
  proof (cases "plen x = 0")
    case True
    then show ?thesis
      using gm [OF assms(5)] hdr [OF assms(5)] short area
      by (simp add: btree_leaf_get_nth_key_info_def x_def entry_info_def)
  next
    case False
    then have pt: "pidx x < i" "plen t = 0" "plen x \<le> length (key_of t)"
      "take (plen x) (key_of t) = take (plen x) (key_of x)"
      using assms(3,5) by (simp_all add: prefixes_ok_def x_def t_def)
    have tl: "pidx x < length xs" using pt(1) assms(5) by simp
    have pre: "mem_read (items_bytes xs) (offs xs (pidx x) + get_meta_type_to_size (item_type t)) (plen x)
        = Some (take (plen x) (key_of t))"
      by (rule read_inside_item [OF tl, where ps = "meta_bytes t"
            and rs = "drop (plen x) (key_of t) @ le_data (fst t)"])
        (use pt(2,3) in \<open>simp_all add: item_bytes_def t_def\<close>)
    have gp: "get_key_prefix n (pidx x) = Some (offs xs (pidx x) + get_meta_type_to_size (item_type t))"
      using gm [OF tl] hdr [OF tl] pt(2) by (simp add: get_key_prefix_def t_def)
    show ?thesis
      using False gm [OF assms(5)] hdr [OF assms(5)] short area gp pre pt(4) k l p
      by (simp add: btree_leaf_get_nth_key_info_def x_def entry_info_def)
  qed
qed

lemma get_data_items [leaf_decode]:
  assumes "tree_ok bt" and "items_ok bt xs" and "node_items n xs"
    and "i < length xs" and "length (items_bytes xs) < 65536"
  shows "btree_leaf_get_data_nth_key n i =
     Some (le_data (fst (xs ! i)) @ items_bytes (drop (Suc i) xs), le_datalen (fst (xs ! i)))"
proof -
  define x where "x = xs ! i"
  note up = node_items_upto [OF assms(3)]
  note gm = get_meta_items [OF assms(1,2) up assms(4,5)]
  have ok: "item_ok bt x" using assms(2,4) by (simp add: items_ok_def x_def)
  have k: "length (key_of x) < 32768" using ok entry_ok_keylen [OF assms(1)] by (auto simp: item_ok_def)
  have l: "plen x \<le> length (key_of x)" using ok by (simp add: item_ok_def)
  have area: "ln_area n = items_bytes xs" using assms(3) by (simp add: node_items_def)
  show ?thesis
    using gm node_upto_header [OF up le_refl assms(4,5)] area k l items_bytes_split [OF assms(4)]
    by (simp add: btree_leaf_get_data_nth_key_def unat_sub_len item_bytes_def x_def)
qed

lemma entry_ok_datalen:
  assumes "tree_ok bt" and "entry_ok bt e"
  shows "datalen_in_leaf bt (word_of_nat (length (le_key e))) (le_datalen e)
           = Some (word_of_nat (length (le_data e)))"
    and "unat (word_of_nat (length (le_data e)) :: u64) = length (le_data e)"
  using assms by (simp_all add: entry_ok_def)

lemma space_used_item:
  assumes "tree_ok bt" and "item_ok bt x"
  shows "get_key_meta_space_used bt (item_meta x) = Some (length (item_bytes x))"
proof -
  have k: "length (key_of x) < 32768" and l: "plen x \<le> length (key_of x)"
    using assms entry_ok_keylen by (auto simp: item_ok_def)
  have e: "entry_ok bt (fst x)" using assms(2) by (simp add: item_ok_def)
  show ?thesis
    using entry_ok_datalen [OF assms(1) e] k l
    by (simp add: get_key_meta_space_used_def length_item_bytes unat_sub_len)
qed

lemma bytes_before_items [leaf_decode]:
  assumes "tree_ok bt" and "items_ok bt xs" and "node_items n xs"
    and "i \<le> length xs" and "length (items_bytes xs) < 65536"
  shows "bytes_before bt n i = Some (items_bytes (take i xs))"
proof (cases i)
  case 0
  then show ?thesis by (simp add: bytes_before_def)
next
  case (Suc j)
  then have j: "j < length xs" using assms(4) by simp
  note up = node_items_upto [OF assms(3)]
  note gm = get_meta_items [OF assms(1,2) up j assms(5)]
  have ok: "item_ok bt (xs ! j)" using assms(2) j by (simp add: items_ok_def)
  have area: "ln_area n = items_bytes xs" using assms(3) by (simp add: node_items_def)
  note read_items_prefix [of xs "Suc j"]
  then show ?thesis
    using Suc gm node_upto_header [OF up le_refl j assms(5)] area space_used_item [OF assms(1) ok]
      offs_Suc [OF j]
    by (simp add: bytes_before_def)
qed

lemma bytes_from_items [leaf_decode]:
  assumes "node_items n xs" and "i < length xs" and "length (items_bytes xs) < 65536"
  shows "bytes_from n i = Some (items_bytes (drop i xs))"
proof -
  note hdr = node_upto_header [OF node_items_upto [OF assms(1)] le_refl assms(2,3)]
  note read_items_suffix [of xs i]
  then show ?thesis
    using assms hdr by (simp add: bytes_from_def node_items_def)
qed

lemma append_entry_item [leaf_decode]:
  assumes "tree_ok bt" and "item_ok bt x"
    and "km_keylen km = km_keylen (item_meta x)" and "km_datalen km = km_datalen (item_meta x)"
    and "km_prefix_idx km = km_prefix_idx (item_meta x)"
    and "km_prefix_len km = km_prefix_len (item_meta x)" and "km_ptr km = km_ptr (item_meta x)"
    and "km_seqno km = km_seqno (item_meta x)" and "compact_meta km = compact_meta (item_meta x)"
    and "ki_key ki = key_of x" and "take (length (le_data (fst x))) data = le_data (fst x)"
  shows "append_entry_to_tmp_buf bt km ki data (le_datalen (fst x)) = Some (item_type x, item_bytes x)"
proof -
  have k: "length (key_of x) < 32768" and l: "plen x \<le> length (key_of x)"
    using assms(1,2) entry_ok_keylen by (auto simp: item_ok_def)
  have e: "entry_ok bt (fst x)" using assms(2) by (simp add: item_ok_def)
  have mx: "key_meta_to_key_metax km = key_meta_to_key_metax (item_meta x)"
  proof -
    have "km = (item_meta x)\<lparr>km_tombstone := km_tombstone km, km_meta_type := km_meta_type km\<rparr>"
      using assms(3-9) by (intro key_meta.equality) simp_all
    then show ?thesis by (metis key_metax_irrelevant)
  qed
  have rk: "mem_read (key_of x) (plen x) (length (key_of x) - plen x) = Some (drop (plen x) (key_of x))"
    using l by (simp add: mem_read_def)
  have len: "length (le_data (fst x)) \<le> length data"
    using assms(11) by (metis length_take min.absorb_iff2 min.commute)
  have rd: "mem_read data 0 (length (le_data (fst x))) = Some (le_data (fst x))"
    using assms(11) len by (simp add: mem_read_def)
  have sz: "big_object_kd bt (word_of_nat (length (key_of x))) (le_datalen (fst x)) \<Longrightarrow>
      btree_get_bigobj_inleaf bt (word_of_nat (length (key_of x))) (le_datalen (fst x))
        = Some (word_of_nat (length (le_data (fst x))))"
    "\<not> big_object_kd bt (word_of_nat (length (key_of x))) (le_datalen (fst x)) \<Longrightarrow>
      le_datalen (fst x) = word_of_nat (length (le_data (fst x)))"
    using entry_ok_datalen(1) [OF assms(1) e] by (simp_all add: datalen_in_leaf_def)
  have sz2: "\<not> big_object_kd bt (word_of_nat (length (key_of x))) (le_datalen (fst x)) \<Longrightarrow>
      unat (le_datalen (fst x)) = length (le_data (fst x))"
    using sz(2) entry_ok_datalen(2) [OF assms(1) e] by metis
  show ?thesis
  proof (cases "big_object_kd bt (word_of_nat (length (key_of x))) (le_datalen (fst x))")
    case True
    then show ?thesis
      using assms(3-10) mx k l rk rd sz(1) entry_ok_datalen(2) [OF assms(1) e]
      by (simp add: append_entry_to_tmp_buf_def Let_def split_beta unat_sub_len item_bytes_def)
  next
    case False
    then show ?thesis
      using assms(3-10) mx k l rk rd sz2
      by (simp add: append_entry_to_tmp_buf_def Let_def split_beta unat_sub_len item_bytes_def)
  qed
qed

end
