(* ===== verification/Leaf_Fixup.thy ===== *)
theory Leaf_Fixup
  imports Leaf_Decode
begin

text \<open>
  The two passes that end every change of a leaf node: \<open>btree_leaf_adjust_offsets\<close> writes the
  offsets of the entries into the headers, and \<open>btree_leaf_adjust_prefix_idxes\<close> moves the prefix
  indices of the entries that were copied in bulk.
\<close>

section \<open>Fixing offsets\<close>

lemma set_header_offset_upto:
  assumes "ln_area n = items_bytes xs" and "length (ln_headers n) = length xs" and "i < length xs"
    and "\<forall>j<i. ln_headers n ! j = item_headers 0 xs ! j"
    and "meta_type (ln_headers n ! i) = item_type (xs ! i)"
    and "tombstone (ln_headers n ! i) = le_tombstone (fst (xs ! i))"
  shows "node_upto (set_header_offset n i (offs xs i)) xs i"
    and "ln_headers (set_header_offset n i (offs xs i)) =
           (ln_headers n)[i := item_headers 0 xs ! i]"
proof -
  have h: "(ln_headers n ! i)\<lparr>header_offset := word_of_nat (offs xs i)\<rparr> = item_headers 0 xs ! i"
    using assms(3,5,6) by (simp add: nth_item_headers)
  show "ln_headers (set_header_offset n i (offs xs i)) = (ln_headers n)[i := item_headers 0 xs ! i]"
    by (simp add: set_header_offset_def h)
  then show "node_upto (set_header_offset n i (offs xs i)) xs i"
    using assms(1-4) by (auto simp: node_upto_def nth_list_update set_header_offset_def)
qed

lemma adjust_offsets_loop_items:
  assumes "tree_ok bt" and "items_ok bt xs" and "length (items_bytes xs) < 65536"
    and "ln_area n = items_bytes xs" and "length (ln_headers n) = length xs"
    and "\<forall>j<i. ln_headers n ! j = item_headers 0 xs ! j"
    and "\<forall>j<length xs. meta_type (ln_headers n ! j) = item_type (xs ! j) \<and>
                      tombstone (ln_headers n ! j) = le_tombstone (fst (xs ! j))"
    and "i + todo = length xs" and "off = offs xs i"
  shows "adjust_offsets_loop bt n todo i off = Some (n\<lparr>ln_headers := item_headers 0 xs\<rparr>)"
  using assms(4-9)
proof (induction todo arbitrary: n i off)
  case 0
  then have "ln_headers n = item_headers 0 xs" by (auto intro!: nth_equalityI)
  then show ?case by simp
next
  case (Suc todo)
  then have i: "i < length xs" by simp
  let ?n' = "set_header_offset n i off"
  from Suc.prems i have up: "node_upto ?n' xs i"
    and hd: "ln_headers ?n' = (ln_headers n)[i := item_headers 0 xs ! i]"
    using set_header_offset_upto [of n xs i] by simp_all
  have ok: "item_ok bt (xs ! i)" using assms(2) i by (simp add: items_ok_def)
  have k: "length (key_of (xs ! i)) < 32768" and l: "plen (xs ! i) \<le> length (key_of (xs ! i))"
    and e: "entry_ok bt (fst (xs ! i))"
    using ok assms(1) entry_ok_keylen by (auto simp: item_ok_def)
  from Suc.prems i have ty: "meta_type (ln_headers n ! i) = item_type (xs ! i)" by simp
  obtain km where km: "key_metax_to_key_meta ?n' off (item_type (xs ! i)) i = Some km"
    "km_keylen km = word_of_nat (length (key_of (xs ! i)))"
    "km_datalen km = le_datalen (fst (xs ! i))" "km_prefix_len km = word_of_nat (plen (xs ! i))"
    using key_metax_items [OF assms(1,2) up i assms(3) refl Suc.prems(6)] by blast
  have rec: "adjust_offsets_loop bt ?n' todo (Suc i) (offs xs (Suc i)) =
      Some (?n'\<lparr>ln_headers := item_headers 0 xs\<rparr>)"
  proof (rule Suc.IH)
    show "\<forall>j<Suc i. ln_headers ?n' ! j = item_headers 0 xs ! j"
      using up i by (simp add: node_upto_def)
    show "\<forall>j<length xs. meta_type (ln_headers ?n' ! j) = item_type (xs ! j) \<and>
                      tombstone (ln_headers ?n' ! j) = le_tombstone (fst (xs ! j))"
      using Suc.prems(4) i hd by (auto simp: nth_list_update Suc.prems(2) nth_item_headers)
  qed (use Suc.prems up in \<open>simp_all add: node_upto_def\<close>)
  have "off + get_meta_type_to_size (item_type (xs ! i))
      + unat (km_keylen km - km_prefix_len km) + length (le_data (fst (xs ! i))) = offs xs (Suc i)"
    using km k l Suc.prems(6) by (simp add: offs_Suc [OF i] unat_sub_len length_item_bytes)
  then have "adjust_offsets_loop bt n (Suc todo) i off =
      Some (?n'\<lparr>ln_headers := item_headers 0 xs\<rparr>)"
    using km rec ty entry_ok_datalen [OF assms(1) e] by (simp add: Let_def)
  then show ?case by (simp add: set_header_offset_def)
qed

lemma adjust_offsets_items:
  assumes "tree_ok bt" and "items_ok bt xs" and "length (items_bytes xs) < 65536"
    and "ln_area n = items_bytes xs" and "length (ln_headers n) = length xs"
    and "map (\<lambda>h. (meta_type h, tombstone h)) (ln_headers n)
         = map (\<lambda>x. (item_type x, le_tombstone (fst x))) xs"
  shows "btree_leaf_adjust_offsets bt n = Some (n\<lparr>ln_headers := item_headers 0 xs\<rparr>)"
proof -
  have "\<forall>j<length xs. meta_type (ln_headers n ! j) = item_type (xs ! j) \<and>
                      tombstone (ln_headers n ! j) = le_tombstone (fst (xs ! j))"
    using assms(5,6) by (auto simp: list_eq_iff_nth_eq)
  then show ?thesis
    unfolding btree_leaf_adjust_offsets_def
    by (intro adjust_offsets_loop_items [OF assms(1-5)]) (use assms(5) in auto)
qed

section \<open>Shifting prefix indices\<close>

definition shift_item :: "int \<Rightarrow> int \<Rightarrow> item \<Rightarrow> item" where
  "shift_item base shift x =
     (if 0 < plen x \<and> base < int (pidx x)
      then (fst x, (snd x)\<lparr>lay_pidx := nat ((int (pidx x) + shift) mod 65536)\<rparr>) else x)"

lemma shift_item_simps [simp]:
  "fst (shift_item b s x) = fst x" "plen (shift_item b s x) = plen x"
  "lay_compact (snd (shift_item b s x)) = lay_compact (snd x)"
  "item_type (shift_item b s x) = item_type x"
  by (simp_all add: shift_item_def item_type_cases)

lemma pidx_shift_item:
  "pidx (shift_item b s x) =
     (if 0 < plen x \<and> b < int (pidx x) then nat ((int (pidx x) + s) mod 65536) else pidx x)"
  by (simp add: shift_item_def)

lemma pidx_shift_item_less: "pidx x < 65536 \<Longrightarrow> pidx (shift_item b s x) < 65536"
  by (simp add: pidx_shift_item nat_less_iff)

lemma length_item_bytes_shift [simp]: "length (item_bytes (shift_item b s x)) = length (item_bytes x)"
  by (simp add: length_item_bytes)

lemma item_headers_update:
  assumes "item_type y = item_type (xs ! i)" and "fst y = fst (xs ! i)"
    and "length (item_bytes y) = length (item_bytes (xs ! i))" and "i < length xs"
  shows "item_headers off (xs[i := y]) = item_headers off xs"
  using assms
proof (induction xs arbitrary: off i)
  case Nil
  then show ?case by simp
next
  case (Cons x xs)
  then show ?case by (cases i) simp_all
qed

lemma items_bytes_update:
  "i < length xs \<Longrightarrow>
     items_bytes (xs[i := y]) = items_bytes (take i xs) @ item_bytes y @ items_bytes (drop (Suc i) xs)"
  by (simp add: upd_conv_take_nth_drop)

lemma shift_prefix_idx_item:
  assumes i: "i < length xs" and x: "item_bytes (xs ! i) = ps @ le_bytes 2 (pidx (xs ! i)) @ le_bytes pll (plen (xs ! i)) @ rs"
    and y: "item_bytes (shift_item base shift (xs ! i)) =
         ps @ le_bytes 2 (pidx (shift_item base shift (xs ! i))) @ le_bytes pll (plen (xs ! i)) @ rs"
    and len: "length ps = pi" "pl = pi + 2"
    and b: "pidx (xs ! i) < 65536" "plen (xs ! i) < 256 ^ pll"
  shows "shift_prefix_idx (items_bytes xs) (offs xs i) pi pl pll base shift
           = Some (items_bytes (xs[i := shift_item base shift (xs ! i)]))"
proof -
  let ?x = "xs ! i"
  have r1: "mem_read (items_bytes xs) (offs xs i + pi) 2 = Some (le_bytes 2 (pidx ?x))"
    by (rule read_inside_item [OF i x]) (use len in simp_all)
  have r2: "mem_read (items_bytes xs) (offs xs i + pl) pll = Some (le_bytes pll (plen ?x))"
    by (rule read_inside_item [OF i, where ps = "ps @ le_bytes 2 (pidx ?x)" and rs = rs])
      (use len x in simp_all)
  have s: "items_bytes xs = (items_bytes (take i xs) @ ps) @ le_bytes 2 (pidx ?x) @
      (le_bytes pll (plen ?x) @ rs @ items_bytes (drop (Suc i) xs))"
    using items_bytes_split [OF i] x by simp
  have w: "mem_write (items_bytes xs) (offs xs i + pi) (le_bytes 2 q) =
      Some ((items_bytes (take i xs) @ ps) @ le_bytes 2 q @
        (le_bytes pll (plen ?x) @ rs @ items_bytes (drop (Suc i) xs)))" for q
    by (subst s, rule mem_write_append) (use len in simp_all)
  show ?thesis
  proof (cases "0 < plen ?x \<and> base < int (pidx ?x)")
    case True
    then show ?thesis
      using r1 r2 w b y by (simp add: shift_prefix_idx_def items_bytes_update [OF i] pidx_shift_item)
  next
    case False
    then have "shift_item base shift ?x = ?x" by (auto simp: shift_item_def)
    then show ?thesis using False r1 r2 b by (auto simp: shift_prefix_idx_def)
  qed
qed

lemma adjust_prefix_idx_items:
  assumes "tree_ok bt" and "item_ok bt (xs ! i)" and "node_items n xs" and "i < length xs"
    and "length (items_bytes xs) < 65536"
  shows "btree_leaf_adjust_prefix_idx n i base shift
           = Some (n\<lparr>ln_area := items_bytes (xs[i := shift_item base shift (xs ! i)])\<rparr>)"
proof -
  let ?x = "xs ! i" and ?y = "shift_item base shift (xs ! i)"
  note hdr = node_upto_header [OF node_items_upto [OF assms(3)] le_refl assms(4,5)]
  have len: "i < nkeys n" and area: "ln_area n = items_bytes xs"
    using assms(3,4) by (simp_all add: node_items_def)
  have py: "pidx ?y < 65536" using assms(2) by (intro pidx_shift_item_less) (simp add: item_ok_def)
  show ?thesis
  proof (cases "item_type ?x")
    case TYPE1
    then have "item_type ?y = TYPE1" by simp
    then have "item_bytes ?y = item_bytes ?x"
      using TYPE1 by (simp add: item_bytes_def meta_bytes_TYPE1 del: item_type_TYPE1)
    then have "items_bytes (xs[i := ?y]) = items_bytes xs"
      using items_bytes_split [OF assms(4)] by (simp add: items_bytes_update [OF assms(4)])
    then show ?thesis
      using TYPE1 hdr len area
      by (simp add: btree_leaf_adjust_prefix_idx_def Let_def del: item_type_TYPE1)
  next
    case TYPE2
    then have ty: "item_type ?y = TYPE2" by simp
    note b = item_TYPE2 [OF assms(1,2) TYPE2]
    have "shift_prefix_idx (items_bytes xs) (offs xs i) 2 4 1 base shift = Some (items_bytes (xs[i := ?y]))"
      by (rule shift_prefix_idx_item [OF assms(4), where
            ps = "le_bytes 1 (length (key_of ?x)) @ le_bytes 1 (unat (le_datalen (fst ?x)))"
            and rs = "le_bytes 8 (unat (le_seqno (fst ?x))) @
              drop (plen ?x) (key_of ?x) @ le_data (fst ?x)"])
        (use b py TYPE2 in \<open>simp_all add: item_bytes_def meta_bytes_TYPE2 meta_bytes_TYPE2 [OF ty] del: One_nat_def\<close>)
    then show ?thesis using TYPE2 hdr len area by (simp add: btree_leaf_adjust_prefix_idx_def Let_def)
  next
    case TYPE3
    then have ty: "item_type ?y = TYPE3" by simp
    note b = item_TYPE3 [OF assms(1,2) TYPE3]
    have "shift_prefix_idx (items_bytes xs) (offs xs i) 4 6 2 base shift = Some (items_bytes (xs[i := ?y]))"
      by (rule shift_prefix_idx_item [OF assms(4), where
            ps = "le_bytes 2 (length (key_of ?x)) @ le_bytes 2 (unat (le_datalen (fst ?x)))"
            and rs = "le_bytes 8 (unat (le_ptr (fst ?x))) @ le_bytes 8 (unat (le_seqno (fst ?x))) @
              drop (plen ?x) (key_of ?x) @ le_data (fst ?x)"])
        (use b py TYPE3 in \<open>simp_all add: item_bytes_def meta_bytes_TYPE3 meta_bytes_TYPE3 [OF ty] del: One_nat_def\<close>)
    then show ?thesis using TYPE3 hdr len area by (simp add: btree_leaf_adjust_prefix_idx_def Let_def)
  next
    case TYPE4
    then have ty: "item_type ?y = TYPE4" by simp
    note b = item_TYPE4 [OF assms(1,2) TYPE4]
    have "shift_prefix_idx (items_bytes xs) (offs xs i) 12 14 4 base shift = Some (items_bytes (xs[i := ?y]))"
      by (rule shift_prefix_idx_item [OF assms(4), where
            ps = "le_bytes 4 (length (key_of ?x)) @ le_bytes 8 (unat (le_datalen (fst ?x)))"
            and rs = "le_bytes 8 (unat (le_ptr (fst ?x))) @ le_bytes 8 (unat (le_seqno (fst ?x))) @
              drop (plen ?x) (key_of ?x) @ le_data (fst ?x)"])
        (use b py TYPE4 in \<open>simp_all add: item_bytes_def meta_bytes_TYPE4 meta_bytes_TYPE4 [OF ty] del: One_nat_def\<close>)
    then show ?thesis using TYPE4 hdr len area by (simp add: btree_leaf_adjust_prefix_idx_def Let_def)
  qed
qed

lemma item_ok_shift: "item_ok bt x \<Longrightarrow> item_ok bt (shift_item b s x)"
  by (simp add: item_ok_def pidx_shift_item_less)

lemma length_items_bytes_map_shift [simp]:
  "length (items_bytes (map (shift_item b s) xs)) = length (items_bytes xs)"
  "length (concat (map (item_bytes \<circ> shift_item b s) xs)) = length (items_bytes xs)"
  by (induction xs) simp_all

lemma item_headers_shift [simp]:
  "item_headers off (map (shift_item b s) xs) = item_headers off xs"
  by (induction xs arbitrary: off) simp_all

lemma adjust_prefix_idxes_items:
  assumes "tree_ok bt" and "\<forall>x\<in>set xs. item_ok bt x" and "node_items n (as @ xs)"
    and "length (items_bytes (as @ xs)) < 65536" and "to = int (length (as @ xs)) - 1"
    and "from = length as"
  shows "btree_leaf_adjust_prefix_idxes n from to base shift
           = Some (n\<lparr>ln_area := items_bytes (as @ map (shift_item base shift) xs)\<rparr>)"
proof -
  have "adjust_prefix_idxes_list n [length as..<length as + length xs] base shift
      = Some (n\<lparr>ln_area := items_bytes (as @ map (shift_item base shift) xs)\<rparr>)"
    using assms(2-4)
  proof (induction xs arbitrary: n as)
    case Nil
    then show ?case by (simp add: node_items_def)
  next
    case (Cons x xs)
    let ?y = "shift_item base shift x"
    let ?n' = "n\<lparr>ln_area := items_bytes ((as @ [?y]) @ xs)\<rparr>"
    have up: "[length as..<length as + length (x # xs)] =
        length as # [length (as @ [?y])..<length (as @ [?y]) + length xs]"
      by (simp add: upt_conv_Cons del: upt_Suc)
    have 1: "btree_leaf_adjust_prefix_idx n (length as) base shift = Some ?n'"
      using adjust_prefix_idx_items [OF assms(1) _ Cons.prems(2), of "length as"] Cons.prems
      by simp
    have ni: "node_items ?n' ((as @ [?y]) @ xs)"
      using Cons.prems(2) by (simp add: node_items_def item_headers_append)
    have "adjust_prefix_idxes_list ?n' [length (as @ [?y])..<length (as @ [?y]) + length xs] base shift
        = Some (?n'\<lparr>ln_area := items_bytes ((as @ [?y]) @ map (shift_item base shift) xs)\<rparr>)"
      by (rule Cons.IH) (use Cons.prems ni in simp_all)
    then show ?case by (simp only: up adjust_prefix_idxes_list.simps 1) simp
  qed
  moreover have "nat (to + 1) = length as + length xs" using assms(5) by simp
  ultimately show ?thesis by (simp add: btree_leaf_adjust_prefix_idxes_def assms(6))
qed

end
