(* ===== verification/Leaf_Layout.thy ===== *)
theory Leaf_Layout
  imports Leaf_Fixup
begin

text \<open>
  Canonical layouts: the layout of every item follows from its predecessor.  A canonical item list
  can be read back, moving a run of entries only shifts prefix indices, and \<open>build_key_prefix_int\<close>
  computes the canonical layout of one entry.
\<close>

section \<open>Canonical layouts\<close>

definition no_prefix :: layout where
  "no_prefix = \<lparr>lay_plen = 0, lay_pidx = 0, lay_compact = False\<rparr>"

lemma no_prefix_simps [simp]:
  "lay_plen no_prefix = 0" "lay_pidx no_prefix = 0" "\<not> lay_compact no_prefix"
  by (simp_all add: no_prefix_def)

lemma layout_step_None [simp]: "layout_step bt i None e = no_prefix"
  by (simp add: layout_step_def no_prefix_def)

lemma layout_step_0: "lay_plen (layout_step bt i p e) = 0 \<longleftrightarrow> layout_step bt i p e = no_prefix"
  by (auto simp: layout_step_def no_prefix_def Let_def split: option.splits if_splits)

lemma layout_step_common:
  "lay_plen (layout_step bt i (Some p) e) = 0 \<longleftrightarrow> get_common_part bt (key_of p) (le_key e) = 0"
  by (auto simp: layout_step_def Let_def)

lemma common_len_le: "common_len xs ys \<le> length xs" "common_len xs ys \<le> length ys"
  by (induction xs ys rule: common_len.induct) auto

lemma take_common_len: "l \<le> common_len xs ys \<Longrightarrow> take l xs = take l ys"
proof (induction xs ys arbitrary: l rule: common_len.induct)
  case (1 x xs y ys)
  then show ?case by (cases l) (auto split: if_splits)
qed auto

lemma get_common_part_le: "get_common_part bt xs ys \<le> common_len xs ys"
  by (simp add: get_common_part_def Let_def)

lemma length_layouts [simp]: "length (layouts bt i p es) = length es"
  by (induction es arbitrary: i p) (simp_all add: Let_def)

lemma map_fst_layouts [simp]: "map fst (layouts bt i p es) = es"
  by (induction es arbitrary: i p) (simp_all add: Let_def)

lemma fst_nth_layouts [simp]: "k < length es \<Longrightarrow> fst (layouts bt i p es ! k) = es ! k"
  by (metis length_layouts map_fst_layouts nth_map)

lemma layouts_append:
  "layouts bt i p (as @ bs) = layouts bt i p as @
     layouts bt (i + length as) (if as = [] then p else Some (last (layouts bt i p as))) bs"
proof (induction as arbitrary: i p)
  case Nil
  show ?case by simp
next
  case (Cons a as)
  have "layouts bt j q as = [] \<longleftrightarrow> as = []" for j q
    by (metis length_0_conv length_layouts)
  then show ?case by (simp add: Let_def Cons.IH)
qed

lemma take_layouts: "take k (layouts bt i p es) = layouts bt i p (take k es)"
  by (induction es arbitrary: i p k) (auto simp: Let_def take_Cons split: nat.splits)

lemma last_take: "0 < k \<Longrightarrow> k \<le> length xs \<Longrightarrow> last (take k xs) = xs ! (k - 1)"
  by (subst last_conv_nth) auto

lemma drop_layouts:
  assumes "0 < k" and "k \<le> length es"
  shows "drop k (layouts bt i p es) =
           layouts bt (i + k) (Some (layouts bt i p es ! (k - 1))) (drop k es)"
proof -
  let ?as = "layouts bt i p (take k es)" and ?q = "layouts bt i p es ! (k - 1)"
  have len: "length (take k es) = k" using assms(2) by simp
  then have ne: "take k es \<noteq> []" using assms(1) by auto
  have "last ?as = ?q" using assms by (simp add: take_layouts [symmetric] last_take)
  then have "layouts bt i p (take k es @ drop k es) = ?as @ layouts bt (i + k) (Some ?q) (drop k es)"
    by (simp only: layouts_append ne if_False len)
  then have "drop k (layouts bt i p es) = drop k (?as @ layouts bt (i + k) (Some ?q) (drop k es))"
    by (simp only: append_take_drop_id)
  also have "\<dots> = layouts bt (i + k) (Some ?q) (drop k es)" using assms(2) by simp
  finally show ?thesis .
qed

definition canonical :: "btree_raw \<Rightarrow> item list \<Rightarrow> bool" where
  "canonical bt xs \<longleftrightarrow> xs = layouts bt 0 None (map fst xs)"

lemma canonical_layouts [simp]: "canonical bt (layouts bt 0 None es)"
  by (simp add: canonical_def)

lemma canonical_nth:
  assumes "canonical bt xs" and "k < length xs"
  shows "snd (xs ! k) = layout_step bt k (if k = 0 then None else Some (xs ! (k - 1))) (fst (xs ! k))"
proof (cases k)
  case 0
  obtain e es where es: "map fst xs = e # es" using assms(2) by (cases xs) auto
  have "xs ! 0 = (e, no_prefix)"
    using assms(1) unfolding canonical_def es by (simp add: Let_def)
  then show ?thesis using 0 by simp
next
  case (Suc j)
  have eq: "layouts bt 0 None (map fst xs) = xs" using assms(1) by (simp add: canonical_def)
  have d: "drop k (map fst xs) = fst (xs ! k) # drop (Suc k) (map fst xs)"
    using assms(2) by (simp add: Cons_nth_drop_Suc [symmetric] drop_map)
  have "xs ! k # drop (Suc k) xs = layouts bt k (Some (xs ! j)) (drop k (map fst xs))"
    using drop_layouts [of k "map fst xs" bt 0 None] assms(2) Suc
    unfolding eq Cons_nth_drop_Suc [OF assms(2)] by simp
  then have "xs ! k = (fst (xs ! k), layout_step bt k (Some (xs ! j)) (fst (xs ! k)))"
    unfolding d by (simp only: layouts.simps Let_def list.inject)
  from arg_cong [OF this, of snd] show ?thesis using Suc by simp
qed

lemma canonical_prefix:
  assumes "canonical bt xs" and "k < length xs"
  shows "plen (xs ! k) \<le> length (key_of (xs ! k)) \<and> pidx (xs ! k) \<le> k - 1 \<and>
    (0 < plen (xs ! k) \<longrightarrow>
     pidx (xs ! k) < k \<and> plen (xs ! pidx (xs ! k)) = 0 \<and>
     plen (xs ! k) \<le> length (key_of (xs ! pidx (xs ! k))) \<and>
     take (plen (xs ! k)) (key_of (xs ! pidx (xs ! k))) = take (plen (xs ! k)) (key_of (xs ! k)))"
  using assms(2)
proof (induction k)
  case 0
  then show ?case using canonical_nth [OF assms(1), of 0] by simp
next
  case (Suc k)
  define p e c where "p = xs ! k" and "e = xs ! Suc k" and "c = get_common_part bt (key_of p) (key_of e)"
  have s: "snd e = layout_step bt (Suc k) (Some p) (fst e)"
    using canonical_nth [OF assms(1) Suc.prems] by (simp add: e_def p_def)
  have cc: "c \<le> common_len (key_of p) (key_of e)" unfolding c_def by (rule get_common_part_le)
  have le: "c \<le> length (key_of p)" "c \<le> length (key_of e)"
    using cc common_len_le [of "key_of p" "key_of e"] by linarith+
  have tk: "take l (key_of p) = take l (key_of e)" if "l \<le> c" for l
    using that cc take_common_len [of l "key_of p" "key_of e"] by linarith
  have IH: "pidx p \<le> k - 1" "plen p > 0 \<Longrightarrow> pidx p < k \<and> plen (xs ! pidx p) = 0 \<and>
     plen p \<le> length (key_of (xs ! pidx p)) \<and>
     take (plen p) (key_of (xs ! pidx p)) = take (plen p) (key_of p)"
    using Suc.IH Suc.prems unfolding p_def by linarith+
  consider "c = 0" | "0 < c" "plen p = 0" | "0 < c" "0 < plen p" by auto
  then show ?case
  proof cases
    case 1
    then have "snd e = no_prefix" using s layout_step_common layout_step_0 by (simp add: c_def)
    then show ?thesis by (simp add: e_def [symmetric])
  next
    case 2
    then have "plen e = c" "pidx e = k" using s by (simp_all add: layout_step_def Let_def c_def)
    then show ?thesis using 2 le tk by (simp add: e_def [symmetric] p_def [symmetric])
  next
    case 3
    then have m: "plen e = min c (plen p)" "pidx e = pidx p"
      using s by (simp_all add: layout_step_def Let_def c_def)
    have "take c (take (plen p) (key_of (xs ! pidx p))) = take c (take (plen p) (key_of p))"
      using IH(2) [OF 3(2)] by simp
    then have "take (plen e) (key_of (xs ! pidx p)) = take (plen e) (key_of e)"
      using tk [of "plen e"] m(1) by simp
    moreover have "plen e \<le> length (key_of e)" "plen e \<le> length (key_of (xs ! pidx p))"
      using m(1) le(2) IH(2) [OF 3(2)] by linarith+
    moreover have "pidx p \<le> k" "pidx p < Suc k" "plen (xs ! pidx p) = 0"
      using IH(1) IH(2) [OF 3(2)] by linarith+
    ultimately show ?thesis unfolding e_def [symmetric] m(2) by simp
  qed
qed

lemma canonical_prefixes_ok: "canonical bt xs \<Longrightarrow> prefixes_ok xs"
  by (simp add: prefixes_ok_def canonical_prefix)

lemma entry_ok_ptr_eq:
  assumes "entry_ok bt a" and "entry_ok bt b" and "length (le_key a) = length (le_key b)"
    and "le_datalen a = le_datalen b" and "le_ptr b = 0"
  shows "le_ptr a = 0"
  using assms by (simp add: entry_ok_def)

lemma layout_step_compact:
  assumes "snd x = layout_step bt i (Some p) (fst x)" and "lay_compact (snd x)"
  shows "length (key_of p) = length (key_of x)" and "le_datalen (fst p) = le_datalen (fst x)"
    and "plen p = plen x" and "pidx p = pidx x" and "le_ptr (fst x) = 0"
  using assms(2) unfolding assms(1) by (simp_all add: layout_step_def Let_def)

lemma canonical_items_ok:
  assumes "canonical bt xs" and "\<forall>x\<in>set xs. entry_ok bt (fst x)" and "length xs < 65536"
  shows "items_ok bt xs"
proof -
  have "item_ok bt x" if x: "x \<in> set xs" for x
  proof -
    obtain k where k: "k < length xs" "x = xs ! k" using x by (auto simp: in_set_conv_nth)
    have "plen x \<le> length (key_of x)" "pidx x \<le> k - 1"
      using canonical_prefix [OF assms(1) k(1)] unfolding k(2) by blast+
    then show ?thesis using assms(2,3) that k(1) by (simp add: item_ok_def)
  qed
  moreover have "0 < k \<and> same_meta (xs ! (k - 1)) (xs ! k)"
    if "k < length xs" "lay_compact (snd (xs ! k))" for k
  proof -
    have k: "0 < k"
    proof (rule ccontr)
      assume "\<not> 0 < k"
      then have "snd (xs ! k) = no_prefix" using canonical_nth [OF assms(1) that(1)] by simp
      with that(2) show False by simp
    qed
    have e: "entry_ok bt (fst (xs ! (k - 1)))" "entry_ok bt (fst (xs ! k))"
      using assms(2) that(1) by simp_all
    have "snd (xs ! k) = layout_step bt k (Some (xs ! (k - 1))) (fst (xs ! k))"
      using canonical_nth [OF assms(1) that(1)] k by simp
    note c = layout_step_compact [OF this that(2)]
    show ?thesis using c k entry_ok_ptr_eq [OF e c(1,2,5)] by (simp add: same_meta_def)
  qed
  ultimately show ?thesis unfolding items_ok_def by blast
qed

section \<open>Layouts after a change of predecessor\<close>

lemma layout_step_bounds:
  "lay_plen (layout_step bt i (Some p) e) \<le> get_common_part bt (key_of p) (le_key e)"
  "lay_pidx (layout_step bt i (Some p) e) \<le> max (pidx p) (i - 1)"
  by (simp_all add: layout_step_def Let_def)

lemma get_common_part_len:
  "get_common_part bt xs ys \<le> length xs" "get_common_part bt xs ys \<le> length ys"
  using get_common_part_le [of bt xs ys] common_len_le [of xs ys] by linarith+

lemma item_ok_step:
  assumes "item_ok bt p" and "entry_ok bt e" and "i \<le> 65536"
  shows "item_ok bt (e, layout_step bt i (Some p) e)"
  using assms layout_step_bounds [where bt = bt and i = i and p = p and e = e]
    get_common_part_len [of bt "key_of p" "le_key e"]
  by (auto simp: item_ok_def max_def split: if_splits)

lemma item_ok_no_prefix: "entry_ok bt e \<Longrightarrow> item_ok bt (e, no_prefix)"
  by (simp add: item_ok_def)

lemma shift_no_prefix [simp]: "shift_item b s (e, no_prefix) = (e, no_prefix)"
  by (simp add: shift_item_def)

text \<open>Moving a run of entries by \<open>s\<close> positions only shifts their prefix indices.\<close>

lemma layout_step_shift:
  assumes "0 < plen x \<Longrightarrow> b < int (pidx x)" and "0 < plen x \<Longrightarrow> 0 \<le> int (pidx x) + s"
    and "plen x = 0 \<Longrightarrow> b < int i - 1" and "int i' = int i + s" and "0 < i" and "0 < i'"
    and "i' \<le> 65536" and "0 < plen x \<Longrightarrow> int (pidx x) + s < 65536"
  shows "(e, layout_step bt i' (Some (shift_item b s x)) e)
           = shift_item b s (e, layout_step bt i (Some x) e)"
proof -
  let ?c = "get_common_part bt (key_of x) (le_key e)"
  consider "?c = 0" | "0 < ?c" "plen x = 0" | "0 < ?c" "0 < plen x" by auto
  then show ?thesis
  proof cases
    case 1
    then have "layout_step bt i' (Some (shift_item b s x)) e = no_prefix"
      "layout_step bt i (Some x) e = no_prefix"
      using layout_step_common layout_step_0 by (metis shift_item_simps(1))+
    then show ?thesis by simp
  next
    case 2
    then have sx: "shift_item b s x = x" by (simp add: shift_item_def)
    have "nat ((int (i - Suc 0) + s) mod 65536) = i' - Suc 0" "b < int (i - Suc 0)"
      using assms(3-7) 2(2) by auto
    then show ?thesis
      unfolding sx using 2 by (simp add: layout_step_def Let_def shift_item_def)
  next
    case 3
    then have p: "pidx (shift_item b s x) = nat (int (pidx x) + s)" "b < int (pidx x)"
      "nat ((int (pidx x) + s) mod 65536) = nat (int (pidx x) + s)"
      using assms(1,2,8) by (simp_all add: pidx_shift_item)
    then show ?thesis
      using 3 by (simp add: layout_step_def Let_def shift_item_def [of b s "(e, y)" for y])
  qed
qed

lemma layouts_shift_some:
  assumes "0 < plen x \<Longrightarrow> b < int (pidx x)" and "0 < plen x \<Longrightarrow> 0 \<le> int (pidx x) + s"
    and "plen x = 0 \<Longrightarrow> b < int i - 1" and "int i' = int i + s" and "0 < i" and "0 < i'"
    and "i' + length es \<le> 65536" and "pidx x < i"
  shows "layouts bt i' (Some (shift_item b s x)) es
           = map (shift_item b s) (layouts bt i (Some x) es)"
  using assms
proof (induction es arbitrary: x i i')
  case Nil
  show ?case by simp
next
  case (Cons e es)
  let ?y = "(e, layout_step bt i (Some x) e)"
  have st: "(e, layout_step bt i' (Some (shift_item b s x)) e) = shift_item b s ?y"
    by (rule layout_step_shift) (use Cons.prems in auto)
  have py: "0 < plen ?y \<Longrightarrow> pidx ?y = (if plen x = 0 then i - 1 else pidx x)" "pidx ?y < Suc i"
    using Cons.prems(5,8) by (auto simp: layout_step_def Let_def split: if_splits)
  have "layouts bt (Suc i') (Some (shift_item b s ?y)) es
      = map (shift_item b s) (layouts bt (Suc i) (Some ?y) es)"
  proof (rule Cons.IH)
    show "b < int (pidx ?y)" if "0 < plen ?y"
      using py(1) [OF that] Cons.prems(1,3,5) by (auto simp: of_nat_diff split: if_splits)
    show "0 \<le> int (pidx ?y) + s" if "0 < plen ?y"
      using py(1) [OF that] Cons.prems(2,4,5,6) by (auto simp: of_nat_diff split: if_splits)
    show "b < int (Suc i) - 1" if "plen ?y = 0"
      using Cons.prems(1,3,8) by (cases "plen x = 0") auto
  qed (use Cons.prems py in simp_all)
  then show ?case by (simp add: Let_def st)
qed

lemma layouts_shift:
  assumes "layout_step bt i p e = no_prefix" and "layout_step bt i' p' e = no_prefix"
    and "b < int i" and "int i' = int i + s" and "i' + Suc (length es) \<le> 65536"
  shows "layouts bt i' p' (e # es) = map (shift_item b s) (layouts bt i p (e # es))"
  using assms layouts_shift_some [of "(e, no_prefix)" b s "Suc i" "Suc i'" es bt]
  by (simp add: Let_def)

section \<open>Building the metadata of a key\<close>

lemma u32_eq_iff: "k < 32768 \<Longrightarrow> l < 32768 \<Longrightarrow> (word_of_nat k :: u32) = word_of_nat l \<longleftrightarrow> k = l"
  by (metis unat_keylen(1))

lemma u16_eq_iff: "k < 65536 \<Longrightarrow> l < 65536 \<Longrightarrow> (word_of_nat k :: u16) = word_of_nat l \<longleftrightarrow> k = l"
  by (metis unat_keylen(2))

lemma u32_less_iff: "k < 32768 \<Longrightarrow> l < 32768 \<Longrightarrow> (word_of_nat k :: u32) < word_of_nat l \<longleftrightarrow> k < l"
  by (simp add: word_less_nat_alt)

lemma build_key_prefix_item:
  assumes "tree_ok bt" and "item_ok bt p" and "entry_ok bt e" and "pi < 65536"
    and "km_keylen pm = word_of_nat (length (key_of p))" and "km_datalen pm = le_datalen (fst p)"
    and "km_prefix_len pm = word_of_nat (plen p)" and "km_prefix_idx pm = word_of_nat (pidx p)"
    and "km_datalen km = le_datalen e" and "km_ptr km = le_ptr e"
  shows "build_key_prefix_int bt (key_of p) (le_key e) pi pm km =
     (let l = layout_step bt (Suc pi) (Some p) e
      in km\<lparr>km_prefix_len := word_of_nat (lay_plen l), km_prefix_idx := word_of_nat (lay_pidx l),
            compact_meta := lay_compact l\<rparr>)"
proof -
  let ?c = "get_common_part bt (key_of p) (le_key e)"
  have len: "length (key_of p) < 32768" "length (le_key e) < 32768"
    using assms(1-3) entry_ok_keylen by (auto simp: item_ok_def)
  have b: "?c < 32768" "plen p < 32768" "pidx p < 65536"
    using len get_common_part_len [of bt "key_of p" "le_key e"] assms(2) by (auto simp: item_ok_def)
  note eqs = u32_eq_iff [OF len(2,1)] u32_eq_iff [OF b(1,2)] u16_eq_iff [OF assms(4) b(3)]
    u32_less_iff [OF b(2,1)] u32_0_iff [OF b(1)] u32_0_iff [OF b(2)]
  have pos: "(0 :: u32) < word_of_nat (plen p) \<longleftrightarrow> 0 < plen p"
    using u32_less_iff [of 0 "plen p"] b(2) by simp
  have idx0: "(word_of_nat (pidx p) :: u16) = 0 \<longleftrightarrow> pidx p = 0"
    using u16_eq_iff [of "pidx p" 0] b(3) by simp
  consider "?c = 0" | "0 < ?c" "plen p = 0" | "0 < ?c" "0 < plen p" "plen p < ?c"
    | "0 < ?c" "0 < plen p" "?c \<le> plen p" by linarith
  then show ?thesis
    unfolding build_key_prefix_int_def Let_def layout_step_def assms(5-10) pos eqs
    by cases (simp_all add: eqs pos idx0)
qed

lemma layouts_take_append:
  assumes "k \<le> length es" and "xs = layouts bt 0 None es"
  shows "layouts bt 0 None (take k es @ bs) =
     take k xs @ layouts bt k (if k = 0 then None else Some (xs ! (k - 1))) bs"
proof -
  have len: "length (take k es) = k" using assms(1) by simp
  have "(if take k es = [] then None else Some (last (layouts bt 0 None (take k es))))
      = (if k = 0 then None else Some (xs ! (k - 1)))"
    using assms(1) last_take [of k xs]
    by (cases "k = 0"; cases "es = []") (simp_all add: assms(2) take_layouts [symmetric])
  then show ?thesis
    unfolding layouts_append len by (simp add: assms(2) take_layouts)
qed

end
