(* ===== verification/Leaf_Copy.thy ===== *)
theory Leaf_Copy
  imports Leaf_Layout
begin

text \<open>
  The copying phase of the leaf operations: \<open>copy_impacted_keys_to_tmp_buf\<close> re-encodes the entries
  after a changed predecessor until the old encoding is canonical again, the rest is copied in
  bulk, and the two passes at the end make the result canonical.
\<close>

section \<open>Re-encoding the entries after a changed predecessor\<close>

lemma canonical_drop:
  assumes "canonical bt xs" and "k \<le> length xs"
  shows "drop k xs =
    layouts bt k (if k = 0 then None else Some (xs ! (k - 1))) (drop k (map fst xs))"
proof (cases "k = 0")
  case True
  then show ?thesis using assms(1) by (simp add: canonical_def)
next
  case False
  have eq: "layouts bt 0 None (map fst xs) = xs" using assms(1) by (simp add: canonical_def)
  show ?thesis
    using drop_layouts [of k "map fst xs" bt 0 None] assms(2) False unfolding eq by simp
qed

text \<open>The entry headers after the types of the items \<open>ys\<close> were recorded from position \<open>a\<close> on.\<close>

definition retyped :: "nat \<Rightarrow> item list \<Rightarrow> entry_header list \<Rightarrow> entry_header list \<Rightarrow> bool" where
  "retyped a ys hdrs hdrs' \<longleftrightarrow>
     map meta_type hdrs' = take a (map meta_type hdrs) @ map item_type ys @
       drop (a + length ys) (map meta_type hdrs) \<and>
     map tombstone hdrs' = map tombstone hdrs"

lemma retyped_Nil [simp]: "retyped a [] hdrs hdrs"
  by (simp add: retyped_def)

lemma retyped_Cons:
  assumes "retyped (Suc a) ys (hdrs[a := (hdrs ! a)\<lparr>meta_type := item_type y\<rparr>]) hdrs'"
    and "a < length hdrs"
  shows "retyped a (y # ys) hdrs hdrs'"
proof -
  let ?h = "hdrs[a := (hdrs ! a)\<lparr>meta_type := item_type y\<rparr>]"
  have t: "take (Suc a) (map meta_type ?h) = take a (map meta_type hdrs) @ [item_type y]"
    using assms(2) by (simp add: take_Suc_conv_app_nth map_update)
  have tb: "map tombstone ?h = map tombstone hdrs"
    using list_update_id [of "map tombstone hdrs" a] assms(2) by (simp add: map_update)
  have d: "drop (Suc a + k) (map meta_type ?h) = drop (Suc a + k) (map meta_type hdrs)" for k
    by (simp add: map_update)
  show ?thesis
    using assms(1) unfolding retyped_def t tb d by simp
qed

lemma copy_impacted_step:
  assumes "tree_ok bt" and "canonical bt xs" and "items_ok bt xs" and "node_items n xs"
    and "length (items_bytes xs) < 65536" and "item_ok bt p" and "pi < 65536" and "k < length xs"
    and "km_keylen pm = word_of_nat (length (key_of p))" and "km_datalen pm = le_datalen (fst p)"
    and "km_prefix_len pm = word_of_nat (plen p)" and "km_prefix_idx pm = word_of_nat (pidx p)"
    and "k = f + c" and "y = (fst (xs ! k), layout_step bt (Suc pi) (Some p) (fst (xs ! k)))"
  shows "plen (xs ! k) = 0 \<Longrightarrow> plen y = 0 \<Longrightarrow>
      copy_impacted_loop bt n f hb c pi hdrs buf (key_of p) pm = Some (c, hdrs, buf)"
    and "\<not> (plen (xs ! k) = 0 \<and> plen y = 0) \<Longrightarrow>
      \<exists>km. km_keylen km = word_of_nat (length (key_of y)) \<and> km_datalen km = le_datalen (fst y) \<and>
        km_prefix_len km = word_of_nat (plen y) \<and> km_prefix_idx km = word_of_nat (pidx y) \<and>
        copy_impacted_loop bt n f hb c pi hdrs buf (key_of p) pm =
        copy_impacted_loop bt n f hb (Suc c) (Suc pi)
          (hdrs[hb + c := (hdrs ! (hb + c))\<lparr>meta_type := item_type y\<rparr>])
          (buf @ item_bytes y) (key_of y) km"
proof -
  define e where "e = fst (xs ! k)"
  define l where "l = layout_step bt (Suc pi) (Some p) e"
  have y: "y = (e, l)" by (simp add: assms(14) e_def l_def)
  have nk: "nkeys n = length xs" using assms(4) by (simp add: node_items_def)
  have ok: "entry_ok bt e" using assms(3,8) by (simp add: items_ok_def item_ok_def e_def)
  have oky: "item_ok bt y" unfolding y l_def by (rule item_ok_step [OF assms(6) ok]) (use assms(7) in simp)
  have ki: "btree_leaf_get_nth_key_info n k = Some (entry_info e)"
    unfolding e_def by (rule get_nth_key_info_items [OF assms(1,3) canonical_prefixes_ok [OF assms(2)] assms(4,8,5)])
  have om: "btree_leaf_get_meta n k = Some (item_meta (xs ! k))"
    by (rule get_meta_items [OF assms(1,3) node_items_upto [OF assms(4)] assms(8,5)])
  let ?km0 = "key_meta0\<lparr>km_keylen := ki_keylen (entry_info e), km_datalen := ki_datalen (entry_info e),
      km_ptr := ki_ptr (entry_info e), km_seqno := ki_seqno (entry_info e)\<rparr>"
  let ?new = "?km0\<lparr>km_prefix_len := word_of_nat (plen y), km_prefix_idx := word_of_nat (pidx y),
      compact_meta := lay_compact (snd y)\<rparr>"
  have new: "build_key_prefix_int bt (key_of p) (le_key e) pi pm ?km0 = ?new"
    using build_key_prefix_item [OF assms(1,6) ok assms(7,9-12), of ?km0]
    by (simp add: entry_info_def Let_def y l_def)
  have pl: "plen y < 32768" "plen (xs ! k) < 32768"
    using oky assms(3,8) entry_ok_keylen [OF assms(1) ok] by (auto simp: item_ok_def items_ok_def y e_def dest!: nth_mem)
  have nc: "\<not> lay_compact (snd (xs ! k))" if "plen (xs ! k) = 0"
    using canonical_nth [OF assms(2,8)] that by (metis layout_step_0 no_prefix_simps(3))
  show "copy_impacted_loop bt n f hb c pi hdrs buf (key_of p) pm = Some (c, hdrs, buf)"
    if "plen (xs ! k) = 0" "plen y = 0"
    using that nc ki om new pl assms(8,13) nk
    by (subst copy_impacted_loop.simps) (simp add: Let_def entry_info_def)
  have gd: "btree_leaf_get_data_nth_key n k = Some (le_data e @ items_bytes (drop (Suc k) xs), le_datalen e)"
    unfolding e_def by (rule get_data_items [OF assms(1,3,4,8,5)])
  have ae: "append_entry_to_tmp_buf bt ?new (entry_info e) (le_data e @ items_bytes (drop (Suc k) xs)) (le_datalen e)
      = Some (item_type y, item_bytes y)"
    using append_entry_item [OF assms(1) oky, of ?new "entry_info e" "le_data e @ items_bytes (drop (Suc k) xs)"]
    by (simp add: y entry_info_def)
  have "copy_impacted_loop bt n f hb c pi hdrs buf (key_of p) pm =
        copy_impacted_loop bt n f hb (Suc c) (Suc pi)
          (hdrs[hb + c := (hdrs ! (hb + c))\<lparr>meta_type := item_type y\<rparr>])
          (buf @ item_bytes y) (key_of y) ?new"
    if "\<not> (plen (xs ! k) = 0 \<and> plen y = 0)"
  proof -
    have nz: "\<not> (km_meta_type (item_meta (xs ! k)) \<noteq> TYPE1 \<and> km_prefix_len ?new = 0 \<and>
        km_prefix_len (item_meta (xs ! k)) = 0)" using that pl by auto
    have "f + c < nkeys n" using assms(8,13) nk by simp
    moreover have "ki_key (entry_info e) = key_of y" "ki_key (entry_info e) = le_key e"
      by (simp_all add: entry_info_def y)
    ultimately show ?thesis
      using ki om new gd ae nz unfolding assms(13)
      by (subst copy_impacted_loop.simps) (simp only: if_True if_False bind.simps Let_def option.case prod.case)
  qed
  then show "\<not> (plen (xs ! k) = 0 \<and> plen y = 0) \<Longrightarrow>
      \<exists>km. km_keylen km = word_of_nat (length (key_of y)) \<and> km_datalen km = le_datalen (fst y) \<and>
        km_prefix_len km = word_of_nat (plen y) \<and> km_prefix_idx km = word_of_nat (pidx y) \<and>
        copy_impacted_loop bt n f hb c pi hdrs buf (key_of p) pm =
        copy_impacted_loop bt n f hb (Suc c) (Suc pi)
          (hdrs[hb + c := (hdrs ! (hb + c))\<lparr>meta_type := item_type y\<rparr>])
          (buf @ item_bytes y) (key_of y) km"
    by (intro exI [of _ ?new]) (simp add: entry_info_def y)
qed


lemma copy_impacted_loop_items:
  assumes "tree_ok bt" and "canonical bt xs" and "items_ok bt xs" and "node_items n xs"
    and "length (items_bytes xs) < 65536" and "base < int f"
    and "item_ok bt p" and "f + c \<le> length xs" and "pi + length xs \<le> 65535 + f + c"
    and "hb + (length xs - f) \<le> length hdrs" and "int pi + 1 = int (f + c) + s"
    and "km_keylen pm = word_of_nat (length (key_of p))" and "km_datalen pm = le_datalen (fst p)"
    and "km_prefix_len pm = word_of_nat (plen p)" and "km_prefix_idx pm = word_of_nat (pidx p)"
    and "ys = layouts bt (Suc pi) (Some p) (drop (f + c) (map fst xs))"
  shows "\<exists>m hdrs'. m \<le> length ys \<and>
     copy_impacted_loop bt n f hb c pi hdrs buf (key_of p) pm
       = Some (c + m, hdrs', buf @ items_bytes (take m ys)) \<and>
     drop m ys = map (shift_item base s) (drop (f + c + m) xs) \<and>
     (f + c + m < length xs \<longrightarrow> plen (xs ! (f + c + m)) = 0) \<and>
     (\<forall>j<m. \<not> (plen (xs ! (f + c + j)) = 0 \<and> plen (ys ! j) = 0)) \<and>
     retyped (hb + c) (take m ys) hdrs hdrs'"
  using assms(7-16)
proof (induction "length xs - (f + c)" arbitrary: c pi p pm hdrs buf ys)
  case 0
  then have "copy_impacted_loop bt n f hb c pi hdrs buf (key_of p) pm = Some (c, hdrs, buf)"
    using assms(4) by (subst copy_impacted_loop.simps) (simp add: node_items_def)
  then show ?case using 0 by (intro exI [of _ 0] exI [of _ hdrs]) simp
next
  case (Suc d)
  define k where "k = f + c"
  have k: "k < length xs" using Suc.hyps(2) by (simp add: k_def)
  define y where "y = (fst (xs ! k), layout_step bt (Suc pi) (Some p) (fst (xs ! k)))"
  define es where "es = drop (Suc k) (map fst xs)"
  have dk: "drop k (map fst xs) = fst (xs ! k) # es"
    using k by (simp add: es_def Cons_nth_drop_Suc [symmetric] drop_map)
  have ys: "ys = y # layouts bt (Suc (Suc pi)) (Some y) es"
    using Suc.prems(10) by (simp add: k_def [symmetric] dk y_def Let_def)
  have pi: "pi < 65536" using Suc.prems(3) k by (simp add: k_def)
  have ok: "item_ok bt y"
    unfolding y_def by (rule item_ok_step [OF Suc.prems(1)])
      (use pi k assms(3) in \<open>auto simp: items_ok_def item_ok_def\<close>)
  note step = copy_impacted_step [OF assms(1-5) Suc.prems(1) pi k Suc.prems(6-9) k_def y_def, of hb hdrs buf]
  show ?case
  proof (cases "plen (xs ! k) = 0 \<and> plen y = 0")
    case True
    then have "layout_step bt (Suc pi) (Some p) (fst (xs ! k)) = no_prefix"
      by (simp add: y_def layout_step_0)
    moreover have "layout_step bt k (if k = 0 then None else Some (xs ! (k - 1))) (fst (xs ! k)) = no_prefix"
      using True canonical_nth [OF assms(2) k] by (metis layout_step_0)
    ultimately have "ys = map (shift_item base s) (drop k xs)"
      unfolding canonical_drop [OF assms(2) less_imp_le [OF k]] dk Suc.prems(10) k_def [symmetric]
      by (intro layouts_shift) (use assms(6) Suc.prems k in \<open>auto simp: k_def es_def\<close>)
    then show ?thesis
      using step(1) True by (intro exI [of _ 0] exI [of _ hdrs]) (simp add: k_def)
  next
    case False
    let ?h = "hdrs[hb + c := (hdrs ! (hb + c))\<lparr>meta_type := item_type y\<rparr>]"
    let ?ys = "layouts bt (Suc (Suc pi)) (Some y) es"
    from step(2) [OF False] obtain km where km:
      "km_keylen km = word_of_nat (length (key_of y))" "km_datalen km = le_datalen (fst y)"
      "km_prefix_len km = word_of_nat (plen y)" "km_prefix_idx km = word_of_nat (pidx y)"
      "copy_impacted_loop bt n f hb c pi hdrs buf (key_of p) pm =
        copy_impacted_loop bt n f hb (Suc c) (Suc pi) ?h (buf @ item_bytes y) (key_of y) km" by blast
    have "\<exists>m hdrs'. m \<le> length ?ys \<and>
        copy_impacted_loop bt n f hb (Suc c) (Suc pi) ?h (buf @ item_bytes y) (key_of y) km
          = Some (Suc c + m, hdrs', (buf @ item_bytes y) @ items_bytes (take m ?ys)) \<and>
        drop m ?ys = map (shift_item base s) (drop (f + Suc c + m) xs) \<and>
        (f + Suc c + m < length xs \<longrightarrow> plen (xs ! (f + Suc c + m)) = 0) \<and>
        (\<forall>j<m. \<not> (plen (xs ! (f + Suc c + j)) = 0 \<and> plen (?ys ! j) = 0)) \<and>
        retyped (hb + Suc c) (take m ?ys) ?h hdrs'"
      by (rule Suc.hyps(1)) (use Suc.hyps(2) Suc.prems ok km k in \<open>auto simp: k_def es_def\<close>)
    then obtain m hdrs' where m: "m \<le> length ?ys"
        "copy_impacted_loop bt n f hb (Suc c) (Suc pi) ?h (buf @ item_bytes y) (key_of y) km
          = Some (Suc c + m, hdrs', (buf @ item_bytes y) @ items_bytes (take m ?ys))"
        "drop m ?ys = map (shift_item base s) (drop (f + Suc c + m) xs)"
        "f + Suc c + m < length xs \<longrightarrow> plen (xs ! (f + Suc c + m)) = 0"
        "\<forall>j<m. \<not> (plen (xs ! (f + Suc c + j)) = 0 \<and> plen (?ys ! j) = 0)"
        "retyped (Suc (hb + c)) (take m ?ys) ?h hdrs'" by auto
    have "retyped (hb + c) (take (Suc m) ys) hdrs hdrs'"
      using retyped_Cons [OF m(6)] Suc.prems(4) k by (simp add: ys k_def)
    moreover have "\<forall>j<Suc m. \<not> (plen (xs ! (f + c + j)) = 0 \<and> plen (ys ! j) = 0)"
      using m(5) False by (auto simp: ys k_def less_Suc_eq_0_disj)
    ultimately show ?thesis
      using m(1-4) km(5) by (intro exI [of _ "Suc m"] exI [of _ hdrs']) (simp add: ys)
  qed
qed

section \<open>The last phase of an operation\<close>

lemma same_meta_shift: "same_meta x y \<Longrightarrow> same_meta (shift_item b s x) (shift_item b s y)"
  by (simp add: same_meta_def pidx_shift_item)

lemma items_ok_unshifted:
  assumes "items_ok bt (as @ map (shift_item b s) (drop j xs))" and "items_ok bt xs"
    and "j < length xs \<Longrightarrow> \<not> lay_compact (snd (xs ! j))"
  shows "items_ok bt (as @ drop j xs)"
proof -
  let ?zs = "as @ drop j xs"
  have "item_ok bt x" if "x \<in> set ?zs" for x
    using that assms(1,2) in_set_dropD [of x j xs] by (auto simp: items_ok_def)
  moreover have "0 < i \<and> same_meta (?zs ! (i - 1)) (?zs ! i)"
    if i: "i < length ?zs" and c: "lay_compact (snd (?zs ! i))" for i
  proof (cases "i < length as")
    case True
    have "i < length (as @ map (shift_item b s) (drop j xs))" using i by simp
    moreover have "lay_compact (snd ((as @ map (shift_item b s) (drop j xs)) ! i))"
      using True c by (simp add: nth_append)
    ultimately have "0 < i \<and> same_meta ((as @ map (shift_item b s) (drop j xs)) ! (i - 1))
        ((as @ map (shift_item b s) (drop j xs)) ! i)"
      using assms(1) unfolding items_ok_def by blast
    moreover have "i - 1 < length as" using True by linarith
    ultimately show ?thesis using True by (simp add: nth_append)
  next
    case False
    define k where "k = j + (i - length as)"
    have k: "k < length xs" "?zs ! i = xs ! k" using i False by (simp_all add: k_def nth_append)
    then have ck: "lay_compact (snd (xs ! k))" using c by simp
    then have "k \<noteq> j" using assms(3) k(1) by auto
    then have gt: "length as < i" using False by (auto simp: k_def)
    have "same_meta (xs ! (k - 1)) (xs ! k)" using assms(2) k(1) ck unfolding items_ok_def by blast
    moreover have "?zs ! (i - 1) = xs ! (k - 1)"
      using gt i by (auto simp: nth_append k_def intro!: arg_cong [of _ _ "nth xs"])
    ultimately show ?thesis using gt k(2) by simp
  qed
  ultimately show ?thesis unfolding items_ok_def by blast
qed

lemma length_xs_bytes: "8 * length xs \<le> length (items_bytes xs)"
proof (induction xs)
  case (Cons x xs)
  then show ?case using meta_size_pos [of "item_type x"] by (simp add: length_item_bytes)
qed simp

lemma canonical_ok:
  assumes "canonical bt xs" and "\<forall>x\<in>set xs. entry_ok bt (fst x)"
    and "length (items_bytes xs) < 65536"
  shows "items_ok bt xs"
  using canonical_items_ok [OF assms(1,2)] assms(3) length_xs_bytes [of xs] by simp

lemma map_pair_eq:
  "map f xs = map f' ys \<Longrightarrow> map g xs = map g' ys \<Longrightarrow>
     map (\<lambda>x. (f x, g x)) xs = map (\<lambda>y. (f' y, g' y)) ys"
  by (induction xs arbitrary: ys) (auto simp: Cons_eq_map_conv)

lemma finish_items:
  assumes "tree_ok bt" and "items_ok bt xs" and "items_ok bt (as @ map (shift_item b s) (drop j xs))"
    and "j < length xs \<Longrightarrow> \<not> lay_compact (snd (xs ! j))"
    and "length (items_bytes (as @ drop j xs)) < 65536"
    and "map meta_type hdrs = map item_type (as @ drop j xs)"
    and "map tombstone hdrs = map (\<lambda>x. le_tombstone (fst x)) (as @ drop j xs)"
    and "from = length as" and "to = int (length (as @ drop j xs)) - 1"
    and "zs = as @ map (shift_item b s) (drop j xs)" and "buf = items_bytes (as @ drop j xs)"
  shows "Option.bind (btree_leaf_adjust_offsets bt (n\<lparr>ln_headers := hdrs, ln_area := buf\<rparr>))
           (\<lambda>n1. btree_leaf_adjust_prefix_idxes n1 from to b s)
         = Some (n\<lparr>ln_headers := item_headers 0 zs, ln_area := items_bytes zs\<rparr>)"
proof -
  let ?zs = "as @ drop j xs"
  let ?n1 = "n\<lparr>ln_headers := item_headers 0 ?zs, ln_area := items_bytes ?zs\<rparr>"
  have ok: "items_ok bt ?zs" by (rule items_ok_unshifted [OF assms(3,2,4)])
  have m: "map (\<lambda>h. (meta_type h, tombstone h)) hdrs
      = map (\<lambda>x. (item_type x, le_tombstone (fst x))) ?zs"
    by (rule map_pair_eq [OF assms(6,7)])
  have len: "length hdrs = length ?zs" using assms(6) by (metis length_map)
  have 1: "btree_leaf_adjust_offsets bt (n\<lparr>ln_headers := hdrs, ln_area := buf\<rparr>) = Some ?n1"
    using adjust_offsets_items [OF assms(1) ok assms(5), of "n\<lparr>ln_headers := hdrs, ln_area := buf\<rparr>"]
      m len assms(11) by simp
  have ni: "node_items ?n1 ?zs" by (simp add: node_items_def)
  have okr: "\<forall>x\<in>set (drop j xs). item_ok bt x"
    using assms(2) by (auto simp: items_ok_def dest: in_set_dropD)
  have 2: "btree_leaf_adjust_prefix_idxes ?n1 from to b s
      = Some (?n1\<lparr>ln_area := items_bytes zs\<rparr>)"
    using adjust_prefix_idxes_items [OF assms(1) okr ni assms(5,9,8)] by (simp only: assms(10))
  have "item_headers 0 ?zs = item_headers 0 zs"
    by (simp only: assms(10) item_headers_append item_headers_shift)
  then show ?thesis using 1 2 by simp
qed

lemma entry_info_simps [simp]:
  "ki_key (entry_info e) = le_key e" "ki_keylen (entry_info e) = word_of_nat (length (le_key e))"
  "ki_datalen (entry_info e) = le_datalen e" "ki_ptr (entry_info e) = le_ptr e"
  "ki_seqno (entry_info e) = le_seqno e" "ki_tombstone (entry_info e) = le_tombstone e"
  by (simp_all add: entry_info_def)

lemma map_meta_type_headers [simp]: "map meta_type (item_headers off xs) = map item_type xs"
  by (induction xs arbitrary: off) simp_all

lemma map_tombstone_headers [simp]:
  "map tombstone (item_headers off xs) = map (\<lambda>x. le_tombstone (fst x)) xs"
  by (induction xs arbitrary: off) simp_all

lemma map_headers_take_drop [simp]:
  "map meta_type (take k (item_headers off xs)) = map item_type (take k xs)"
  "map meta_type (drop k (item_headers off xs)) = map item_type (drop k xs)"
  "map tombstone (take k (item_headers off xs)) = map (\<lambda>x. le_tombstone (fst x)) (take k xs)"
  "map tombstone (drop k (item_headers off xs)) = map (\<lambda>x. le_tombstone (fst x)) (drop k xs)"
  by (simp_all flip: take_map drop_map)

lemma copy_impacted_some:
  assumes "tree_ok bt" and "canonical bt xs" and "items_ok bt xs" and "node_items n xs"
    and "length (items_bytes xs) < 65536" and "base < int f"
    and "item_ok bt p" and "f \<le> length xs" and "pi \<le> f"
    and "hb + (length xs - f) \<le> length hdrs" and "int pi + 1 = int f + s"
    and "km_keylen pm = word_of_nat (length (key_of p))" and "km_datalen pm = le_datalen (fst p)"
    and "km_prefix_len pm = word_of_nat (plen p)" and "km_prefix_idx pm = word_of_nat (pidx p)"
    and "ys = layouts bt (Suc pi) (Some p) (drop f (map fst xs))"
  obtains m hdrs' where "m \<le> length ys"
    and "copy_impacted_keys_to_tmp_buf bt n f pi hb hdrs (Some (key_of p, pm))
       = Some (m, hdrs', items_bytes (take m ys))"
    and "drop m ys = map (shift_item base s) (drop (f + m) xs)"
    and "f + m < length xs \<Longrightarrow> \<not> lay_compact (snd (xs ! (f + m)))"
    and "retyped hb (take m ys) hdrs hdrs'"
proof -
  have "pi + length xs \<le> 65535 + f" using assms(5,9) length_xs_bytes [of xs] by linarith
  then obtain m hdrs' where m: "m \<le> length ys"
    "copy_impacted_loop bt n f hb 0 pi hdrs [] (key_of p) pm = Some (m, hdrs', items_bytes (take m ys))"
    "drop m ys = map (shift_item base s) (drop (f + m) xs)"
    "f + m < length xs \<Longrightarrow> plen (xs ! (f + m)) = 0" "retyped hb (take m ys) hdrs hdrs'"
    using copy_impacted_loop_items [OF assms(1-7), of 0 pi hb hdrs s pm ys "[]"] assms(8-16) by auto
  have "\<not> lay_compact (snd (xs ! (f + m)))" if "f + m < length xs"
    using canonical_nth [OF assms(2) that] m(4) [OF that] by (metis layout_step_0 no_prefix_simps(3))
  with m that show thesis by (simp add: copy_impacted_keys_to_tmp_buf_def)
qed

lemma length_items_split: "length (items_bytes xs) = offs xs m + length (items_bytes (drop m xs))"
  using arg_cong [OF items_bytes_take_drop [of xs m], of length] by simp

text \<open>The common end of insertion, removal and split: the scratch buffer holds the entries \<open>pre\<close>,
  \<open>m\<close> re-encoded ones, and the rest of the old ones from \<open>f + m\<close> on, copied in bulk.\<close>

lemma copied_headers:
  assumes "map meta_type hdrs = map item_type (pre @ drop f xs)"
    and "map tombstone hdrs = map (\<lambda>x. le_tombstone (fst x)) (pre @ drop f xs)"
    and "map fst ys = drop f (map fst xs)"
    and "m \<le> length ys" and "retyped (length pre) (take m ys) hdrs hdrs2"
    and "drop m ys = map (shift_item b s) (drop (f + m) xs)"
  shows "map meta_type hdrs2 = map item_type (pre @ take m ys @ drop (f + m) xs)"
    and "map tombstone hdrs2 = map (\<lambda>x. le_tombstone (fst x)) (pre @ take m ys @ drop (f + m) xs)"
proof -
  show "map meta_type hdrs2 = map item_type (pre @ take m ys @ drop (f + m) xs)"
    using assms(4,5) unfolding retyped_def assms(1) by (simp add: drop_map add.commute)
  have "map (\<lambda>x. le_tombstone (fst x)) (pre @ take m ys @ drop (f + m) xs)
      = map (\<lambda>x. le_tombstone (fst x)) (pre @ take m ys @ drop m ys)"
    by (simp only: assms(6)) (simp add: comp_def)
  also have "\<dots> = map tombstone hdrs2"
    using arg_cong [OF assms(3), of "map le_tombstone"] assms(2,5)
    by (simp add: retyped_def comp_def drop_map)
  finally show "map tombstone hdrs2 = map (\<lambda>x. le_tombstone (fst x)) (pre @ take m ys @ drop (f + m) xs)"
    by simp
qed

lemma finish_copied:
  assumes "tree_ok bt" and "items_ok bt xs" and zs: "zs = pre @ ys" and "items_ok bt zs"
    and "map meta_type hdrs = map item_type (pre @ drop f xs)"
    and "map tombstone hdrs = map (\<lambda>x. le_tombstone (fst x)) (pre @ drop f xs)"
    and "map fst ys = drop f (map fst xs)"
    and "m \<le> length ys" and "retyped (length pre) (take m ys) hdrs hdrs2"
    and "drop m ys = map (shift_item b s) (drop (f + m) xs)"
    and "f + m < length xs \<Longrightarrow> \<not> lay_compact (snd (xs ! (f + m)))"
    and "length (items_bytes zs) < 65536"
    and "from = length pre + m" and "to = int (length zs) - 1"
  shows "Option.bind (btree_leaf_adjust_offsets bt (n\<lparr>ln_headers := hdrs2,
        ln_area := items_bytes (pre @ take m ys @ drop (f + m) xs)\<rparr>))
      (\<lambda>n1. btree_leaf_adjust_prefix_idxes n1 from to b s)
    = Some (n\<lparr>ln_headers := item_headers 0 zs, ln_area := items_bytes zs\<rparr>)"
proof -
  let ?as = "pre @ take m ys"
  have ly: "length ys = length xs - f" using arg_cong [OF assms(7), of length] by simp
  have zs2: "zs = ?as @ map (shift_item b s) (drop (f + m) xs)"
    unfolding zs assms(10) [symmetric] by simp
  note h = copied_headers [OF assms(5-10), folded append.assoc [of pre]]
  have lb: "length (items_bytes (?as @ drop (f + m) xs)) < 65536"
    using assms(12) by (simp add: zs2)
  show ?thesis
    by (rule finish_items [OF assms(1,2) _ assms(11) lb h _ _ zs2])
      (use assms(4,8,13,14) ly zs zs2 in auto)
qed

lemma copy_impacted_none:
  assumes "tree_ok bt" and "canonical bt xs" and "items_ok bt xs" and "node_items n xs"
    and "length (items_bytes xs) < 65536" and "base < int f" and "f \<le> length xs"
    and "hb + (length xs - f) \<le> length hdrs" and "s = - int f"
    and "ys = layouts bt 0 None (drop f (map fst xs))"
  obtains m hdrs' where "m \<le> length ys"
    and "copy_impacted_keys_to_tmp_buf bt n f pi hb hdrs None
       = Some (m, hdrs', items_bytes (take m ys))"
    and "drop m ys = map (shift_item base s) (drop (f + m) xs)"
    and "f + m < length xs \<Longrightarrow> \<not> lay_compact (snd (xs ! (f + m)))"
    and "\<forall>j<m. 0 < j \<longrightarrow> \<not> (plen (xs ! (f + j)) = 0 \<and> plen (ys ! j) = 0)"
    and "retyped hb (take m ys) hdrs hdrs'"
proof (cases "f < length xs")
  case False
  then show thesis
    using that [of 0 hdrs] assms(4,7,10)
    by (simp add: copy_impacted_keys_to_tmp_buf_def node_items_def)
next
  case True
  define e where "e = fst (xs ! f)"
  define y where "y = (e, no_prefix)"
  define ys' where "ys' = layouts bt (Suc 0) (Some y) (drop (f + 1) (map fst xs))"
  have "drop f (map fst xs) = e # drop (f + 1) (map fst xs)"
    using True by (simp add: e_def Cons_nth_drop_Suc [symmetric] drop_map)
  then have ys: "ys = y # ys'" by (simp add: assms(10) y_def ys'_def Let_def)
  have nk: "nkeys n = length xs" using assms(4) by (simp add: node_items_def)
  have oke: "entry_ok bt e" using assms(3) True by (simp add: items_ok_def item_ok_def e_def)
  have oky: "item_ok bt y" unfolding y_def by (rule item_ok_no_prefix [OF oke])
  have ki: "btree_leaf_get_nth_key_info n f = Some (entry_info e)"
    unfolding e_def by (rule get_nth_key_info_items [OF assms(1,3) canonical_prefixes_ok [OF assms(2)] assms(4) True assms(5)])
  have gm: "btree_leaf_get_meta n f = Some (item_meta (xs ! f))"
    by (rule get_meta_items [OF assms(1,3) node_items_upto [OF assms(4)] True assms(5)])
  have gd: "btree_leaf_get_data_nth_key n f = Some (le_data e @ items_bytes (drop (Suc f) xs), le_datalen e)"
    unfolding e_def by (rule get_data_items [OF assms(1,3,4) True assms(5)])
  define km where "km = (item_meta (xs ! f))\<lparr>km_prefix_len := 0, km_prefix_idx := 0,
      km_keylen := ki_keylen (entry_info e), km_datalen := ki_datalen (entry_info e),
      km_seqno := ki_seqno (entry_info e), km_ptr := ki_ptr (entry_info e), compact_meta := False\<rparr>"
  have ae: "append_entry_to_tmp_buf bt km (entry_info e) (le_data e @ items_bytes (drop (Suc f) xs)) (le_datalen e)
      = Some (item_type y, item_bytes y)"
    using append_entry_item [OF assms(1) oky, of km "entry_info e" "le_data e @ items_bytes (drop (Suc f) xs)"]
    by (simp add: y_def km_def)
  let ?h = "hdrs[hb := (hdrs ! hb)\<lparr>meta_type := item_type y\<rparr>]"
  have ci: "copy_impacted_keys_to_tmp_buf bt n f pi hb hdrs None =
      copy_impacted_loop bt n f hb 1 0 ?h (item_bytes y) (key_of y) km"
    using True nk by (simp add: copy_impacted_keys_to_tmp_buf_def ki gm gd ae km_def [symmetric] Let_def del: entry_info_simps(2-6))
      (simp add: y_def)
  have "\<exists>m hdrs'. m \<le> length ys' \<and>
     copy_impacted_loop bt n f hb 1 0 ?h (item_bytes y) (key_of y) km
       = Some (1 + m, hdrs', item_bytes y @ items_bytes (take m ys')) \<and>
     drop m ys' = map (shift_item base s) (drop (f + 1 + m) xs) \<and>
     (f + 1 + m < length xs \<longrightarrow> plen (xs ! (f + 1 + m)) = 0) \<and>
     (\<forall>j<m. \<not> (plen (xs ! (f + 1 + j)) = 0 \<and> plen (ys' ! j) = 0)) \<and>
     retyped (hb + 1) (take m ys') ?h hdrs'"
    by (rule copy_impacted_loop_items [OF assms(1-6) oky])
      (use True assms(5,8,9) length_xs_bytes [of xs] in \<open>simp_all add: km_def y_def ys'_def\<close>)
  then obtain m hdrs' where m: "m \<le> length ys'"
     "copy_impacted_loop bt n f hb 1 0 ?h (item_bytes y) (key_of y) km
       = Some (1 + m, hdrs', item_bytes y @ items_bytes (take m ys'))"
     "drop m ys' = map (shift_item base s) (drop (f + 1 + m) xs)"
     "f + 1 + m < length xs \<longrightarrow> plen (xs ! (f + 1 + m)) = 0"
     "\<forall>j<m. \<not> (plen (xs ! (f + 1 + j)) = 0 \<and> plen (ys' ! j) = 0)"
     "retyped (Suc hb) (take m ys') ?h hdrs'" by auto
  have cp: "\<forall>j<Suc m. 0 < j \<longrightarrow> \<not> (plen (xs ! (f + j)) = 0 \<and> plen (ys ! j) = 0)"
    using m(5) by (auto simp: ys less_Suc_eq_0_disj)
  have "\<not> lay_compact (snd (xs ! (f + Suc m)))" if "f + Suc m < length xs"
    using canonical_nth [OF assms(2) that] m(4) that by (metis layout_step_0 no_prefix_simps(3) add.assoc plus_1_eq_Suc)
  then show thesis
    using that [of "Suc m" hdrs'] m(1-4) cp ci ys retyped_Cons [OF m(6)] assms(8) True by simp
qed

end
