(* ===== verification/Leaf_Refine.thy ===== *)
theory Leaf_Refine
  imports Leaf_Copy
begin

text \<open>
  Insertion and removal on canonical nodes, and the correctness of the leaf operations on
  encoded contents.
\<close>

section \<open>Insertion\<close>

lemma build_key_prefix_canonical:
  assumes "tree_ok bt" and "canonical bt xs" and "items_ok bt xs" and "node_items n xs"
    and "length (items_bytes xs) < 65536" and "index \<le> length xs" and "entry_ok bt e"
    and "l = layout_step bt index (if index = 0 then None else Some (xs ! (index - 1))) e"
    and "km_datalen km = le_datalen e" and "km_ptr km = le_ptr e" and "\<not> compact_meta km"
  shows "build_key_prefix bt n index (le_key e) km =
     Some (km\<lparr>km_prefix_len := word_of_nat (lay_plen l), km_prefix_idx := word_of_nat (lay_pidx l),
              compact_meta := lay_compact l\<rparr>)"
proof (cases "index = 0")
  case True
  show ?thesis
    using True assms(8,11) by (auto simp: build_key_prefix_def intro!: key_meta.equality)
next
  case False
  define p where "p = xs ! (index - 1)"
  have i: "index - 1 < length xs" using False assms(6) by simp
  have ok: "item_ok bt p" using assms(3) i by (simp add: items_ok_def p_def)
  have ix: "index - 1 < 65536" "Suc (index - 1) = index"
    using i length_xs_bytes [of xs] assms(5) False by linarith+
  have 1: "btree_leaf_get_meta n (index - 1) = Some (item_meta p)"
    unfolding p_def by (rule get_meta_items [OF assms(1,3) node_items_upto [OF assms(4)] i assms(5)])
  have 2: "btree_leaf_get_nth_key_info n (index - 1) = Some (entry_info (fst p))"
    unfolding p_def by (rule get_nth_key_info_items [OF assms(1,3) canonical_prefixes_ok [OF assms(2)] assms(4) i assms(5)])
  have 3: "l = layout_step bt index (Some p) e" using assms(8) False by (simp add: p_def)
  show ?thesis
    using False 1 2 build_key_prefix_item [OF assms(1) ok assms(7) ix(1), of "item_meta p" "km\<lparr>km_prefix_len := 0, km_prefix_idx := 0\<rparr>"]
      assms(9,10)
    unfolding 3 ix(2)
    by (simp add: build_key_prefix_def btree_leaf_get_nth_key_info2_def entry_info_def Let_def)
qed


text \<open>The metadata an insertion builds for a new entry.\<close>

definition fresh_meta :: "item \<Rightarrow> key_meta" where
  "fresh_meta y = key_meta0\<lparr>km_keylen := word_of_nat (length (key_of y)), km_datalen := le_datalen (fst y),
      km_seqno := le_seqno (fst y), km_ptr := le_ptr (fst y), km_prefix_len := word_of_nat (plen y),
      km_prefix_idx := word_of_nat (pidx y), compact_meta := lay_compact (snd y)\<rparr>"

text \<open>One run of \<open>btree_leaf_insert_key_index\<close> from the results of the functions it calls.\<close>

lemma insert_key_index_eval:
  assumes "index \<le> nkeys n" and "length key < max_key_size bt"
    and "build_key_prefix bt n index key (key_meta0\<lparr>km_keylen := word_of_nat (length key),
           km_datalen := datalen, km_seqno := ki_seqno ki, km_ptr := ki_ptr ki\<rparr>) = Some km0"
    and "km = km0\<lparr>km_meta_type := get_key_meta_type km0\<rparr>"
    and "bytes_before bt n index = Some before"
    and "append_entry_to_tmp_buf bt km ki data datalen = Some (ty, entry)"
    and "copy_impacted_keys_to_tmp_buf bt n index index (Suc index)
           (take index (ln_headers n) @ \<lparr>tombstone = ki_tombstone ki, meta_type = ty, header_offset = 0\<rparr> #
            drop index (ln_headers n)) (Some (key, km)) = Some (m, hdrs2, impacted)"
    and "index + m < nkeys n \<Longrightarrow> bytes_from n (index + m) = Some rest"
    and "nkeys n \<le> index + m \<Longrightarrow> rest = []"
    and "buf = before @ entry @ impacted @ rest"
    and "used = Suc (nkeys n) * sizeof_entry_header + length buf"
    and "dry \<or> used \<le> nodesize_less_hdr bt"
    and "\<not> dry \<Longrightarrow> Option.bind (btree_leaf_adjust_offsets bt (n\<lparr>ln_headers := hdrs2, ln_area := buf\<rparr>))
           (\<lambda>n1. btree_leaf_adjust_prefix_idxes n1 (Suc (index + m)) (int (nkeys n)) (int index - 1) 1)
         = Some n2"
  shows "btree_leaf_insert_key_index bt n key data datalen ki index dry =
           Some (if dry then n else n2, int used - int (btree_leaf_used_space n))"
proof -
  let ?hs = "\<lambda>t. take index (ln_headers n) @
      \<lparr>tombstone = ki_tombstone ki, meta_type = t, header_offset = 0\<rparr> # drop index (ln_headers n)"
  have h: "(?hs t)[index := (?hs t ! index)\<lparr>meta_type := ty\<rparr>] = ?hs ty" for t
    using assms(1) by (simp add: list_update_append nth_append)
  have r: "(if nkeys n + 1 \<le> Suc (index + m) then Some [] else bytes_from n (Suc (index + m) - 1)) = Some rest"
    using assms(8,9) by simp
  have u: "(nkeys n + 1) * sizeof_entry_header + length (before @ entry @ impacted @ rest) = used"
    using assms(10,11) by simp
  show ?thesis
    using assms(1,2,12,13) unfolding btree_leaf_insert_key_index_def
    by (simp only: assms(3) bind.simps Let_def fst_key_metax assms(4) [symmetric] assms(5,6) prod.case
        h assms(7) r u assms(10) [symmetric] assert_opt_def if_True if_False)
      (auto simp: assms(11) bind_eq_Some_conv)
qed

text \<open>The same for items: what the copying phase of an insertion leaves in the scratch buffer.\<close>

lemma insert_items:
  assumes "tree_ok bt" and "canonical bt xs" and "items_ok bt xs" and "node_items n xs"
    and "length (items_bytes xs) < 65536" and "index \<le> length xs" and "entry_ok bt e"
    and "take (length (le_data e)) data = le_data e"
    and "zs = layouts bt 0 None (insert_at index e (map fst xs))"
    and "dry \<or> length zs * sizeof_entry_header + length (items_bytes zs) \<le> nodesize_less_hdr bt"
    and "items_ok bt zs"
  shows "btree_leaf_insert_key_index bt n (le_key e) data (le_datalen e) (entry_info e) index dry =
    Some (if dry then n else n\<lparr>ln_headers := item_headers 0 zs, ln_area := items_bytes zs\<rparr>,
          int (length zs * sizeof_entry_header + length (items_bytes zs)) - int (btree_leaf_used_space n))"
proof -
  define l where "l = layout_step bt index (if index = 0 then None else Some (xs ! (index - 1))) e"
  define y where "y = (e, l)"
  define ys where "ys = layouts bt (Suc index) (Some y) (drop index (map fst xs))"
  have eqx: "layouts bt 0 None (map fst xs) = xs" using assms(2) by (simp add: canonical_def)
  have nk: "nkeys n = length xs" and hn: "ln_headers n = item_headers 0 xs"
    using assms(4) by (simp_all add: node_items_def)
  have zs: "zs = (take index xs @ [y]) @ ys"
    unfolding assms(9) insert_at_def
    by (subst layouts_take_append [where xs = xs])
      (use assms(6) eqx in \<open>simp_all add: y_def l_def ys_def Let_def\<close>)
  have oky: "item_ok bt y" using assms(11) by (simp add: items_ok_def zs)
  define km where "km = (fresh_meta y)\<lparr>km_meta_type := get_key_meta_type (fresh_meta y)\<rparr>"
  define hdrs where "hdrs = take index (ln_headers n) @
      \<lparr>tombstone = le_tombstone e, meta_type = item_type y, header_offset = 0\<rparr> # drop index (ln_headers n)"
  obtain m hdrs2 where m: "m \<le> length ys"
    "copy_impacted_keys_to_tmp_buf bt n index index (Suc index) hdrs (Some (key_of y, km))
       = Some (m, hdrs2, items_bytes (take m ys))"
    "drop m ys = map (shift_item (int index - 1) 1) (drop (index + m) xs)"
    "index + m < length xs \<Longrightarrow> \<not> lay_compact (snd (xs ! (index + m)))"
    "retyped (Suc index) (take m ys) hdrs hdrs2"
    by (rule copy_impacted_some [OF assms(1-5) _ oky assms(6), of "int index - 1" index "Suc index" hdrs 1 km ys])
      (use assms(6) nk in \<open>simp_all add: ys_def hdrs_def km_def fresh_meta_def\<close>)
  have lb: "length (items_bytes zs) = length (items_bytes ((take index xs @ [y]) @ take m ys @ drop (index + m) xs))"
    using append_take_drop_id [of m ys] m(3) by (simp add: zs length_items_split [of ys m])
  show ?thesis
    unfolding lb
  proof (rule insert_key_index_eval [where rest = "items_bytes (drop (index + m) xs)"])
    show "build_key_prefix bt n index (le_key e) (key_meta0\<lparr>km_keylen := word_of_nat (length (le_key e)),
        km_datalen := le_datalen e, km_seqno := ki_seqno (entry_info e), km_ptr := ki_ptr (entry_info e)\<rparr>)
        = Some (fresh_meta y)"
      by (rule build_key_prefix_canonical [OF assms(1-7) l_def, THEN trans])
        (simp_all add: key_meta0_def fresh_meta_def y_def)
    show "append_entry_to_tmp_buf bt km (entry_info e) data (le_datalen e) = Some (item_type y, item_bytes y)"
      using append_entry_item [OF assms(1) oky, of km "entry_info e" data] assms(8)
      by (simp add: y_def km_def fresh_meta_def)
    show "bytes_before bt n index = Some (items_bytes (take index xs))"
      by (rule bytes_before_items [OF assms(1,3,4,6,5)])
    show "Option.bind (btree_leaf_adjust_offsets bt (n\<lparr>ln_headers := hdrs2,
        ln_area := items_bytes ((take index xs @ [y]) @ take m ys @ drop (index + m) xs)\<rparr>))
          (\<lambda>n1. btree_leaf_adjust_prefix_idxes n1 (Suc (index + m)) (int (nkeys n)) (int index - 1) 1)
        = Some (n\<lparr>ln_headers := item_headers 0 zs, ln_area := items_bytes zs\<rparr>)" if "\<not> dry"
      by (rule finish_copied [OF assms(1,3) zs assms(11) _ _ _ m(1) _ m(3,4), of hdrs hdrs2])
        (use assms(1,6,10) that m(5) nk hn in \<open>auto simp: tree_ok_def hdrs_def ys_def y_def drop_map assms(9)\<close>)
  qed (use assms(6,7,10) nk m lb bytes_from_items [OF assms(4) _ assms(5)] in
      \<open>auto simp: entry_ok_def km_def hdrs_def y_def assms(9)\<close>)
qed


section \<open>Removal\<close>

lemma remove_key_index_eval:
  assumes "index < nkeys n" and "bytes_before bt n index = Some before"
    and "index = 0 \<Longrightarrow> prev = None"
    and "0 < index \<Longrightarrow> btree_leaf_get_nth_key_info n (index - 1) = Some ki \<and>
           btree_leaf_get_meta n (index - 1) = Some km \<and> prev = Some (ki_key ki, km)"
    and "copy_impacted_keys_to_tmp_buf bt n (Suc index) (index - 1) index
           (take index (ln_headers n) @ drop (Suc index) (ln_headers n)) prev = Some (m, hdrs2, impacted)"
    and "Suc index + m < nkeys n \<Longrightarrow> bytes_from n (Suc index + m) = Some rest"
    and "nkeys n \<le> Suc index + m \<Longrightarrow> rest = []"
    and "buf = before @ impacted @ rest"
    and "used = (nkeys n - 1) * sizeof_entry_header + length buf"
    and "\<not> dry \<Longrightarrow> Option.bind (btree_leaf_adjust_offsets bt (n\<lparr>ln_headers := hdrs2, ln_area := buf\<rparr>))
           (\<lambda>n1. btree_leaf_adjust_prefix_idxes n1 (index + m) (int (nkeys n - 1) - 1) (int index) (- 1))
         = Some n2"
  shows "btree_leaf_remove_key_index_int bt n index dry =
           Some (if dry then n else n2, int (btree_leaf_used_space n) - int used)"
proof -
  have p: "(if index = 0 then Some None else do {
       ki \<leftarrow> btree_leaf_get_nth_key_info n (index - 1);
       km \<leftarrow> btree_leaf_get_meta n (index - 1);
       Some (Some (ki_key ki, km)) }) = Some prev"
    using assms(3,4) by (cases "index = 0") simp_all
  have r: "(if nkeys n - 1 \<le> index + m then Some [] else bytes_from n (index + m + 1)) = Some rest"
    using assms(1,6,7) by auto
  show ?thesis
    using assms(1,10) unfolding btree_leaf_remove_key_index_int_def
    by (simp only: assms(2) bind.simps Let_def p prod.case
        assms(5) r assms(8) [symmetric] assert_opt_def if_True if_False)
      (auto simp: assms(9) bind_eq_Some_conv)
qed

lemma copy_impacted_removed:
  assumes "tree_ok bt" and "canonical bt xs" and "items_ok bt xs" and "node_items n xs"
    and "length (items_bytes xs) < 65536" and "index < length xs"
    and "index + (length xs - Suc index) \<le> length hdrs"
    and "ys = layouts bt index (if index = 0 then None else Some (xs ! (index - 1))) (drop (Suc index) (map fst xs))"
    and "prev = (if index = 0 then None
      else Some (key_of (xs ! (index - 1)), item_meta (xs ! (index - 1))))"
  obtains m hdrs' where "m \<le> length ys"
    and "copy_impacted_keys_to_tmp_buf bt n (Suc index) (index - 1) index hdrs prev
       = Some (m, hdrs', items_bytes (take m ys))"
    and "drop m ys = map (shift_item (int index) (- 1)) (drop (Suc index + m) xs)"
    and "Suc index + m < length xs \<Longrightarrow> \<not> lay_compact (snd (xs ! (Suc index + m)))"
    and "retyped index (take m ys) hdrs hdrs'"
proof (cases "index = 0")
  case True
  show thesis
    by (rule copy_impacted_none [OF assms(1-5), of "int index" "Suc index" index hdrs "- 1" ys "index - 1"])
      (use Suc_leI [OF assms(6)] assms(7-9) True in \<open>auto intro: that\<close>)
next
  case False
  let ?p = "xs ! (index - 1)"
  have "item_ok bt ?p" using assms(3,6) by (simp add: items_ok_def)
  then show thesis
    by (rule copy_impacted_some [OF assms(1-5), of "int index" "Suc index" ?p "index - 1" index hdrs "- 1" "item_meta ?p" ys, rotated])
      (use assms(6-9) False in \<open>auto intro: that\<close>)
qed

lemma remove_items:
  assumes "tree_ok bt" and "canonical bt xs" and "items_ok bt xs" and "node_items n xs"
    and "length (items_bytes xs) < 65536" and "index < length xs"
    and "zs = layouts bt 0 None (remove_at index (map fst xs))"
    and "dry \<or> length (items_bytes zs) < 65536" and "items_ok bt zs"
  shows "btree_leaf_remove_key_index_int bt n index dry =
    Some (if dry then n else n\<lparr>ln_headers := item_headers 0 zs, ln_area := items_bytes zs\<rparr>,
          int (btree_leaf_used_space n) - int (length zs * sizeof_entry_header + length (items_bytes zs)))"
proof -
  define ys where "ys = layouts bt index (if index = 0 then None else Some (xs ! (index - 1)))
      (drop (Suc index) (map fst xs))"
  define prev where "prev = (if index = 0 then None
      else Some (key_of (xs ! (index - 1)), item_meta (xs ! (index - 1))))"
  have eqx: "layouts bt 0 None (map fst xs) = xs" using assms(2) by (simp add: canonical_def)
  have nk: "nkeys n = length xs" and hn: "ln_headers n = item_headers 0 xs"
    using assms(4) by (simp_all add: node_items_def)
  have zs: "zs = take index xs @ ys"
    unfolding assms(7) remove_at_def ys_def
    by (rule layouts_take_append) (use assms(6) eqx in simp_all)
  define hdrs where "hdrs = take index (ln_headers n) @ drop (Suc index) (ln_headers n)"
  have lh: "index + (length xs - Suc index) \<le> length hdrs" using assms(6) nk by (simp add: hdrs_def)
  obtain m hdrs2 where m: "m \<le> length ys"
    "copy_impacted_keys_to_tmp_buf bt n (Suc index) (index - 1) index hdrs prev
       = Some (m, hdrs2, items_bytes (take m ys))"
    "drop m ys = map (shift_item (int index) (- 1)) (drop (Suc index + m) xs)"
    "Suc index + m < length xs \<Longrightarrow> \<not> lay_compact (snd (xs ! (Suc index + m)))"
    "retyped index (take m ys) hdrs hdrs2"
    by (rule copy_impacted_removed [OF assms(1-6) lh ys_def prev_def]) simp_all
  have lb: "length (items_bytes zs) = length (items_bytes (take index xs @ take m ys @ drop (Suc index + m) xs))"
    using m(3) by (simp add: zs length_items_split [of ys m])
  have i: "index - 1 < length xs" using assms(6) by simp
  show ?thesis
    unfolding lb
  proof (rule remove_key_index_eval [where rest = "items_bytes (drop (Suc index + m) xs)"])
    show "bytes_before bt n index = Some (items_bytes (take index xs))"
      by (rule bytes_before_items [OF assms(1,3,4) less_imp_le [OF assms(6)] assms(5)])
    show "btree_leaf_get_nth_key_info n (index - 1) = Some (entry_info (fst (xs ! (index - 1)))) \<and>
        btree_leaf_get_meta n (index - 1) = Some (item_meta (xs ! (index - 1))) \<and>
        prev = Some (ki_key (entry_info (fst (xs ! (index - 1)))), item_meta (xs ! (index - 1)))" if "0 < index"
      using that get_meta_items [OF assms(1,3) node_items_upto [OF assms(4)] i assms(5)]
        get_nth_key_info_items [OF assms(1,3) canonical_prefixes_ok [OF assms(2)] assms(4) i assms(5)]
      by (simp add: prev_def)
    show "Option.bind (btree_leaf_adjust_offsets bt (n\<lparr>ln_headers := hdrs2,
        ln_area := items_bytes (take index xs @ take m ys @ drop (Suc index + m) xs)\<rparr>))
          (\<lambda>n1. btree_leaf_adjust_prefix_idxes n1 (index + m) (int (nkeys n - 1) - 1) (int index) (- 1))
        = Some (n\<lparr>ln_headers := item_headers 0 zs, ln_area := items_bytes zs\<rparr>)" if "\<not> dry"
      by (rule finish_copied [OF assms(1,3) zs assms(9) _ _ _ m(1) _ m(3,4), of hdrs hdrs2])
        (use assms(6,8) that m(5) nk hn in \<open>auto simp: hdrs_def ys_def drop_map assms(7)\<close>)
  qed (use assms(6) nk m(2) lb bytes_from_items [OF assms(4) _ assms(5)] in
      \<open>auto simp: hdrs_def prev_def assms(7)\<close>)
qed

section \<open>Operations on encoded contents\<close>

lemma encode_leaf_items: "node_items (encode_leaf bt n es) (layouts bt 0 None es)"
  by (simp add: node_items_def encode_leaf_def Let_def)

lemma encode_leaf_nkeys [simp]: "nkeys (encode_leaf bt n es) = length es"
  by (simp add: encode_leaf_def Let_def)

lemma used_space_encode: "btree_leaf_used_space (encode_leaf bt n es) = leaf_used bt es"
  by (simp add: btree_leaf_used_space_def leaf_used_def encode_leaf_def Let_def)

lemma encode_leaf_update:
  "(encode_leaf bt n es)\<lparr>ln_headers := item_headers 0 (layouts bt 0 None es'),
     ln_area := items_bytes (layouts bt 0 None es')\<rparr> = encode_leaf bt n es'"
  by (simp add: encode_leaf_def Let_def)

lemma entries_ok_bytes:
  assumes "tree_ok bt" and "entries_ok bt es"
  shows "length (items_bytes (layouts bt 0 None es)) < 65536"
  using assms by (simp add: tree_ok_def entries_ok_def leaf_used_def)

lemma layouts_items_ok:
  assumes "\<forall>e\<in>set es. entry_ok bt e" and "length es < 65536"
  shows "items_ok bt (layouts bt 0 None es)"
proof (rule canonical_items_ok)
  show "\<forall>x\<in>set (layouts bt 0 None es). entry_ok bt (fst x)"
    using assms(1) by (metis imageI list.set_map map_fst_layouts)
qed (use assms in simp_all)

lemma entries_ok_length:
  assumes "tree_ok bt" and "entries_ok bt es"
  shows "length es < 10923"
  using assms by (simp add: tree_ok_def entries_ok_def leaf_used_def)

lemma entries_ok_items:
  assumes "tree_ok bt" and "entries_ok bt es"
  shows "items_ok bt (layouts bt 0 None es)"
  using layouts_items_ok [of es bt] entries_ok_length [OF assms] assms(2) by (simp add: entries_ok_def)

lemmas encoded = canonical_layouts entries_ok_items encode_leaf_items entries_ok_bytes

lemma encoded_nth_info:
  assumes "tree_ok bt" and "entries_ok bt es" and "i < length es"
  shows "btree_leaf_get_nth_key_info (encode_leaf bt n es) i = Some (entry_info (es ! i))"
  using get_nth_key_info_items [OF assms(1) entries_ok_items [OF assms(1,2)]
      canonical_prefixes_ok [OF canonical_layouts] encode_leaf_items _ entries_ok_bytes [OF assms(1,2)]] assms(3)
  by simp

lemma encoded_meta:
  assumes "tree_ok bt" and "entries_ok bt es" and "i < length es"
  shows "btree_leaf_get_meta (encode_leaf bt n es) i = Some (item_meta (layouts bt 0 None es ! i))"
  using get_meta_items [OF assms(1) entries_ok_items [OF assms(1,2)]
      node_items_upto [OF encode_leaf_items] _ entries_ok_bytes [OF assms(1,2)]] assms(3)
  by simp

lemma encoded_data:
  assumes "tree_ok bt" and "entries_ok bt es" and "i < length es"
  shows "\<exists>rest. btree_leaf_get_data_nth_key (encode_leaf bt n es) i
           = Some (le_data (es ! i) @ rest, le_datalen (es ! i))"
  using get_data_items [OF assms(1) entries_ok_items [OF assms(1,2)] encode_leaf_items _
      entries_ok_bytes [OF assms(1,2)]] assms(3)
  by simp

lemma insert_encoded:
  assumes "tree_ok bt" and "entries_ok bt es" and "entry_ok bt e" and "index \<le> length es"
    and "take (length (le_data e)) data = le_data e"
    and "dry \<or> leaf_used bt (insert_at index e es) \<le> nodesize_less_hdr bt"
  shows "btree_leaf_insert_key_index bt (encode_leaf bt n es) (le_key e) data (le_datalen e)
           (entry_info e) index dry =
    Some (if dry then encode_leaf bt n es else encode_leaf bt n (insert_at index e es),
          int (leaf_used bt (insert_at index e es)) - int (leaf_used bt es))"
proof -
  let ?zs = "layouts bt 0 None (insert_at index e es)"
  have ok: "items_ok bt ?zs"
    using assms(2-4) entries_ok_length [OF assms(1,2)]
    by (intro layouts_items_ok) (auto simp: set_insert_at entries_ok_def)
  have d: "dry \<or> length ?zs * sizeof_entry_header + length (items_bytes ?zs) \<le> nodesize_less_hdr bt"
    using assms(4,6) by (simp add: leaf_used_def)
  show ?thesis
    using insert_items [OF assms(1) canonical_layouts entries_ok_items [OF assms(1,2)] encode_leaf_items
        entries_ok_bytes [OF assms(1,2)] _ assms(3,5) _ d, of index n] ok assms(4)
    by (simp add: encode_leaf_update used_space_encode leaf_used_def)
qed

lemma remove_encoded:
  assumes "tree_ok bt" and "entries_ok bt es" and "index < length es"
    and "dry \<or> leaf_used bt (remove_at index es) \<le> nodesize_less_hdr bt"
  shows "btree_leaf_remove_key_index_int bt (encode_leaf bt n es) index dry =
    Some (if dry then encode_leaf bt n es else encode_leaf bt n (remove_at index es),
          int (leaf_used bt es) - int (leaf_used bt (remove_at index es)))"
proof -
  let ?zs = "layouts bt 0 None (remove_at index es)"
  have ok: "items_ok bt ?zs"
    using assms(2,3) entries_ok_length [OF assms(1,2)] set_remove_at_subset [of index es]
    by (intro layouts_items_ok) (auto simp: entries_ok_def)
  have d: "dry \<or> length (items_bytes ?zs) < 65536"
    using assms(1,4) by (auto simp: leaf_used_def tree_ok_def)
  show ?thesis
    using remove_items [OF assms(1) canonical_layouts entries_ok_items [OF assms(1,2)] encode_leaf_items
        entries_ok_bytes [OF assms(1,2)] _ _ d, of index n] ok assms(3)
    by (simp add: encode_leaf_update used_space_encode leaf_used_def)
qed

lemma update_encoded:
  assumes "tree_ok bt" and "entries_ok bt es" and "entry_ok bt e"
    and "take (length (le_data e)) data = le_data e"
    and "le_tombstone e = (md_flags meta AND INSERT_TOMBSTONE \<noteq> 0)"
    and "es' = (if key_exists then remove_at index es else es)"
    and "if key_exists then index < length es else index \<le> length es"
    and "entries_ok bt es'" and "entries_ok bt (insert_at index e es')"
    and "d = int (leaf_used bt (insert_at index e es')) - int (leaf_used bt es)"
  shows "btree_leaf_update_key bt (encode_leaf bt n es) (le_key e) data (le_datalen e) (le_seqno e)
           (le_ptr e) meta index key_exists =
    Some (encode_leaf bt n (insert_at index e es'),
          btree_leaf_entry_max_size (word_of_nat (length (le_key e))) (le_datalen e) - d, d)"
proof -
  have ki: "\<lparr>ki_key = le_key e, ki_keylen = word_of_nat (length (le_key e)), ki_datalen = le_datalen e,
      ki_ptr = le_ptr e, ki_seqno = le_seqno e, ki_tombstone = (md_flags meta AND INSERT_TOMBSTONE \<noteq> 0)\<rparr>
      = entry_info e" using assms(5) by (simp add: entry_info_def)
  have k: "length (le_key e) < max_key_size bt" using assms(3) by (simp add: entry_ok_def)
  have i: "index \<le> length es'" using assms(6,7) by (auto split: if_splits)
  have fit: "leaf_used bt es' \<le> nodesize_less_hdr bt"
    "leaf_used bt (insert_at index e es') \<le> nodesize_less_hdr bt"
    using assms(8,9) by (simp_all add: entries_ok_def)
  show ?thesis
    using k assms(6,7,10) insert_encoded [OF assms(1,8,3) i assms(4), of False n]
      remove_encoded [OF assms(1,2), of index False n] fit
    by (cases key_exists) (simp_all add: btree_leaf_update_key_def ki assert_opt_def Let_def)
qed

end
