(* ===== verification/Leaf_Space.thy ===== *)
theory Leaf_Space
  imports Leaf_Refine
begin

text \<open>
  The space that entries take: the part of a big object that stays in the leaf, that four entries
  always fit, and that the fullness check of the code is exact for insertions.
\<close>

section \<open>The space an entry takes\<close>

lemma max_meta_34 [simp]: "btree_leaf_get_max_meta = 34"
  by (simp add: btree_leaf_get_max_meta_def)

lemma bigobj_inleaf_bound:
  assumes "length k \<le> big_object_size bt" and "big_object_size bt < 32768"
    and "btree_get_bigobj_inleaf bt (word_of_nat (length k)) d = Some r"
  shows "length k + unat r \<le> big_object_size bt"
proof -
  have k: "length k < 32768" using assms(1,2) by simp
  have "unat (word_of_nat (big_object_size bt) - ucast (word_of_nat (length k) :: u32) :: u64)
      = big_object_size bt - length k"
    using assms(1,2) k by (subst unat_sub) (simp_all add: word_le_nat_alt)
  then have "r = 0 \<or> unat r < big_object_size bt - length k"
    using assms(3) by (auto simp: btree_get_bigobj_inleaf_def Let_def word_less_nat_alt split: if_splits)
  then show ?thesis using assms(1) by auto
qed

lemma entry_ok_space:
  assumes "tree_ok bt" and "entry_ok bt e"
  shows "length (le_key e) + length (le_data e) \<le> big_object_size bt"
proof -
  have b: "big_object_size bt < 32768" using assms(1) by (simp add: tree_ok_def)
  have k: "length (le_key e) \<le> big_object_size bt" "length (le_key e) < 32768"
    using assms by (simp_all add: entry_ok_def tree_ok_def)
  note d = entry_ok_datalen [OF assms]
  show ?thesis
  proof (cases "big_object_kd bt (word_of_nat (length (le_key e))) (le_datalen e)")
    case True
    then have "length (le_key e) + unat (word_of_nat (length (le_data e)) :: u64) \<le> big_object_size bt"
      using d(1) by (intro bigobj_inleaf_bound [OF k(1) b, where d = "le_datalen e"])
        (simp add: datalen_in_leaf_def)
    then show ?thesis by (simp only: d(2))
  next
    case False
    then have dl: "le_datalen e = word_of_nat (length (le_data e))"
      using d by (simp add: datalen_in_leaf_def)
    have "unat (ucast (word_of_nat (length (le_key e)) :: u32) + le_datalen e)
        = length (le_key e) + length (le_data e)"
      using k(2) d(2) assms(2) by (simp add: unat_word_ariths dl entry_ok_def)
    then show ?thesis using False b by (simp add: big_object_kd_def word_le_nat_alt)
  qed
qed

text \<open>Entries that take the same space: only the length of the data and whether there is an
  overflow pointer matter.\<close>

definition same_space :: "leaf_entry \<Rightarrow> leaf_entry \<Rightarrow> bool" where
  "same_space a b \<longleftrightarrow> le_key a = le_key b \<and> le_datalen a = le_datalen b \<and>
     (le_ptr a = 0 \<longleftrightarrow> le_ptr b = 0) \<and> length (le_data a) = length (le_data b)"

lemma same_space_refl [simp]: "same_space a a"
  by (simp add: same_space_def)

lemma same_space_item_type:
  assumes "same_space (fst x) (fst y)" and "snd x = snd y"
  shows "item_type x = item_type y" and "length (item_bytes x) = length (item_bytes y)"
  using assms by (simp_all add: item_type_cases length_item_bytes same_space_def)

lemma same_space_bytes:
  assumes "list_all2 same_space es es'" and "rel_option (\<lambda>x y. same_space (fst x) (fst y) \<and> snd x = snd y) p p'"
  shows "length (items_bytes (layouts bt i p es)) = length (items_bytes (layouts bt i p' es'))"
  using assms
proof (induction es es' arbitrary: i p p' rule: list_all2_induct)
  case Nil
  show ?case by simp
next
  case (Cons e es e' es')
  have l: "layout_step bt i p e = layout_step bt i p' e'"
    using Cons.hyps(1) Cons.prems
    by (cases p; cases p') (auto simp: layout_step_def same_space_def Let_def)
  let ?x = "(e, layout_step bt i p e)" and ?y = "(e', layout_step bt i p' e')"
  have "length (item_bytes ?x) = length (item_bytes ?y)"
    by (rule same_space_item_type) (use Cons.hyps(1) l in simp_all)
  moreover have "length (items_bytes (layouts bt (Suc i) (Some ?x) es))
      = length (items_bytes (layouts bt (Suc i) (Some ?y) es'))"
    by (rule Cons.IH) (use Cons.hyps(1) l in simp)
  ultimately show ?case by (simp add: Let_def)
qed

lemma same_space_leaf_used:
  assumes "same_space e e'" and "i \<le> length es"
  shows "leaf_used bt (insert_at i e es) = leaf_used bt (insert_at i e' es)"
proof -
  have "list_all2 same_space (insert_at i e es) (insert_at i e' es)"
    using assms(1) unfolding insert_at_def
    by (intro list_all2_appendI) (simp_all add: list_all2_same)
  then show ?thesis
    using same_space_bytes [of "insert_at i e es" "insert_at i e' es" None None bt 0] assms(2)
    by (simp add: leaf_used_def)
qed

lemma item_bytes_le:
  "length (item_bytes x) \<le> 34 + length (key_of x) + length (le_data (fst x))"
  using meta_size_le [of "item_type x"] by (simp add: length_item_bytes)

lemma leaf_used_append:
  "leaf_used bt (es @ fs) = leaf_used bt es + length fs * sizeof_entry_header +
     length (items_bytes (layouts bt (length es) (if es = [] then None else Some (last (layouts bt 0 None es))) fs))"
  by (simp add: leaf_used_def layouts_append)

lemma leaf_used_snoc:
  "leaf_used bt (es @ [e]) \<le> leaf_used bt es + 37 + length (le_key e) + length (le_data e)"
  using item_bytes_le [of "(e, layout_step bt (length es) (if es = [] then None else Some (last (layouts bt 0 None es))) e)"]
  by (simp add: leaf_used_append Let_def)

lemma leaf_used_prefix: "leaf_used bt es \<le> leaf_used bt (es @ fs)"
  by (simp add: leaf_used_append)

text \<open>Any four entries fit into a node.\<close>

lemma four_entries_fit:
  assumes "tree_ok bt" and "\<forall>e\<in>set es. entry_ok bt e" and "length es \<le> 4"
  shows "entries_ok bt es"
proof -
  have "leaf_used bt es \<le> length es * (37 + big_object_size bt)"
    using assms(2)
  proof (induction es rule: rev_induct)
    case Nil
    show ?case by (simp add: leaf_used_def)
  next
    case (snoc e es)
    then show ?case
      using leaf_used_snoc [of bt es e] entry_ok_space [OF assms(1), of e] by simp
  qed
  also have "\<dots> \<le> 4 * (37 + big_object_size bt)" using assms(3) by (rule mult_le_mono1)
  also have "\<dots> \<le> nodesize_less_hdr bt" using assms(1) by (simp add: tree_ok_def)
  finally show ?thesis using assms(2) by (simp add: entries_ok_def)
qed

lemma leaf_used_data: "sum_list (map (\<lambda>e. length (le_data e)) es) \<le> leaf_used bt es"
proof (induction es rule: rev_induct)
  case Nil
  show ?case by simp
next
  case (snoc e es)
  then show ?case by (simp add: leaf_used_append Let_def length_item_bytes)
qed

section \<open>The fullness check\<close>

text \<open>A real run goes as the dry run up to the assertion on the used space.\<close>

lemma insert_no_room:
  assumes "btree_leaf_insert_key_index bt n key data datalen ki index True = Some (n, d)"
    and "int (nodesize_less_hdr bt) < int (btree_leaf_used_space n) + d"
  shows "btree_leaf_insert_key_index bt n key data datalen ki index False = None"
  using assms
  unfolding btree_leaf_insert_key_index_def Let_def
  by (auto simp: bind_eq_Some_conv assert_opt_def split: Option.bind_splits if_splits)

lemma is_full_encoded:
  assumes "tree_ok bt" and "entries_ok bt es" and "entry_ok bt e" and "index \<le> length es"
  shows "btree_leaf_is_full_index bt (encode_leaf bt n es) (le_key e) (le_datalen e) meta False index
           = Some (nodesize_less_hdr bt < leaf_used bt (insert_at index e es))"
proof -
  define e0 where "e0 = \<lparr>le_key = le_key e, le_data = replicate (length (le_data e)) 0,
      le_datalen = le_datalen e,
      le_ptr = (if big_object_kd bt (word_of_nat (length (le_key e))) (le_datalen e) then 0xdeadc0de else 0),
      le_seqno = 0, le_tombstone = (md_flags meta AND INSERT_TOMBSTONE \<noteq> 0)\<rparr>"
  have ok: "entry_ok bt e0" using assms(3) by (simp add: entry_ok_def e0_def)
  have sp: "same_space e0 e" using assms(3) by (auto simp: same_space_def e0_def entry_ok_def)
  have len: "length (le_data e) \<le> 16384"
    using entry_ok_space [OF assms(1,3)] assms(1) by (simp add: tree_ok_def)
  have gd: "take (length (le_data e0)) global_tmp_data = le_data e0"
    using len by (simp add: global_tmp_data_def e0_def)
  have lu: "leaf_used bt (insert_at index e0 es) = leaf_used bt (insert_at index e es)"
    by (rule same_space_leaf_used [OF sp assms(4)])
  have ins: "btree_leaf_insert_key_index bt (encode_leaf bt n es) (le_key e) global_tmp_data (le_datalen e)
      \<lparr>ki_key = le_key e, ki_keylen = word_of_nat (length (le_key e)), ki_datalen = le_datalen e,
       ki_ptr = (if big_object_kd bt (word_of_nat (length (le_key e))) (le_datalen e) then 0xdeadc0de else 0),
       ki_seqno = 0, ki_tombstone = (md_flags meta AND INSERT_TOMBSTONE \<noteq> 0)\<rparr> index True
      = Some (encode_leaf bt n es, int (leaf_used bt (insert_at index e es)) - int (leaf_used bt es))"
    using insert_encoded [OF assms(1,2) ok assms(4) gd, of True n] unfolding lu
    by (simp add: entry_info_def e0_def)
  have k: "length (le_key e) < 32768" by (rule entry_ok_keylen [OF assms(1,3)])
  have short: "leaf_used bt (insert_at index e es) \<le> nodesize_less_hdr bt"
    if "length es \<le> index" "btree_leaf_entry_max_size (word_of_nat (length (le_key e)))
        (word_of_nat (length (le_data e))) < int (nodesize_less_hdr bt) - int (leaf_used bt es)"
  proof -
    have "index = length es" using that(1) assms(4) by simp
    then have "insert_at index e es = es @ [e]" by simp
    then show ?thesis
      using that(2) leaf_used_snoc [of bt es e] k entry_ok_datalen(2) [OF assms(1,3)]
      by (simp add: btree_leaf_entry_max_size_def max_meta_size_def)
  qed
  show ?thesis
    using short entry_ok_datalen(1) [OF assms(1,3)]
    unfolding btree_leaf_is_full_index_def Let_def if_False ins used_space_encode by auto
qed

end
