(* ===== verification/Leaf_Moves.thy ===== *)
theory Leaf_Moves
  imports Leaf_Ops
begin

text \<open>
  The operations on two leaf nodes (\<open>src/btree/btree_var_leaf.c\<close>): the split with its choice of the
  split point, copying keys, moving one key, shifting keys to a neighbour and merging; and
  \<open>merge_nodes_leaf\<close> of \<open>src/btree/btree_raw.c\<close>, which merges into a copy first.
\<close>

section \<open>Split\<close>

definition header_off :: "leaf_node \<Rightarrow> nat \<Rightarrow> int" where
  "header_off n i = int (unat (header_offset (ln_headers n ! i)))"

primrec split_idx_down :: "leaf_node \<Rightarrow> int \<Rightarrow> nat \<Rightarrow> nat" where
  "split_idx_down n half_offset 0 = 0"
| "split_idx_down n half_offset (Suc middle_index) =
     (if header_off n middle_index - int sizeof_entry_header \<le> half_offset then middle_index
      else split_idx_down n half_offset middle_index)"

function split_idx_up :: "leaf_node \<Rightarrow> int \<Rightarrow> nat \<Rightarrow> nat" where
  "split_idx_up n half_offset middle_index =
     (if Suc middle_index < nkeys n then
        if half_offset < header_off n (Suc middle_index) + int sizeof_entry_header then middle_index
        else split_idx_up n half_offset (Suc middle_index)
      else middle_index)"
  by pat_completeness auto
termination
  by (relation "measure (\<lambda>(n, _, middle_index). nkeys n - middle_index)") auto

declare split_idx_up.simps [simp del]

definition btree_leaf_find_split_idx :: "leaf_node \<Rightarrow> nat option" where
  "btree_leaf_find_split_idx n =
     (if nkeys n = 0 then None
      else
        let middle_index = nkeys n div 2;
            half_offset = int (btree_leaf_used_space n div 2);
            middle_offset = header_off n middle_index + int (sizeof_entry_header * middle_index);
            m = (if half_offset < middle_offset then split_idx_down n half_offset middle_index
                 else split_idx_up n half_offset middle_index);
            m' = (if int (nkeys n) - 1 \<le> int m then int (nkeys n) - 2 else int m)
        in if m' < 0 then None else Some (nat m'))"

text \<open>The result carries both nodes, the key that separates them with its sequence number, and
  \<open>bytes_increased\<close>.  A \<open>split_key\<close> of 0 leaves the choice to the code.\<close>

definition btree_leaf_split ::
  "btree_raw \<Rightarrow> leaf_node \<Rightarrow> leaf_node \<Rightarrow> nat
    \<Rightarrow> (leaf_node \<times> leaf_node \<times> (mem \<times> u32 \<times> u64) \<times> int) option" where
  "btree_leaf_split bt from_node to_node split_key = do {
     middle_index \<leftarrow> (if split_key \<noteq> 0 then Some (split_key - 1) else btree_leaf_find_split_idx from_node);
     _ \<leftarrow> assert_opt (Suc middle_index < nkeys from_node);
     from_area \<leftarrow> mem_read (ln_area from_node) 0
                   (unat (header_offset (ln_headers from_node ! Suc middle_index)));
     (j, hdrs, impacted) \<leftarrow>
        copy_impacted_keys_to_tmp_buf bt from_node (Suc middle_index) 0 0
          (drop (Suc middle_index) (ln_headers from_node)) None;
     rest \<leftarrow> (if nkeys from_node \<le> j + middle_index + 1 then Some []
             else bytes_from from_node (j + middle_index + 1));
     to1 \<leftarrow> btree_leaf_adjust_offsets bt (to_node\<lparr>ln_headers := hdrs, ln_area := impacted @ rest\<rparr>);
     to2 \<leftarrow> btree_leaf_adjust_prefix_idxes to1 0 (int (nkeys to1) - 1) 0 (- int (Suc middle_index));
     key_out \<leftarrow> btree_leaf_get_nth_key from_node middle_index;
     let from2 = from_node\<lparr>ln_headers := take (Suc middle_index) (ln_headers from_node),
                           ln_area := from_area\<rparr>;
     Some (from2, to2, key_out,
           int (btree_leaf_used_space from2 + btree_leaf_used_space to2)
             - int (btree_leaf_used_space from_node))
   }"

section \<open>Copying and moving keys\<close>

definition default_meta :: btree_metadata where
  "default_meta = \<lparr>md_flags = 0, md_seqno = 0, md_start_seqno = 0, md_end_seqno = 0\<rparr>"

text \<open>The loop of \<open>btree_leaf_copy_keys\<close> from key \<open>i\<close> on, \<open>todo\<close> keys being left.\<close>

primrec copy_keys_loop ::
  "btree_raw \<Rightarrow> leaf_node \<Rightarrow> nat \<Rightarrow> nat \<Rightarrow> nat \<Rightarrow> nat \<Rightarrow> nat \<Rightarrow> leaf_node \<Rightarrow> (leaf_node \<times> nat) option" where
  "copy_keys_loop bt from_node from_index to_index size_limit 0 i to_node = Some (to_node, i)"
| "copy_keys_loop bt from_node from_index to_index size_limit (Suc todo) i to_node = do {
     ki \<leftarrow> btree_leaf_get_nth_key_info from_node (from_index + i);
     (tmp_data, tmp_datalen) \<leftarrow> btree_leaf_get_data_nth_key from_node (from_index + i);
     full \<leftarrow> btree_leaf_is_full_index bt to_node (ki_key ki) (ki_datalen ki) default_meta False
               (to_index + i);
     if full then Some (to_node, i)
     else do {
       (to', _) \<leftarrow> btree_leaf_insert_key_index bt to_node (ki_key ki) tmp_data tmp_datalen ki
                    (to_index + i) False;
       if size_limit \<noteq> 0 \<and> size_limit \<le> btree_leaf_used_space to' then Some (to', Suc i)
       else copy_keys_loop bt from_node from_index to_index size_limit todo (Suc i) to'
     }
   }"

definition btree_leaf_copy_keys ::
  "btree_raw \<Rightarrow> leaf_node \<Rightarrow> nat \<Rightarrow> leaf_node \<Rightarrow> nat \<Rightarrow> nat \<Rightarrow> nat \<Rightarrow> (leaf_node \<times> nat) option" where
  "btree_leaf_copy_keys bt from_node from_index to_node to_index num_keys size_limit =
     copy_keys_loop bt from_node from_index to_index size_limit num_keys 0 to_node"

text \<open>The new source and target node.\<close>

definition btree_leaf_move_key ::
  "btree_raw \<Rightarrow> leaf_node \<Rightarrow> nat \<Rightarrow> leaf_node \<Rightarrow> nat \<Rightarrow> (leaf_node \<times> leaf_node) option" where
  "btree_leaf_move_key bt from from_idx to to_idx = do {
     ki \<leftarrow> btree_leaf_get_nth_key_info2 from from_idx;
     (tmp_data, tmp_datalen) \<leftarrow> btree_leaf_get_data_nth_key from from_idx;
     (to', _) \<leftarrow> btree_leaf_insert_key_index bt to (ki_key ki) tmp_data tmp_datalen ki to_idx False;
     (from', _) \<leftarrow> btree_leaf_remove_key_index bt from from_idx;
     Some (from', to')
   }"

section \<open>Shifting keys between neighbours\<close>

text \<open>Move keys back from the end of \<open>to_node\<close> while its last key is too long for the parent.\<close>

primrec shift_left_back ::
  "btree_raw \<Rightarrow> nat \<Rightarrow> nat \<Rightarrow> leaf_node \<Rightarrow> leaf_node \<Rightarrow> (leaf_node \<times> leaf_node \<times> nat) option" where
  "shift_left_back bt max_keylen 0 tmp_from to_node = do {
     ki \<leftarrow> btree_leaf_get_nth_key_info2 to_node (nkeys to_node - 1);
     Some (tmp_from, to_node, 0)
   }"
| "shift_left_back bt max_keylen (Suc keys_moved) tmp_from to_node = do {
     ki \<leftarrow> btree_leaf_get_nth_key_info2 to_node (nkeys to_node - 1);
     if max_keylen < unat (ki_keylen ki) then do {
       (to', tmp') \<leftarrow> btree_leaf_move_key bt to_node (nkeys to_node - 1) tmp_from 0;
       shift_left_back bt max_keylen keys_moved tmp' to'
     }
     else Some (tmp_from, to_node, Suc keys_moved)
   }"

text \<open>Both nodes and, if keys were moved, the last key of the left node.\<close>

definition btree_leaf_shift_left ::
  "btree_raw \<Rightarrow> leaf_node \<Rightarrow> leaf_node \<Rightarrow> nat \<Rightarrow> (leaf_node \<times> leaf_node \<times> key_info option) option" where
  "btree_leaf_shift_left bt from_node to_node max_keylen = do {
     let tmp0 = btree_leaf_init from_node;
     let avg_size = (btree_leaf_used_space from_node + btree_leaf_used_space to_node) div 2;
     let nkeys_from = nkeys from_node;
     let nkeys_to = nkeys to_node;
     (to1, keys_copied) \<leftarrow> btree_leaf_copy_keys bt from_node 0 to_node nkeys_to nkeys_from avg_size;
     (tmp1, _) \<leftarrow> btree_leaf_copy_keys bt from_node keys_copied tmp0 0 (nkeys_from - keys_copied) 0;
     (tmp2, to2, keys_moved) \<leftarrow> shift_left_back bt max_keylen keys_copied tmp1 to1;
     let from' = from_node\<lparr>ln_headers := ln_headers tmp2, ln_area := ln_area tmp2\<rparr>;
     if keys_moved = 0 then Some (from', to2, None)
     else do {
       ki \<leftarrow> btree_leaf_get_nth_key_info to2 (nkeys to2 - 1);
       Some (from', to2, Some ki)
     }
   }"

primrec shift_right_loop ::
  "btree_raw \<Rightarrow> nat \<Rightarrow> nat \<Rightarrow> nat \<Rightarrow> leaf_node \<Rightarrow> leaf_node \<Rightarrow> (leaf_node \<times> leaf_node \<times> nat) option" where
  "shift_right_loop bt avg_size 0 keys_moved from_node to_node = Some (from_node, to_node, keys_moved)"
| "shift_right_loop bt avg_size (Suc copy_idx) keys_moved from_node to_node = do {
     ki \<leftarrow> btree_leaf_get_nth_key_info2 from_node (Suc copy_idx);
     full \<leftarrow> btree_leaf_is_full_index bt to_node (ki_key ki) (ki_datalen ki) default_meta False 0;
     if full then Some (from_node, to_node, keys_moved)
     else do {
       (from', to') \<leftarrow> btree_leaf_move_key bt from_node (Suc copy_idx) to_node 0;
       if avg_size < btree_leaf_used_space to' then Some (from', to', Suc keys_moved)
       else shift_right_loop bt avg_size copy_idx (Suc keys_moved) from' to'
     }
   }"

primrec shift_right_back ::
  "btree_raw \<Rightarrow> nat \<Rightarrow> nat \<Rightarrow> leaf_node \<Rightarrow> leaf_node \<Rightarrow> (leaf_node \<times> leaf_node \<times> nat) option" where
  "shift_right_back bt max_keylen 0 from_node to_node = do {
     ki \<leftarrow> btree_leaf_get_nth_key_info2 from_node (nkeys from_node - 1);
     Some (from_node, to_node, 0)
   }"
| "shift_right_back bt max_keylen (Suc keys_moved) from_node to_node = do {
     ki \<leftarrow> btree_leaf_get_nth_key_info2 from_node (nkeys from_node - 1);
     if max_keylen < unat (ki_keylen ki) then do {
       (to', from') \<leftarrow> btree_leaf_move_key bt to_node 0 from_node (nkeys from_node);
       shift_right_back bt max_keylen keys_moved from' to'
     }
     else Some (from_node, to_node, Suc keys_moved)
   }"

definition btree_leaf_shift_right ::
  "btree_raw \<Rightarrow> leaf_node \<Rightarrow> leaf_node \<Rightarrow> nat \<Rightarrow> (leaf_node \<times> leaf_node \<times> key_info option) option" where
  "btree_leaf_shift_right bt from_node to_node max_keylen = do {
     let avg_size = (btree_leaf_used_space from_node + btree_leaf_used_space to_node) div 2;
     (from1, to1, moved1) \<leftarrow> shift_right_loop bt avg_size (nkeys from_node - 1) 0 from_node to_node;
     (from2, to2, moved2) \<leftarrow> shift_right_back bt max_keylen moved1 from1 to1;
     if moved2 = 0 then Some (from2, to2, None)
     else do {
       ki \<leftarrow> btree_leaf_get_nth_key_info from2 (nkeys from2 - 1);
       Some (from2, to2, Some ki)
     }
   }"

section \<open>Merging neighbours\<close>

text \<open>The nodes keep what was copied even when not everything fits and the result is \<open>False\<close>.\<close>

definition btree_leaf_merge_left ::
  "btree_raw \<Rightarrow> leaf_node \<Rightarrow> leaf_node \<Rightarrow> (leaf_node \<times> leaf_node \<times> bool) option" where
  "btree_leaf_merge_left bt from_node to_node = do {
     (to', keys_copied) \<leftarrow> btree_leaf_copy_keys bt from_node 0 to_node (nkeys to_node)
                            (nkeys from_node) (nodesize_less_hdr bt);
     if keys_copied \<noteq> nkeys from_node then Some (from_node, to', False)
     else Some (from_node\<lparr>ln_headers := [], ln_area := []\<rparr>, to'\<lparr>ln_next := ln_next from_node\<rparr>, True)
   }"

definition btree_leaf_merge_right ::
  "btree_raw \<Rightarrow> leaf_node \<Rightarrow> leaf_node \<Rightarrow> (leaf_node \<times> leaf_node) option" where
  "btree_leaf_merge_right bt from_node to_node = do {
     let tmp0 = btree_leaf_init to_node;
     (tmp1, _) \<leftarrow> btree_leaf_copy_keys bt from_node 0 tmp0 0 (nkeys from_node) 0;
     (tmp2, _) \<leftarrow> btree_leaf_copy_keys bt to_node 0 tmp1 (nkeys from_node) (nkeys to_node) 0;
     Some (from_node\<lparr>ln_headers := [], ln_area := []\<rparr>,
           to_node\<lparr>ln_headers := ln_headers tmp2, ln_area := ln_area tmp2\<rparr>)
   }"

text \<open>Both nodes, the change of \<open>BTSTAT_LEAF_BYTES\<close>, and the verdict.\<close>

definition merge_nodes_leaf ::
  "btree_raw \<Rightarrow> leaf_node \<Rightarrow> leaf_node \<Rightarrow> (leaf_node \<times> leaf_node \<times> int \<times> bool) option" where
  "merge_nodes_leaf bt from to = do {
     let old_used_space = btree_leaf_used_space from + btree_leaf_used_space to;
     (from', tmp_node, res) \<leftarrow> btree_leaf_merge_left bt from to;
     if \<not> res then Some (from', to, 0, False)
     else Some (from', tmp_node, int (btree_leaf_used_space tmp_node) - int old_used_space, True)
   }"

definition equalize_keys_leaf ::
  "btree_raw \<Rightarrow> leaf_node \<Rightarrow> leaf_node \<Rightarrow> nat \<Rightarrow> bool
    \<Rightarrow> (leaf_node \<times> leaf_node \<times> key_info option \<times> int) option" where
  "equalize_keys_leaf bt from to max_anchor_keylen left = do {
     let old_used_space = btree_leaf_used_space from + btree_leaf_used_space to;
     (from', to', ki) \<leftarrow> (if left then btree_leaf_shift_left bt from to max_anchor_keylen
                         else btree_leaf_shift_right bt from to max_anchor_keylen);
     Some (from', to', ki,
           if ki = None then 0
           else int (btree_leaf_used_space from' + btree_leaf_used_space to') - int old_used_space)
   }"

end
