(* ===== verification/Leaf_Merge.thy ===== *)
theory Leaf_Merge
  imports Leaf_Space Leaf_Moves
begin

text \<open>
  Copying keys to the end of a node and merging two nodes: the copy stops at the first key that
  does not fit, so a merge succeeds exactly if the joined contents fit.
\<close>

section \<open>Copying keys\<close>

lemma entries_ok_prefix: "entries_ok bt (es @ fs) \<Longrightarrow> entries_ok bt es"
  using leaf_used_prefix [of bt es fs] by (simp add: entries_ok_def)

lemma entries_ok_take: "entries_ok bt es \<Longrightarrow> entries_ok bt (take k es)"
  by (rule entries_ok_prefix [where fs = "drop k es"]) simp

lemma entries_ok_nth: "entries_ok bt es \<Longrightarrow> i < length es \<Longrightarrow> entry_ok bt (es ! i)"
  by (simp add: entries_ok_def)

lemma copy_keys_loop_encoded:
  assumes "tree_ok bt" and "entries_ok bt es"
    and "entries_ok bt us" and "length us = to_index + i" and "from_index + i + todo \<le> length es"
  shows "\<exists>k\<le>todo. copy_keys_loop bt (encode_leaf bt n es) from_index to_index size_limit todo i (encode_leaf bt n' us)
      = Some (encode_leaf bt n' (us @ take k (drop (from_index + i) es)), i + k) \<and>
    entries_ok bt (us @ take k (drop (from_index + i) es)) \<and>
    (k < todo \<longrightarrow> nodesize_less_hdr bt < leaf_used bt (us @ take (Suc k) (drop (from_index + i) es)) \<or>
       size_limit \<noteq> 0 \<and> size_limit \<le> leaf_used bt (us @ take k (drop (from_index + i) es)))"
  using assms(3-5)
proof (induction todo arbitrary: i us)
  case 0
  then show ?case by simp
next
  case (Suc todo)
  define j where "j = from_index + i"
  have j: "j < length es" using Suc.prems(3) by (simp add: j_def)
  define e where "e = es ! j"
  have e: "entry_ok bt e" using entries_ok_nth [OF assms(2) j] by (simp add: e_def)
  have d: "drop j es = e # drop (Suc j) es" using j by (simp add: e_def Cons_nth_drop_Suc)
  have info: "btree_leaf_get_nth_key_info (encode_leaf bt n es) (from_index + i) = Some (entry_info e)"
    using encoded_nth_info [OF assms(1,2) j] by (simp add: e_def j_def)
  obtain rest where data: "btree_leaf_get_data_nth_key (encode_leaf bt n es) (from_index + i)
      = Some (le_data e @ rest, le_datalen e)"
    using encoded_data [OF assms(1,2) j] by (auto simp: e_def j_def)
  have at: "to_index + i = length us" using Suc.prems(2) by simp
  have full: "btree_leaf_is_full_index bt (encode_leaf bt n' us) (le_key e) (le_datalen e) default_meta False (to_index + i)
      = Some (nodesize_less_hdr bt < leaf_used bt (us @ [e]))"
    using is_full_encoded [OF assms(1) Suc.prems(1) e, of "length us" n' default_meta] by (simp add: at)
  show ?case
  proof (cases "nodesize_less_hdr bt < leaf_used bt (us @ [e])")
    case True
    then show ?thesis
      using info data full Suc.prems(1) d by (intro exI [of _ 0]) (simp add: j_def)
  next
    case False
    then have ok: "entries_ok bt (us @ [e])" using Suc.prems(1) e by (simp add: entries_ok_def)
    have ins: "btree_leaf_insert_key_index bt (encode_leaf bt n' us) (le_key e) (le_data e @ rest) (le_datalen e)
        (entry_info e) (to_index + i) False =
        Some (encode_leaf bt n' (us @ [e]), int (leaf_used bt (us @ [e])) - int (leaf_used bt us))"
      using insert_encoded [OF assms(1) Suc.prems(1) e, of "length us" "le_data e @ rest" False n'] False
      by (simp add: at)
    show ?thesis
    proof (cases "size_limit \<noteq> 0 \<and> size_limit \<le> leaf_used bt (us @ [e])")
      case True
      then show ?thesis
        using info data full ins False ok d
        by (intro exI [of _ 1]) (simp add: used_space_encode j_def)
    next
      case cont: False
      have loop: "copy_keys_loop bt (encode_leaf bt n es) from_index to_index size_limit (Suc todo) i (encode_leaf bt n' us)
          = copy_keys_loop bt (encode_leaf bt n es) from_index to_index size_limit todo (Suc i) (encode_leaf bt n' (us @ [e]))"
        using info data full ins False cont by (auto simp: used_space_encode)
      from Suc.IH [OF ok, of "Suc i"] Suc.prems(2,3) obtain k where k: "k \<le> todo"
        "copy_keys_loop bt (encode_leaf bt n es) from_index to_index size_limit todo (Suc i) (encode_leaf bt n' (us @ [e]))
          = Some (encode_leaf bt n' (us @ e # take k (drop (Suc j) es)), Suc i + k)"
        "entries_ok bt (us @ e # take k (drop (Suc j) es))"
        "k < todo \<longrightarrow> nodesize_less_hdr bt < leaf_used bt (us @ e # take (Suc k) (drop (Suc j) es)) \<or>
          size_limit \<noteq> 0 \<and> size_limit \<le> leaf_used bt (us @ e # take k (drop (Suc j) es))"
        by (auto simp: j_def)
      then show ?thesis
        unfolding loop j_def [symmetric] d by (intro exI [of _ "Suc k"]) simp
    qed
  qed
qed

lemma copy_keys_encoded:
  assumes "tree_ok bt" and "entries_ok bt es" and "entries_ok bt ts" and "from_index + num \<le> length es"
    and "to_index = length ts"
  obtains k where "k \<le> num"
    and "btree_leaf_copy_keys bt (encode_leaf bt n es) from_index (encode_leaf bt n' ts) to_index num size_limit
      = Some (encode_leaf bt n' (ts @ take k (drop from_index es)), k)"
    and "entries_ok bt (ts @ take k (drop from_index es))"
    and "k < num \<Longrightarrow> nodesize_less_hdr bt < leaf_used bt (ts @ take (Suc k) (drop from_index es)) \<or>
       size_limit \<noteq> 0 \<and> size_limit \<le> leaf_used bt (ts @ take k (drop from_index es))"
  using copy_keys_loop_encoded [OF assms(1-3), of to_index 0 from_index num n size_limit n'] assms(4,5) that
  by (auto simp: btree_leaf_copy_keys_def)

section \<open>Merging\<close>

lemma leaf_used_strict: "fs \<noteq> [] \<Longrightarrow> leaf_used bt es < leaf_used bt (es @ fs)"
  by (simp add: leaf_used_append)

lemma leaf_used_take_mono: "j \<le> k \<Longrightarrow> leaf_used bt (ts @ take j es) \<le> leaf_used bt (ts @ take k es)"
  using leaf_used_prefix [of bt "ts @ take j es" "drop j (take k es)"]
  by (metis append.assoc append_take_drop_id min.absorb1 take_take)

lemma copy_all_encoded:
  assumes "tree_ok bt" and "entries_ok bt es" and "entries_ok bt (ts @ es)"
    and "size_limit = 0 \<or> nodesize_less_hdr bt \<le> size_limit" and "to_index = length ts" and "num = length es"
  shows "btree_leaf_copy_keys bt (encode_leaf bt n es) 0 (encode_leaf bt n' ts) to_index num size_limit
      = Some (encode_leaf bt n' (ts @ es), length es)"
proof -
  obtain k where k: "k \<le> length es"
    "btree_leaf_copy_keys bt (encode_leaf bt n es) 0 (encode_leaf bt n' ts) to_index num size_limit
      = Some (encode_leaf bt n' (ts @ take k es), k)"
    "k < length es \<Longrightarrow> nodesize_less_hdr bt < leaf_used bt (ts @ take (Suc k) es) \<or>
       size_limit \<noteq> 0 \<and> size_limit \<le> leaf_used bt (ts @ take k es)"
    using copy_keys_encoded [OF assms(1,2) entries_ok_prefix [OF assms(3)], of 0 num to_index n n' size_limit]
      assms(5,6) by auto
  have "\<not> k < length es"
  proof
    assume lt: "k < length es"
    then have "leaf_used bt (ts @ take k es) < leaf_used bt (ts @ es)"
      using leaf_used_strict [of "drop k es" bt "ts @ take k es"] by simp
    moreover have "leaf_used bt (ts @ take (Suc k) es) \<le> leaf_used bt (ts @ es)"
      using leaf_used_take_mono [of "Suc k" "length es" bt ts es] lt by simp
    ultimately show False using k(3) [OF lt] assms(3,4) by (auto simp: entries_ok_def)
  qed
  then show ?thesis using k(1,2) by simp
qed

lemma encode_leaf_clear: "(encode_leaf bt n es)\<lparr>ln_headers := [], ln_area := []\<rparr> = encode_leaf bt n []"
  by (simp add: encode_leaf_def Let_def)

lemma encode_leaf_next: "(encode_leaf bt n es)\<lparr>ln_next := q\<rparr> = encode_leaf bt (n\<lparr>ln_next := q\<rparr>) es"
  by (simp add: encode_leaf_def Let_def)

lemma encode_leaf_fields [simp]:
  "ln_next (encode_leaf bt n es) = ln_next n" "ln_flags (encode_leaf bt n es) = ln_flags n"
  "ln_logical_id (encode_leaf bt n es) = ln_logical_id n" "ln_rightmost (encode_leaf bt n es) = ln_rightmost n"
  by (simp_all add: encode_leaf_def Let_def)

lemma encode_leaf_init: "btree_leaf_init (encode_leaf bt n es) = encode_leaf bt (btree_leaf_init n) []"
  by (simp add: btree_leaf_init_def encode_leaf_def Let_def)

lemma encode_leaf_transfer:
  "(encode_leaf bt n es)\<lparr>ln_headers := ln_headers (encode_leaf bt n' fs), ln_area := ln_area (encode_leaf bt n' fs)\<rparr>
     = encode_leaf bt n fs"
  by (simp add: encode_leaf_def Let_def)

lemma entries_ok_Nil [simp]: "entries_ok bt []"
  by (simp add: entries_ok_def leaf_used_def)

lemma merge_left_encoded:
  assumes "tree_ok bt" and "entries_ok bt es" and "entries_ok bt ts"
  obtains k where "k \<le> length es" and "entries_ok bt (ts @ take k es)"
    and "btree_leaf_merge_left bt (encode_leaf bt n es) (encode_leaf bt n' ts) = Some
      (if leaf_used bt (ts @ es) \<le> nodesize_less_hdr bt
       then (encode_leaf bt n [], encode_leaf bt (n'\<lparr>ln_next := ln_next n\<rparr>) (ts @ es), True)
       else (encode_leaf bt n es, encode_leaf bt n' (ts @ take k es), False))"
proof (cases "leaf_used bt (ts @ es) \<le> nodesize_less_hdr bt")
  case True
  then have ok: "entries_ok bt (ts @ es)" using assms(2,3) by (auto simp: entries_ok_def)
  have "btree_leaf_merge_left bt (encode_leaf bt n es) (encode_leaf bt n' ts) =
      Some (encode_leaf bt n [], encode_leaf bt (n'\<lparr>ln_next := ln_next n\<rparr>) (ts @ es), True)"
    using copy_all_encoded [OF assms(1,2) ok, of "nodesize_less_hdr bt"]
    by (simp add: btree_leaf_merge_left_def encode_leaf_clear encode_leaf_next)
  then show thesis using that [of "length es"] ok True by simp
next
  case False
  obtain k where k: "k \<le> length es" "entries_ok bt (ts @ take k es)"
    "btree_leaf_copy_keys bt (encode_leaf bt n es) 0 (encode_leaf bt n' ts) (length ts) (length es) (nodesize_less_hdr bt)
      = Some (encode_leaf bt n' (ts @ take k es), k)"
    using copy_keys_encoded [OF assms, of 0 "length es" "length ts" n n' "nodesize_less_hdr bt"] by auto
  have "k \<noteq> length es" using k(2) False by (auto simp: entries_ok_def)
  then show thesis using that [of k] k False by (simp add: btree_leaf_merge_left_def)
qed

end
