(* ===== verification/Leaf_Split.thy ===== *)
theory Leaf_Split
  imports Leaf_Merge
begin

text \<open>
  The split: the chosen index leaves both halves non-empty, and the halves are the encodings of
  the two parts of the contents.
\<close>

section \<open>Split\<close>

lemma split_idx_down_le: "split_idx_down n h m \<le> m"
  by (induction m) auto

lemma split_idx_up_bounds: "m < nkeys n \<Longrightarrow> m \<le> split_idx_up n h m \<and> split_idx_up n h m < nkeys n"
proof (induction n h m rule: split_idx_up.induct)
  case (1 n h m)
  then show ?case by (subst (1 2) split_idx_up.simps) auto
qed

lemma find_split_idx_bound:
  assumes "2 \<le> nkeys n"
  obtains m where "btree_leaf_find_split_idx n = Some m" and "Suc m < nkeys n"
proof -
  define half where "half = int (btree_leaf_used_space n div 2)"
  define m where "m = (if half < header_off n (nkeys n div 2) + int (sizeof_entry_header * (nkeys n div 2))
      then split_idx_down n half (nkeys n div 2) else split_idx_up n half (nkeys n div 2))"
  define m' where "m' = (if int (nkeys n) - 1 \<le> int m then int (nkeys n) - 2 else int m)"
  have "m' \<ge> 0" "m' < int (nkeys n) - 1" using assms by (auto simp: m'_def)
  moreover have "btree_leaf_find_split_idx n = Some (nat m')"
    using assms \<open>m' \<ge> 0\<close> by (auto simp: btree_leaf_find_split_idx_def Let_def m'_def m_def half_def)
  ultimately show thesis using that [of "nat m'"] by auto
qed

lemma layout_step_pidx_0:
  assumes "pidx p = 0" and "plen p = 0 \<Longrightarrow> i = 1"
  shows "lay_pidx (layout_step bt i (Some p) e) = 0"
  using assms by (auto simp: layout_step_def Let_def)

text \<open>The entries that a split re-encodes refer to the first one, so the pass that moves the prefix
  indices of the whole new node leaves them alone.\<close>

lemma copied_pidx_0:
  assumes "canonical bt xs" and "ys = layouts bt 0 None (drop f (map fst xs))" and "0 < f" and "f \<le> length xs"
    and "\<forall>j<m. 0 < j \<longrightarrow> \<not> (plen (xs ! (f + j)) = 0 \<and> plen (ys ! j) = 0)"
    and "j < m" and "m \<le> length ys"
  shows "pidx (ys ! j) = 0 \<and> (0 < j \<longrightarrow> 0 < plen (ys ! j))"
  using assms(6)
proof (induction j)
  case 0
  have c: "canonical bt ys" by (simp add: assms(2))
  have "0 < length ys" using assms(6,7) by linarith
  then have "snd (ys ! 0) = no_prefix" using canonical_nth [OF c, of 0] by simp
  then show ?case by simp
next
  case (Suc j)
  have c: "canonical bt ys" by (simp add: assms(2))
  have l: "Suc j < length ys" "f + Suc j < length xs" using Suc.prems assms(2,7) by simp_all
  have y: "snd (ys ! Suc j) = layout_step bt (Suc j) (Some (ys ! j)) (fst (ys ! Suc j))"
    using canonical_nth [OF c l(1)] by simp
  have x: "snd (xs ! (f + Suc j)) = layout_step bt (f + Suc j) (Some (xs ! (f + j))) (fst (xs ! (f + Suc j)))"
    using canonical_nth [OF assms(1) l(2)] by simp
  have fs: "fst (ys ! Suc j) = fst (xs ! (f + Suc j))" "fst (ys ! j) = fst (xs ! (f + j))"
    using l by (simp_all add: assms(2))
  have "plen (ys ! Suc j) = 0 \<longleftrightarrow> plen (xs ! (f + Suc j)) = 0"
    unfolding y x layout_step_common fs by simp
  then have "0 < plen (ys ! Suc j)" using assms(5) Suc.prems by auto
  moreover have "pidx (ys ! Suc j) = 0"
    unfolding y by (rule layout_step_pidx_0) (use Suc in auto)
  ultimately show ?case by simp
qed

lemma shift_item_pidx_0: "pidx x = 0 \<Longrightarrow> shift_item 0 s x = x"
  by (simp add: shift_item_def)

lemma encode_leaf_take:
  assumes "tree_ok bt" and "entries_ok bt es" and "k < length es"
  shows "mem_read (ln_area (encode_leaf bt n es)) 0
           (unat (header_offset (ln_headers (encode_leaf bt n es) ! k))) = Some (ln_area (encode_leaf bt n (take k es)))"
    and "take k (ln_headers (encode_leaf bt n es)) = ln_headers (encode_leaf bt n (take k es))"
proof -
  let ?xs = "layouts bt 0 None es"
  have "unat (header_offset (ln_headers (encode_leaf bt n es) ! k)) = offs ?xs k"
    using node_upto_header(3) [OF node_items_upto [OF encode_leaf_items] le_refl _ entries_ok_bytes [OF assms(1,2)], of k n]
      assms(3) by simp
  then show "mem_read (ln_area (encode_leaf bt n es)) 0
           (unat (header_offset (ln_headers (encode_leaf bt n es) ! k))) = Some (ln_area (encode_leaf bt n (take k es)))"
    using read_items_prefix [of ?xs k] by (simp add: encode_leaf_def Let_def take_layouts)
  show "take k (ln_headers (encode_leaf bt n es)) = ln_headers (encode_leaf bt n (take k es))"
    by (simp add: encode_leaf_def Let_def take_item_headers take_layouts)
qed

lemma split_copied:
  assumes "tree_ok bt" and "entries_ok bt es" and "f = Suc i" and "f < length es" and "entries_ok bt (drop f es)"
    and "nd = encode_leaf bt n es"
  obtains j hdrs impacted rest where
    "copy_impacted_keys_to_tmp_buf bt nd f 0 0 (drop f (ln_headers nd)) None = Some (j, hdrs, impacted)"
    and "(if nkeys nd \<le> j + i + 1 then Some [] else bytes_from nd (j + i + 1)) = Some rest"
    and "\<forall>to_node. Option.bind (btree_leaf_adjust_offsets bt (to_node\<lparr>ln_headers := hdrs, ln_area := impacted @ rest\<rparr>))
      (\<lambda>to1. btree_leaf_adjust_prefix_idxes to1 0 (int (nkeys to1) - 1) 0 (- int f))
      = Some (encode_leaf bt to_node (drop f es))"
proof -
  define xs where "xs = layouts bt 0 None es"
  define ys where "ys = layouts bt 0 None (drop f es)"
  have can: "canonical bt xs" and ok: "items_ok bt xs" and ni: "node_items nd xs" and lb: "length (items_bytes xs) < 65536"
    using entries_ok_items [OF assms(1,2)] entries_ok_bytes [OF assms(1,2)] encode_leaf_items
    by (simp_all add: xs_def assms(6))
  have lx: "length xs = length es" "drop f (map fst xs) = drop f es" by (simp_all add: xs_def)
  have nk: "nkeys nd = length xs" by (simp add: assms(6) xs_def)
  have hn: "ln_headers nd = item_headers 0 xs" using ni by (simp add: node_items_def)
  have ys: "ys = layouts bt 0 None (drop f (map fst xs))" by (simp add: ys_def lx)
  obtain m hdrs where m: "m \<le> length ys"
    "copy_impacted_keys_to_tmp_buf bt nd f 0 0 (drop f (ln_headers nd)) None = Some (m, hdrs, items_bytes (take m ys))"
    "drop m ys = map (shift_item 0 (- int f)) (drop (f + m) xs)"
    "f + m < length xs \<Longrightarrow> \<not> lay_compact (snd (xs ! (f + m)))"
    "\<forall>j<m. 0 < j \<longrightarrow> \<not> (plen (xs ! (f + j)) = 0 \<and> plen (ys ! j) = 0)"
    "retyped 0 (take m ys) (drop f (ln_headers nd)) hdrs"
    by (rule copy_impacted_none [OF assms(1) can ok ni lb, of 0 f 0 "drop f (ln_headers nd)" "- int f" ys 0])
      (use assms(3,4) nk lx ys in simp_all)
  let ?w = "take m ys @ drop (f + m) xs"
  have my: "map fst ys = drop f (map fst xs)" by (simp add: ys_def lx)
  have hd: "map meta_type (drop f (ln_headers nd)) = map item_type ([] @ drop f xs)"
    "map tombstone (drop f (ln_headers nd)) = map (\<lambda>x. le_tombstone (fst x)) ([] @ drop f xs)"
    by (simp_all add: hn)
  have h: "map meta_type hdrs = map item_type ?w" "map tombstone hdrs = map (\<lambda>x. le_tombstone (fst x)) ?w"
    using copied_headers [OF hd my m(1) _ m(3), of hdrs] m(6) by simp_all
  have oky: "items_ok bt ys" unfolding ys_def by (rule entries_ok_items [OF assms(1,5)])
  have w: "ys = map (shift_item 0 (- int f)) ?w"
  proof -
    have "pidx (ys ! j) = 0" if "j < m" for j
      using copied_pidx_0 [OF can ys _ _ m(5) that m(1)] assms(3,4) lx(1) by simp
    then have "map (shift_item 0 (- int f)) (take m ys) = take m ys"
      by (intro nth_equalityI) (simp_all add: shift_item_pidx_0)
    then show ?thesis using m(3) by (metis append_take_drop_id map_append)
  qed
  have okw: "items_ok bt ?w"
    by (rule items_ok_unshifted [where b = 0 and s = "- int f"]) (use oky m(3,4) ok append_take_drop_id [of m ys] in auto)
  have nc: "\<not> lay_compact (snd (?w ! 0))" if "0 < length ?w"
    using oky that w unfolding items_ok_def by (metis length_map less_irrefl nth_map shift_item_simps(3))
  have lw: "length (items_bytes ?w) < 65536"
    using entries_ok_bytes [OF assms(1,5)] arg_cong [OF w, of "\<lambda>z. length (items_bytes z)"] by (simp add: ys_def)
  have fin: "Option.bind (btree_leaf_adjust_offsets bt (to_node\<lparr>ln_headers := hdrs, ln_area := items_bytes ?w\<rparr>))
      (\<lambda>to1. btree_leaf_adjust_prefix_idxes to1 0 (int (length ?w) - 1) 0 (- int f))
      = Some (encode_leaf bt to_node (drop f es))" for to_node
    using finish_items [OF assms(1) okw _ nc, of "[]" 0 "- int f" hdrs 0 "int (length ?w) - 1" ys "items_bytes ?w" to_node]
      lw h oky w by (simp add: encode_leaf_def Let_def ys_def)
  have hl: "length hdrs = length ?w" using arg_cong [OF h(1), of length] by simp
  show thesis
  proof (rule that [OF m(2)])
    show "(if nkeys nd \<le> m + i + 1 then Some [] else bytes_from nd (m + i + 1))
        = Some (items_bytes (drop (f + m) xs))"
      using bytes_from_items [OF ni _ lb, of "f + m"] assms(3) nk by (simp add: add.commute)
    have nk1: "nkeys to1 = length ?w"
      if "btree_leaf_adjust_offsets bt (to_node\<lparr>ln_headers := hdrs, ln_area := items_bytes ?w\<rparr>) = Some to1" for to1 to_node
      using that adjust_offsets_items [OF assms(1) okw lw, of "to_node\<lparr>ln_headers := hdrs, ln_area := items_bytes ?w\<rparr>"]
        hl map_pair_eq [OF h] by auto
    show "\<forall>to_node. Option.bind (btree_leaf_adjust_offsets bt (to_node\<lparr>ln_headers := hdrs,
          ln_area := items_bytes (take m ys) @ items_bytes (drop (f + m) xs)\<rparr>))
        (\<lambda>to1. btree_leaf_adjust_prefix_idxes to1 0 (int (nkeys to1) - 1) 0 (- int f))
        = Some (encode_leaf bt to_node (drop f es))"
    proof
      fix to_node
      obtain to1 where "btree_leaf_adjust_offsets bt (to_node\<lparr>ln_headers := hdrs, ln_area := items_bytes ?w\<rparr>) = Some to1"
        "btree_leaf_adjust_prefix_idxes to1 0 (int (length ?w) - 1) 0 (- int f) = Some (encode_leaf bt to_node (drop f es))"
        using fin [of to_node] by (auto simp: bind_eq_Some_conv)
      then show "Option.bind (btree_leaf_adjust_offsets bt (to_node\<lparr>ln_headers := hdrs,
          ln_area := items_bytes (take m ys) @ items_bytes (drop (f + m) xs)\<rparr>))
        (\<lambda>to1. btree_leaf_adjust_prefix_idxes to1 0 (int (nkeys to1) - 1) 0 (- int f))
        = Some (encode_leaf bt to_node (drop f es))"
        using nk1 [of to_node to1] by simp
    qed
  qed
qed

lemma split_encoded:
  assumes "tree_ok bt" and "entries_ok bt es" and "Suc m < length es"
    and "(if split_key \<noteq> 0 then Some (split_key - 1) else btree_leaf_find_split_idx (encode_leaf bt n es)) = Some m"
    and "entries_ok bt (drop (Suc m) es)"
  shows "btree_leaf_split bt (encode_leaf bt n es) to_node split_key =
    Some (encode_leaf bt n (take (Suc m) es), encode_leaf bt to_node (drop (Suc m) es),
          (le_key (es ! m), word_of_nat (length (le_key (es ! m))), le_seqno (es ! m)),
          int (leaf_used bt (take (Suc m) es) + leaf_used bt (drop (Suc m) es)) - int (leaf_used bt es))"
proof -
  let ?nd = "encode_leaf bt n es"
  obtain j hdrs impacted rest where c:
    "copy_impacted_keys_to_tmp_buf bt ?nd (Suc m) 0 0 (drop (Suc m) (ln_headers ?nd)) None = Some (j, hdrs, impacted)"
    "(if nkeys ?nd \<le> j + m + 1 then Some [] else bytes_from ?nd (j + m + 1)) = Some rest"
    "\<forall>to_node. Option.bind (btree_leaf_adjust_offsets bt (to_node\<lparr>ln_headers := hdrs, ln_area := impacted @ rest\<rparr>))
      (\<lambda>to1. btree_leaf_adjust_prefix_idxes to1 0 (int (nkeys to1) - 1) 0 (- int (Suc m)))
      = Some (encode_leaf bt to_node (drop (Suc m) es))"
    using split_copied [OF assms(1,2) refl assms(3,5) refl] by blast
  note t = encode_leaf_take [OF assms(1-3), of n]
  have info: "btree_leaf_get_nth_key_info ?nd m = Some (entry_info (es ! m))"
    using encoded_nth_info [OF assms(1,2), of m n] assms(3) by simp
  have fr: "?nd\<lparr>ln_headers := take (Suc m) (ln_headers ?nd), ln_area := ln_area (encode_leaf bt n (take (Suc m) es))\<rparr>
      = encode_leaf bt n (take (Suc m) es)"
    by (simp add: t(2) encode_leaf_transfer)
  obtain to1 where to1: "btree_leaf_adjust_offsets bt (to_node\<lparr>ln_headers := hdrs, ln_area := impacted @ rest\<rparr>) = Some to1"
    "btree_leaf_adjust_prefix_idxes to1 0 (int (nkeys to1) - 1) 0 (- int (Suc m)) = Some (encode_leaf bt to_node (drop (Suc m) es))"
    using c(3) by (auto simp: bind_eq_Some_conv)
  have nk: "Suc m < nkeys ?nd" using assms(3) by simp
  show ?thesis
    unfolding btree_leaf_split_def assms(4) assert_opt_def
    by (simp only: bind.simps if_True nk t(1) c(1,2) prod.case to1 btree_leaf_get_nth_key_def info Let_def fr
        used_space_encode entry_info_simps)
qed

end
