(* ===== verification/Leaf_Shift.thy ===== *)
theory Leaf_Shift
  imports Leaf_Split
begin

text \<open>
  Moving keys between neighbours: merging to the right, moving one key, and the two shifts with
  their return of keys that are too long for the parent.
\<close>

section \<open>Moving keys between neighbours\<close>

lemma merge_right_encoded:
  assumes "tree_ok bt" and "entries_ok bt es" and "entries_ok bt ts" and "entries_ok bt (es @ ts)"
  shows "btree_leaf_merge_right bt (encode_leaf bt n es) (encode_leaf bt n' ts) =
    Some (encode_leaf bt n [], encode_leaf bt n' (es @ ts))"
  using copy_all_encoded [OF assms(1,2), of "[]" 0 0 "length es" n "btree_leaf_init n'"] assms(2)
    copy_all_encoded [OF assms(1,3,4), of 0 "length es" "length ts" n' "btree_leaf_init n'"]
  by (simp add: btree_leaf_merge_right_def encode_leaf_init encode_leaf_clear encode_leaf_transfer Let_def)

lemma merge_nodes_leaf_encoded:
  assumes "tree_ok bt" and "entries_ok bt es" and "entries_ok bt ts"
  shows "merge_nodes_leaf bt (encode_leaf bt n es) (encode_leaf bt n' ts) = Some
      (if leaf_used bt (ts @ es) \<le> nodesize_less_hdr bt
       then (encode_leaf bt n [], encode_leaf bt (n'\<lparr>ln_next := ln_next n\<rparr>) (ts @ es),
             int (leaf_used bt (ts @ es)) - int (leaf_used bt es + leaf_used bt ts), True)
       else (encode_leaf bt n es, encode_leaf bt n' ts, 0, False))"
  by (rule merge_left_encoded [OF assms, of n n'])
    (auto simp: merge_nodes_leaf_def Let_def used_space_encode)

lemma move_encoded:
  assumes "tree_ok bt" and "entries_ok bt es" and "i < length es" and "entries_ok bt ts" and "j \<le> length ts"
    and "entries_ok bt (insert_at j (es ! i) ts)" and "entries_ok bt (remove_at i es)"
  shows "btree_leaf_move_key bt (encode_leaf bt n es) i (encode_leaf bt n' ts) j =
    Some (encode_leaf bt n (remove_at i es), encode_leaf bt n' (insert_at j (es ! i) ts))"
proof -
  have e: "entry_ok bt (es ! i)" by (rule entries_ok_nth [OF assms(2,3)])
  have fit: "leaf_used bt (insert_at j (es ! i) ts) \<le> nodesize_less_hdr bt"
    "leaf_used bt (remove_at i es) \<le> nodesize_less_hdr bt"
    using assms(6,7) by (simp_all add: entries_ok_def)
  obtain rest where "btree_leaf_get_data_nth_key (encode_leaf bt n es) i
      = Some (le_data (es ! i) @ rest, le_datalen (es ! i))"
    using encoded_data [OF assms(1-3)] by blast
  then show ?thesis
    using encoded_nth_info [OF assms(1-3), of n] insert_encoded [OF assms(1,4) e assms(5), of "le_data (es ! i) @ rest" False n']
      remove_encoded [OF assms(1-3), of False n] fit
    by (simp add: btree_leaf_move_key_def btree_leaf_get_nth_key_info2_def btree_leaf_remove_key_index_def)
qed

lemma shift_left_back_encoded:
  assumes "tree_ok bt" and "\<forall>j\<le>length es. entries_ok bt (drop j es)" and "ts \<noteq> []"
    and "entries_ok bt (ts @ take k es)" and "k \<le> length es"
  shows "\<exists>k'\<le>k. shift_left_back bt mk k (encode_leaf bt n (drop k es)) (encode_leaf bt n' (ts @ take k es))
      = Some (encode_leaf bt n (drop k' es), encode_leaf bt n' (ts @ take k' es), k') \<and>
    (0 < k' \<longrightarrow> length (le_key (es ! (k' - 1))) \<le> mk)"
  using assms(4,5)
proof (induction k)
  case 0
  then show ?case
    using encoded_nth_info [OF assms(1), of ts "length ts - 1" n'] assms(3)
    by (simp add: btree_leaf_get_nth_key_info2_def)
next
  case (Suc k)
  let ?us = "ts @ take (Suc k) es" and ?e = "es ! k"
  have k: "k < length es" using Suc.prems(2) by simp
  have us: "?us = (ts @ take k es) @ [?e]" using k by (simp add: take_Suc_conv_app_nth)
  have lst: "length ?us - 1 = length ts + k" "?us ! (length ts + k) = ?e"
    using k by (simp_all add: us nth_append)
  have d: "drop k es = ?e # drop (Suc k) es" using k by (simp add: Cons_nth_drop_Suc)
  have ok: "entries_ok bt (ts @ take k es)" using entries_ok_prefix Suc.prems(1) unfolding us by blast
  have e: "entry_ok bt ?e" using entries_ok_nth [OF Suc.prems(1), of "length ts + k"] k lst(2) by simp
  have info: "btree_leaf_get_nth_key_info2 (encode_leaf bt n' ?us) (nkeys (encode_leaf bt n' ?us) - 1) = Some (entry_info ?e)"
    using encoded_nth_info [OF assms(1) Suc.prems(1), of "length ts + k" n'] k lst
    by (simp add: btree_leaf_get_nth_key_info2_def)
  have kl: "unat (ki_keylen (entry_info ?e)) = length (le_key ?e)"
    using entry_ok_keylen [OF assms(1) e] by simp
  show ?case
  proof (cases "mk < length (le_key ?e)")
    case False
    then show ?thesis using info kl by (intro exI [of _ "Suc k"]) simp
  next
    case True
    have mv: "btree_leaf_move_key bt (encode_leaf bt n' ?us) (nkeys (encode_leaf bt n' ?us) - 1) (encode_leaf bt n (drop (Suc k) es)) 0
        = Some (encode_leaf bt n' (ts @ take k es), encode_leaf bt n (drop k es))"
      using move_encoded [OF assms(1) Suc.prems(1), of "length ts + k" "drop (Suc k) es" 0 n' n] k lst ok
        assms(2) [rule_format, of k] assms(2) [rule_format, of "Suc k"] d by (simp add: remove_at_def us)
    from Suc.IH [OF ok] k obtain k' where "k' \<le> k"
      "shift_left_back bt mk k (encode_leaf bt n (drop k es)) (encode_leaf bt n' (ts @ take k es))
        = Some (encode_leaf bt n (drop k' es), encode_leaf bt n' (ts @ take k' es), k')"
      "0 < k' \<longrightarrow> length (le_key (es ! (k' - 1))) \<le> mk" by auto
    then show ?thesis using True info kl mv by (intro exI [of _ k']) simp
  qed
qed

lemma shift_left_encoded:
  assumes "tree_ok bt" and "entries_ok bt ts" and "\<forall>j\<le>length es. entries_ok bt (drop j es)" and "ts \<noteq> []"
  obtains k where "k \<le> length es" and "entries_ok bt (ts @ take k es)"
    and "btree_leaf_shift_left bt (encode_leaf bt n es) (encode_leaf bt n' ts) mk =
      Some (encode_leaf bt n (drop k es), encode_leaf bt n' (ts @ take k es),
            if k = 0 then None else Some (entry_info (es ! (k - 1))))"
    and "0 < k \<Longrightarrow> length (le_key (es ! (k - 1))) \<le> mk"
proof -
  define lim where "lim = (leaf_used bt es + leaf_used bt ts) div 2"
  have es: "entries_ok bt es" using assms(3) by (metis drop0 le0)
  obtain c where c: "c \<le> length es"
    "btree_leaf_copy_keys bt (encode_leaf bt n es) 0 (encode_leaf bt n' ts) (length ts) (length es) lim
      = Some (encode_leaf bt n' (ts @ take c es), c)" "entries_ok bt (ts @ take c es)"
    using copy_keys_encoded [OF assms(1) es assms(2), of 0 "length es" "length ts" n n' lim] by auto
  let ?n = "btree_leaf_init n"
  obtain r where r: "r \<le> length es - c"
    "btree_leaf_copy_keys bt (encode_leaf bt n es) c (encode_leaf bt ?n []) 0 (length es - c) 0
      = Some (encode_leaf bt ?n (take r (drop c es)), r)"
    "r < length es - c \<Longrightarrow> nodesize_less_hdr bt < leaf_used bt (take (Suc r) (drop c es))"
    using copy_keys_encoded [OF assms(1) es entries_ok_Nil, of c "length es - c" 0 n ?n 0] c(1) by auto
  have "leaf_used bt (take (Suc r) (drop c es)) \<le> nodesize_less_hdr bt"
    using entries_ok_take [of bt "drop c es" "Suc r"] assms(3) c(1) by (simp add: entries_ok_def)
  then have "r = length es - c" using r(1,3) by linarith
  then have copy2: "btree_leaf_copy_keys bt (encode_leaf bt n es) c (encode_leaf bt ?n []) 0 (length es - c) 0
      = Some (encode_leaf bt ?n (drop c es), length es - c)" using r(2) by simp
  from shift_left_back_encoded [OF assms(1,3,4) c(3,1), of mk ?n n'] obtain k where k: "k \<le> c"
    "shift_left_back bt mk c (encode_leaf bt ?n (drop c es)) (encode_leaf bt n' (ts @ take c es))
      = Some (encode_leaf bt ?n (drop k es), encode_leaf bt n' (ts @ take k es), k)"
    "0 < k \<longrightarrow> length (le_key (es ! (k - 1))) \<le> mk" by auto
  have ok: "entries_ok bt (ts @ take k es)"
    using entries_ok_take [OF c(3), of "length ts + k"] k(1) by (simp add: min_def)
  have nk: "nkeys (encode_leaf bt n' (ts @ take k es)) = length ts + k" using k(1) c(1) by simp
  have info: "btree_leaf_get_nth_key_info (encode_leaf bt n' (ts @ take k es)) (length ts + k - 1) = Some (entry_info (es ! (k - 1)))"
    if "0 < k"
    using encoded_nth_info [OF assms(1) ok, of "length ts + k - 1" n'] that k(1) c(1) by (simp add: nth_append)
  have "btree_leaf_shift_left bt (encode_leaf bt n es) (encode_leaf bt n' ts) mk =
      Some (encode_leaf bt n (drop k es), encode_leaf bt n' (ts @ take k es),
            if k = 0 then None else Some (entry_info (es ! (k - 1))))"
    unfolding btree_leaf_shift_left_def encode_leaf_init used_space_encode Let_def encode_leaf_nkeys
      lim_def [symmetric] c(2) bind.simps prod.case copy2 k(2) encode_leaf_transfer
    using info nk by simp
  then show thesis using that [of k] k(1,3) c(1) ok by simp
qed

lemma shift_right_loop_encoded:
  assumes "tree_ok bt" and "entries_ok bt es" and "copy_idx + i + 1 = length es"
    and "\<forall>j\<le>i. entries_ok bt (drop (length es - j) es @ ts)"
  shows "\<exists>k. k < length es \<and>
    shift_right_loop bt avg copy_idx i (encode_leaf bt n (take (length es - i) es))
        (encode_leaf bt n' (drop (length es - i) es @ ts))
      = Some (encode_leaf bt n (take (length es - k) es), encode_leaf bt n' (drop (length es - k) es @ ts), k) \<and>
    (\<forall>j\<le>k. entries_ok bt (drop (length es - j) es @ ts))"
  using assms(3,4)
proof (induction copy_idx arbitrary: i)
  case 0
  then show ?case by (intro exI [of _ i]) simp
next
  case (Suc c)
  have l: "length es - i = Suc (Suc c)" "length es - Suc i = Suc c" using Suc.prems(1) by simp_all
  let ?us = "drop (Suc (Suc c)) es @ ts" and ?e = "es ! Suc c"
  have sc: "Suc c < length es" using Suc.prems(1) by simp
  have okf: "entries_ok bt (take (Suc (Suc c)) es)" "entries_ok bt (take (Suc c) es)"
    by (rule entries_ok_take [OF assms(2)])+
  have okt: "entries_ok bt ?us" using Suc.prems(2) l(1) by (metis le_refl)
  have e: "entry_ok bt ?e" by (rule entries_ok_nth [OF assms(2) sc])
  have d: "?e # ?us = drop (Suc c) es @ ts" using sc by (simp add: Cons_nth_drop_Suc [symmetric])
  have nth: "take (Suc (Suc c)) es ! Suc c = ?e" "Suc c < length (take (Suc (Suc c)) es)" using sc by simp_all
  have info: "btree_leaf_get_nth_key_info (encode_leaf bt n (take (Suc (Suc c)) es)) (Suc c) = Some (entry_info ?e)"
    using encoded_nth_info [OF assms(1) okf(1) nth(2), of n] by simp
  have full: "btree_leaf_is_full_index bt (encode_leaf bt n' ?us) (le_key ?e) (le_datalen ?e) default_meta False 0
      = Some (nodesize_less_hdr bt < leaf_used bt (?e # ?us))"
    using is_full_encoded [OF assms(1) okt e, of 0 n' default_meta] by simp
  show ?case
  proof (cases "nodesize_less_hdr bt < leaf_used bt (?e # ?us)")
    case True
    then show ?thesis
      using info full Suc.prems by (intro exI [of _ i]) (simp add: l btree_leaf_get_nth_key_info2_def)
  next
    case False
    then have ok: "entries_ok bt (?e # ?us)" using okt e by (simp add: entries_ok_def)
    have inv: "\<forall>j\<le>Suc i. entries_ok bt (drop (length es - j) es @ ts)"
      using Suc.prems(2) ok unfolding d by (metis l(2) le_Suc_eq)
    have rm: "remove_at (Suc c) (take (Suc (Suc c)) es) = take (Suc c) es" using sc by (simp add: remove_at_def)
    have mv: "btree_leaf_move_key bt (encode_leaf bt n (take (Suc (Suc c)) es)) (Suc c) (encode_leaf bt n' ?us) 0
        = Some (encode_leaf bt n (take (Suc c) es), encode_leaf bt n' (drop (Suc c) es @ ts))"
      using move_encoded [OF assms(1) okf(1) nth(2) okt, of 0 n n'] nth(1) ok okf(2) rm d by simp
    show ?thesis
    proof (cases "avg < leaf_used bt (drop (Suc c) es @ ts)")
      case True
      then show ?thesis
        using info full mv False inv sc Suc.prems(1)
        by (intro exI [of _ "Suc i"]) (simp add: l btree_leaf_get_nth_key_info2_def used_space_encode)
    next
      case cont: False
      have "shift_right_loop bt avg (Suc c) i (encode_leaf bt n (take (length es - i) es))
          (encode_leaf bt n' (drop (length es - i) es @ ts))
        = shift_right_loop bt avg c (Suc i) (encode_leaf bt n (take (length es - Suc i) es))
          (encode_leaf bt n' (drop (length es - Suc i) es @ ts))"
        using info full mv False cont by (simp add: l btree_leaf_get_nth_key_info2_def used_space_encode)
      then show ?thesis using Suc.IH [of "Suc i"] Suc.prems(1) inv by simp
    qed
  qed
qed

lemma shift_right_back_encoded:
  assumes "tree_ok bt" and "entries_ok bt es" and "k < length es"
    and "\<forall>j\<le>k. entries_ok bt (drop (length es - j) es @ ts)"
  shows "\<exists>k'\<le>k. shift_right_back bt mk k (encode_leaf bt n (take (length es - k) es))
        (encode_leaf bt n' (drop (length es - k) es @ ts))
      = Some (encode_leaf bt n (take (length es - k') es), encode_leaf bt n' (drop (length es - k') es @ ts), k') \<and>
    (0 < k' \<longrightarrow> length (le_key (es ! (length es - k' - 1))) \<le> mk)"
  using assms(3,4)
proof (induction k)
  case 0
  then show ?case
    using encoded_nth_info [OF assms(1,2), of "length es - 1" n]
    by (simp add: btree_leaf_get_nth_key_info2_def)
next
  case (Suc k)
  define l where "l = length es - Suc k"
  have l: "length es - k = Suc l" "0 < l" "l < length es" using Suc.prems(1) by (auto simp: l_def)
  let ?e = "es ! (l - 1)"
  have okf: "entries_ok bt (take l es)" "entries_ok bt (take (Suc l) es)"
    by (rule entries_ok_take [OF assms(2)])+
  have okt: "entries_ok bt (drop l es @ ts)" "entries_ok bt (drop (Suc l) es @ ts)"
    using Suc.prems(2) l(1) l_def by (metis le_refl, metis le_SucI le_refl)
  have info: "btree_leaf_get_nth_key_info2 (encode_leaf bt n (take l es)) (nkeys (encode_leaf bt n (take l es)) - 1)
      = Some (entry_info ?e)"
    using encoded_nth_info [OF assms(1) okf(1), of "l - 1" n] l
    by (simp add: btree_leaf_get_nth_key_info2_def min_def)
  have e: "entry_ok bt ?e" using entries_ok_nth [OF assms(2)] l by simp
  have kl: "unat (ki_keylen (entry_info ?e)) = length (le_key ?e)"
    using entry_ok_keylen [OF assms(1) e] by simp
  show ?case
  proof (cases "mk < length (le_key ?e)")
    case False
    then show ?thesis using info kl by (intro exI [of _ "Suc k"]) (simp add: l_def [symmetric])
  next
    case True
    have d: "(drop l es @ ts) ! 0 = es ! l" "0 < length (drop l es @ ts)"
      "remove_at 0 (drop l es @ ts) = drop (Suc l) es @ ts"
      "insert_at (length (take l es)) (es ! l) (take l es) = take (Suc l) es"
      using l(3) insert_at_end [of "take l es" "es ! l"]
      by (simp_all add: remove_at_def nth_append Cons_nth_drop_Suc [symmetric] take_Suc_conv_app_nth del: insert_at_end)
    have mv: "btree_leaf_move_key bt (encode_leaf bt n' (drop l es @ ts)) 0 (encode_leaf bt n (take l es)) (length (take l es))
        = Some (encode_leaf bt n' (drop (Suc l) es @ ts), encode_leaf bt n (take (Suc l) es))"
      using move_encoded [OF assms(1) okt(1) d(2) okf(1) le_refl, of n' n] okf(2) okt(2) unfolding d by simp
    from Suc.IH Suc.prems obtain k' where "k' \<le> k"
      "shift_right_back bt mk k (encode_leaf bt n (take (Suc l) es)) (encode_leaf bt n' (drop (Suc l) es @ ts))
      = Some (encode_leaf bt n (take (length es - k') es), encode_leaf bt n' (drop (length es - k') es @ ts), k')"
      "0 < k' \<longrightarrow> length (le_key (es ! (length es - k' - 1))) \<le> mk" by (auto simp: l(1))
    then show ?thesis
      using True info kl mv by (intro exI [of _ k']) (simp add: l_def [symmetric])
  qed
qed

lemma shift_right_encoded:
  assumes "tree_ok bt" and "entries_ok bt es" and "entries_ok bt ts" and "es \<noteq> []"
  obtains k where "k < length es" and "entries_ok bt (drop (length es - k) es @ ts)"
    and "btree_leaf_shift_right bt (encode_leaf bt n es) (encode_leaf bt n' ts) mk =
      Some (encode_leaf bt n (take (length es - k) es), encode_leaf bt n' (drop (length es - k) es @ ts),
            if k = 0 then None else Some (entry_info (es ! (length es - k - 1))))"
    and "0 < k \<Longrightarrow> length (le_key (es ! (length es - k - 1))) \<le> mk"
proof -
  define avg where "avg = (leaf_used bt es + leaf_used bt ts) div 2"
  from shift_right_loop_encoded [OF assms(1,2), of "length es - 1" 0 ts avg n n'] assms(3,4)
  obtain c where c: "c < length es"
    "shift_right_loop bt avg (length es - 1) 0 (encode_leaf bt n es) (encode_leaf bt n' ts)
      = Some (encode_leaf bt n (take (length es - c) es), encode_leaf bt n' (drop (length es - c) es @ ts), c)"
    "\<forall>j\<le>c. entries_ok bt (drop (length es - j) es @ ts)" by auto
  from shift_right_back_encoded [OF assms(1,2) c(1,3), of mk n n'] obtain k where k: "k \<le> c"
    "shift_right_back bt mk c (encode_leaf bt n (take (length es - c) es)) (encode_leaf bt n' (drop (length es - c) es @ ts))
      = Some (encode_leaf bt n (take (length es - k) es), encode_leaf bt n' (drop (length es - k) es @ ts), k)"
    "0 < k \<longrightarrow> length (le_key (es ! (length es - k - 1))) \<le> mk" by auto
  have info: "btree_leaf_get_nth_key_info (encode_leaf bt n (take (length es - k) es)) (length es - k - Suc 0)
      = Some (entry_info (es ! (length es - k - 1)))"
    using encoded_nth_info [OF assms(1) entries_ok_take [OF assms(2)], of "length es - k - 1" "length es - k" n]
      k(1) c(1) by simp
  have "btree_leaf_shift_right bt (encode_leaf bt n es) (encode_leaf bt n' ts) mk =
      Some (encode_leaf bt n (take (length es - k) es), encode_leaf bt n' (drop (length es - k) es @ ts),
            if k = 0 then None else Some (entry_info (es ! (length es - k - 1))))"
    using info c(2) k(2)
    by (auto simp: btree_leaf_shift_right_def used_space_encode avg_def [symmetric] Let_def)
  then show thesis using that [of k] k(1,3) c(1,3) by simp
qed

end
