(* ===== verification/Leaf_Correct.thy ===== *)
theory Leaf_Correct
  imports Leaf_Shift
begin

text \<open>
  What the leaf node promises to the rest of the tree: a node represents a list of entries, the
  accessors read that list, and every operation acts on it as the corresponding list operation.
  The interface \<open>leaf_store\<close> states the contract the callers rely on; the leaf node of the code
  is shown to meet it, and a sequence of operations on it refines the same sequence on lists.
\<close>

section \<open>The representation relation\<close>

definition leaf_repr :: "btree_raw \<Rightarrow> leaf_node \<Rightarrow> leaf_entry list \<Rightarrow> bool" where
  "leaf_repr bt n es \<longleftrightarrow> tree_ok bt \<and> entries_ok bt es \<and> n = encode_leaf bt n es"

text \<open>The contents as the accessors of the code read them.\<close>

definition read_entry :: "btree_raw \<Rightarrow> leaf_node \<Rightarrow> nat \<Rightarrow> leaf_entry option" where
  "read_entry bt n i = do {
     ki \<leftarrow> btree_leaf_get_nth_key_info n i;
     (d, dl) \<leftarrow> btree_leaf_get_data_nth_key n i;
     len \<leftarrow> datalen_in_leaf bt (ki_keylen ki) dl;
     tomb \<leftarrow> btree_leaf_is_key_tombstoned n i;
     Some \<lparr>le_key = ki_key ki, le_data = take (unat len) d, le_datalen = dl, le_ptr = ki_ptr ki,
           le_seqno = ki_seqno ki, le_tombstone = tomb\<rparr>
   }"

definition leaf_contents :: "btree_raw \<Rightarrow> leaf_node \<Rightarrow> leaf_entry list option" where
  "leaf_contents bt n = those (map (read_entry bt n) [0..<nkeys n])"

lemma leaf_reprI: "tree_ok bt \<Longrightarrow> entries_ok bt es \<Longrightarrow> leaf_repr bt (encode_leaf bt n es) es"
  by (simp add: leaf_repr_def encode_leaf_def Let_def)

lemma leaf_reprE:
  assumes "leaf_repr bt n es"
  obtains "tree_ok bt" and "entries_ok bt es" and "n = encode_leaf bt n es"
  using assms by (simp add: leaf_repr_def)

lemma leaf_repr_nkeys: "leaf_repr bt n es \<Longrightarrow> nkeys n = length es"
  by (metis encode_leaf_nkeys leaf_repr_def)

lemma leaf_repr_used: "leaf_repr bt n es \<Longrightarrow> btree_leaf_used_space n = leaf_used bt es"
  by (metis used_space_encode leaf_repr_def)

lemma leaf_repr_init: "tree_ok bt \<Longrightarrow> leaf_repr bt (btree_leaf_init n) []"
  by (simp add: leaf_repr_def btree_leaf_init_def encode_leaf_def Let_def)

lemma those_map_Some: "(\<And>x. x \<in> set xs \<Longrightarrow> f x = Some (g x)) \<Longrightarrow> those (map f xs) = Some (map g xs)"
  by (induction xs) simp_all

lemma encoded_tombstone:
  assumes "i < length es"
  shows "btree_leaf_is_key_tombstoned (encode_leaf bt n es) i = Some (le_tombstone (es ! i))"
  using assms by (simp add: btree_leaf_is_key_tombstoned_def encode_leaf_def Let_def nth_item_headers)

lemma read_entry_encoded:
  assumes "tree_ok bt" and "entries_ok bt es" and "i < length es"
  shows "read_entry bt (encode_leaf bt n es) i = Some (es ! i)"
proof -
  let ?e = "es ! i"
  have e: "entry_ok bt ?e" by (rule entries_ok_nth [OF assms(2,3)])
  obtain rest where d: "btree_leaf_get_data_nth_key (encode_leaf bt n es) i = Some (le_data ?e @ rest, le_datalen ?e)"
    using encoded_data [OF assms] by blast
  have "le_data ?e = take (length (le_data ?e)) (le_data ?e @ rest)" by simp
  then show ?thesis
    using encoded_nth_info [OF assms, of n] d entry_ok_datalen [OF assms(1) e] encoded_tombstone [OF assms(3), of bt n]
    by (simp add: read_entry_def)
qed

lemma leaf_contents_encoded:
  assumes "tree_ok bt" and "entries_ok bt es"
  shows "leaf_contents bt (encode_leaf bt n es) = Some es"
  using those_map_Some [of "[0..<length es]" "read_entry bt (encode_leaf bt n es)" "(!) es"]
    read_entry_encoded [OF assms, of _ n] by (simp add: leaf_contents_def map_nth)

section \<open>The interface\<close>

locale leaf_store =
  fixes repr :: "'n \<Rightarrow> leaf_entry list \<Rightarrow> bool"
    and fits :: "leaf_entry list \<Rightarrow> bool"
    and nth_info :: "'n \<Rightarrow> nat \<Rightarrow> key_info option"
    and ins :: "'n \<Rightarrow> nat \<Rightarrow> leaf_entry \<Rightarrow> 'n option"
    and rem :: "'n \<Rightarrow> nat \<Rightarrow> 'n option"
  assumes repr_fits: "repr n es \<Longrightarrow> fits es"
    and repr_info: "repr n es \<Longrightarrow> i < length es \<Longrightarrow> nth_info n i = Some (entry_info (es ! i))"
    and repr_ins: "repr n es \<Longrightarrow> i \<le> length es \<Longrightarrow> fits (insert_at i e es) \<Longrightarrow>
          \<exists>n'. ins n i e = Some n' \<and> repr n' (insert_at i e es)"
    and repr_rem: "repr n es \<Longrightarrow> i < length es \<Longrightarrow> fits (remove_at i es) \<Longrightarrow>
          \<exists>n'. rem n i = Some n' \<and> repr n' (remove_at i es)"

datatype leaf_op = LInsert nat leaf_entry | LRemove nat

fun op_spec :: "leaf_op \<Rightarrow> leaf_entry list \<Rightarrow> leaf_entry list" where
  "op_spec (LInsert i e) es = insert_at i e es"
| "op_spec (LRemove i) es = remove_at i es"

fun op_legal :: "leaf_op \<Rightarrow> leaf_entry list \<Rightarrow> bool" where
  "op_legal (LInsert i e) es = (i \<le> length es)"
| "op_legal (LRemove i) es = (i < length es)"

text \<open>A sequence of operations is legal if every index is in range and every state fits.\<close>

fun ops_legal :: "(leaf_entry list \<Rightarrow> bool) \<Rightarrow> leaf_op list \<Rightarrow> leaf_entry list \<Rightarrow> bool" where
  "ops_legal fits [] es = True"
| "ops_legal fits (p # ps) es =
     (op_legal p es \<and> fits (op_spec p es) \<and> ops_legal fits ps (op_spec p es))"

fun run_ops :: "('n \<Rightarrow> nat \<Rightarrow> leaf_entry \<Rightarrow> 'n option) \<Rightarrow> ('n \<Rightarrow> nat \<Rightarrow> 'n option) \<Rightarrow> leaf_op list \<Rightarrow> 'n \<Rightarrow> 'n option" where
  "run_ops ins rem [] n = Some n"
| "run_ops ins rem (LInsert i e # ps) n = Option.bind (ins n i e) (run_ops ins rem ps)"
| "run_ops ins rem (LRemove i # ps) n = Option.bind (rem n i) (run_ops ins rem ps)"

context leaf_store
begin

lemma step_refines:
  assumes "repr n es" and "op_legal p es" and "fits (op_spec p es)"
  shows "\<exists>n'. run_ops ins rem (p # ps) n = run_ops ins rem ps n' \<and> repr n' (op_spec p es)"
  using assms repr_ins [of n es] repr_rem [of n es] by (cases p) force+

lemma run_refines:
  assumes "repr n es" and "ops_legal fits ps es"
  shows "\<exists>n'. run_ops ins rem ps n = Some n' \<and> repr n' (fold op_spec ps es)"
  using assms
proof (induction ps arbitrary: n es)
  case Nil
  then show ?case by simp
next
  case (Cons p ps)
  then obtain n' where "run_ops ins rem (p # ps) n = run_ops ins rem ps n'" "repr n' (op_spec p es)"
    using step_refines [of n es p ps] by auto
  then show ?case using Cons by auto
qed

lemma repr_infos: "repr n es \<Longrightarrow> map (nth_info n) [0..<length es] = map (Some \<circ> entry_info) es"
  by (auto intro!: nth_equalityI simp: repr_info)

end

text \<open>Insertion and removal as the callers use them.\<close>

definition leaf_insert :: "btree_raw \<Rightarrow> leaf_node \<Rightarrow> nat \<Rightarrow> leaf_entry \<Rightarrow> leaf_node option" where
  "leaf_insert bt n i e = map_option fst
     (btree_leaf_insert_key_index bt n (le_key e) (le_data e) (le_datalen e) (entry_info e) i False)"

definition leaf_remove :: "btree_raw \<Rightarrow> leaf_node \<Rightarrow> nat \<Rightarrow> leaf_node option" where
  "leaf_remove bt n i = map_option fst (btree_leaf_remove_key_index bt n i)"

interpretation leaf: leaf_store "leaf_repr bt" "entries_ok bt" btree_leaf_get_nth_key_info "leaf_insert bt" "leaf_remove bt"
  for bt
proof
  fix n es i e
  assume r: "leaf_repr bt n es"
  then show "entries_ok bt es" by (simp add: leaf_repr_def)
  obtain t: "tree_ok bt" and ok: "entries_ok bt es" and n: "n = encode_leaf bt n es"
    using r by (rule leaf_reprE)
  show "btree_leaf_get_nth_key_info n i = Some (entry_info (es ! i))" if "i < length es"
    using encoded_nth_info [OF t ok that, of n] n by simp
  show "\<exists>n'. leaf_insert bt n i e = Some n' \<and> leaf_repr bt n' (insert_at i e es)"
    if i: "i \<le> length es" and f: "entries_ok bt (insert_at i e es)"
  proof -
    have "entry_ok bt e" "leaf_used bt (insert_at i e es) \<le> nodesize_less_hdr bt"
      using f i by (simp_all add: entries_ok_def set_insert_at)
    then show ?thesis
      using insert_encoded [OF t ok _ i, of e "le_data e" False n] n leaf_reprI [OF t f, of n]
      by (simp add: leaf_insert_def)
  qed
  show "\<exists>n'. leaf_remove bt n i = Some n' \<and> leaf_repr bt n' (remove_at i es)"
    if i: "i < length es" and f: "entries_ok bt (remove_at i es)"
    using remove_encoded [OF t ok i, of False n] n leaf_reprI [OF t f, of n] f
    by (simp add: leaf_remove_def btree_leaf_remove_key_index_def entries_ok_def)
qed

end
