(* ===== verification/Leaf_Theorems.thy ===== *)
theory Leaf_Theorems
  imports Leaf_Correct
begin

text \<open>
  The properties of the leaf node: what every operation of \<open>src/btree/btree_var_leaf.c\<close> does to the
  contents and to the space accounting, on success and on failure.  The samples at the start are
  the concrete tree and nodes at which the properties are instantiated.
\<close>

section \<open>Samples\<close>

text \<open>A tree as \<open>btree_raw_init\<close> configures it for nodes with 8096 usable bytes.\<close>

definition sample_tree :: btree_raw where
  "sample_tree = \<lparr>nodesize = 8192, nodesize_less_hdr = 8096, big_object_size = 1987,
     max_key_size = 1996, rootid = 1, cmp_cb = (\<lambda>_ _. 0), space_op_disabled = False,
     min_common_length = 3, bt_storm_mode = False, datasz_in_overflow = 0\<rparr>"

definition sample_entry :: "mem \<Rightarrow> nat \<Rightarrow> u64 \<Rightarrow> leaf_entry" where
  "sample_entry k d s = \<lparr>le_key = k, le_data = replicate d 7, le_datalen = word_of_nat d, le_ptr = 0,
     le_seqno = s, le_tombstone = False\<rparr>"

definition sample_entries :: "leaf_entry list" where
  "sample_entries = [sample_entry [97, 98, 99, 100, 101] 3 11, sample_entry [97, 98, 99, 100, 102] 3 12,
     sample_entry [97, 98, 99, 103, 101] 3 13]"

definition sample_new :: leaf_entry where
  "sample_new = sample_entry [97, 98, 99, 100, 103] 4 14"

definition sample_meta :: btree_metadata where
  "sample_meta = \<lparr>md_flags = 0, md_seqno = 0, md_start_seqno = 0, md_end_seqno = 0\<rparr>"

definition sample_node :: leaf_node where
  "sample_node = \<lparr>ln_flags = LEAF_NODE, ln_logical_id = 5, ln_next = 6, ln_rightmost = BAD_CHILD,
     ln_headers = [], ln_area = []\<rparr>"

abbreviation sample_leaf :: "leaf_entry list \<Rightarrow> leaf_node" where
  "sample_leaf es \<equiv> encode_leaf sample_tree sample_node es"

lemma sample_tree_ok: "tree_ok sample_tree"
  by (simp add: tree_ok_def sample_tree_def get_data_in_overflownode_def)

lemma sample_entry_ok: "length k + d < 1987 \<Longrightarrow> entry_ok sample_tree (sample_entry k d s)"
  by (simp add: entry_ok_def sample_tree_def sample_entry_def big_object_kd_def datalen_in_leaf_def
      word_le_nat_alt unat_word_ariths)

lemma sample_list_ok: "set es \<subseteq> insert sample_new (set sample_entries) \<Longrightarrow> length es \<le> 4 \<Longrightarrow> entries_ok sample_tree es"
  by (rule four_entries_fit [OF sample_tree_ok])
    (auto simp: sample_entries_def sample_new_def dest!: subsetD intro!: sample_entry_ok)

lemma sample_lengths [simp]: "length sample_entries = 3" "le_tombstone sample_new = False"
  by (simp_all add: sample_entries_def sample_new_def sample_entry_def)

lemma sample_repr: "entries_ok sample_tree es \<Longrightarrow> leaf_repr sample_tree (sample_leaf es) es"
  by (rule leaf_reprI [OF sample_tree_ok])

lemma sample_new_ok: "entry_ok sample_tree sample_new"
  unfolding sample_new_def by (rule sample_entry_ok) simp

lemma sample_insert_ok: "entries_ok sample_tree (insert_at 1 sample_new sample_entries)"
  by (rule sample_list_ok) (simp_all add: set_insert_at)

lemma sample_remove_ok: "entries_ok sample_tree (remove_at 1 sample_entries)"
  by (rule sample_list_ok) (use set_remove_at_subset [of 1 sample_entries] in auto)

lemma sample_entries_ok: "entries_ok sample_tree sample_entries"
  by (rule sample_list_ok) auto

text \<open>Four entries that fill the node.\<close>

definition big_entry :: "byte \<Rightarrow> leaf_entry" where
  "big_entry b = sample_entry [97, 98, 99, 100, b] 1981 20"

definition big_entries :: "leaf_entry list" where
  "big_entries = map big_entry [1, 2, 3, 4]"

lemma big_entries_ok: "entries_ok sample_tree big_entries"
  by (rule four_entries_fit [OF sample_tree_ok])
    (auto simp: big_entries_def big_entry_def intro!: sample_entry_ok)

lemma big_entry_ok: "entry_ok sample_tree (big_entry b)"
  unfolding big_entry_def by (rule sample_entry_ok) simp

lemma big_entries_full: "nodesize_less_hdr sample_tree < leaf_used sample_tree (insert_at 4 (big_entry 5) big_entries)"
  using leaf_used_data [of "insert_at 4 (big_entry 5) big_entries" sample_tree]
  by (simp add: big_entries_def big_entry_def sample_entry_def insert_at_def sample_tree_def)

section \<open>Insertion, removal, update\<close>

text \<open>C6: A leaf node represents exactly one list of entries, and the accessors of the code read it
  back: key (prefix and suffix joined), data kept in the leaf, data length, overflow pointer,
  sequence number and tombstone of every entry.\<close>

theorem leaf_contents_correct:
  assumes "leaf_repr bt n es"
  shows "leaf_contents bt n = Some es"
  using assms leaf_contents_encoded by (metis leaf_repr_def)

theorem leaf_contents_witness:
  "leaf_contents sample_tree (sample_leaf sample_entries) = Some sample_entries"
  by (rule leaf_contents_correct [OF sample_repr [OF sample_entries_ok]])

text \<open>C2: If the entry fits, \<open>btree_leaf_insert_key_index\<close> returns a node that represents the contents
  with the entry inserted at the index, re-encoding prefixes and metadata as needed; only the keys
  area changes, and \<open>bytes_increased\<close> is the change of the used space.\<close>

theorem insert_key_index_correct:
  assumes "leaf_repr bt n es" and "entry_ok bt e" and "index \<le> length es"
    and "take (length (le_data e)) data = le_data e"
    and "leaf_used bt (insert_at index e es) \<le> nodesize_less_hdr bt"
  shows "\<exists>n'. btree_leaf_insert_key_index bt n (le_key e) data (le_datalen e) (entry_info e) index False
       = Some (n', int (btree_leaf_used_space n') - int (btree_leaf_used_space n)) \<and>
     leaf_contents bt n' = Some (insert_at index e es) \<and> leaf_repr bt n' (insert_at index e es) \<and>
     n' = n\<lparr>ln_headers := ln_headers n', ln_area := ln_area n'\<rparr>"
proof -
  obtain t: "tree_ok bt" and ok: "entries_ok bt es" and n: "n = encode_leaf bt n es"
    using assms(1) by (rule leaf_reprE)
  have ok': "entries_ok bt (insert_at index e es)"
    using ok assms(2,3,5) by (auto simp: entries_ok_def set_insert_at)
  let ?n' = "encode_leaf bt n (insert_at index e es)"
  have "btree_leaf_insert_key_index bt n (le_key e) data (le_datalen e) (entry_info e) index False
      = Some (?n', int (btree_leaf_used_space ?n') - int (btree_leaf_used_space n))"
    using insert_encoded [OF t ok assms(2-4), of False n] assms(5) n
    by (metis (no_types, lifting) leaf_repr_used [OF assms(1)] used_space_encode)
  moreover have "?n' = n\<lparr>ln_headers := ln_headers ?n', ln_area := ln_area ?n'\<rparr>"
    by (simp add: encode_leaf_def Let_def)
  ultimately show ?thesis using leaf_contents_encoded [OF t ok'] leaf_reprI [OF t ok'] by blast
qed

theorem insert_key_index_witness:
  "\<exists>n'. btree_leaf_insert_key_index sample_tree (sample_leaf sample_entries) (le_key sample_new)
       (le_data sample_new) (le_datalen sample_new) (entry_info sample_new) 1 False
       = Some (n', int (btree_leaf_used_space n') - int (btree_leaf_used_space (sample_leaf sample_entries))) \<and>
     leaf_contents sample_tree n' = Some (insert_at 1 sample_new sample_entries)"
  using insert_key_index_correct [OF sample_repr [OF sample_entries_ok] sample_new_ok, of 1 "le_data sample_new"]
    sample_insert_ok by (auto simp: entries_ok_def)

text \<open>C12: An entry that does not fit is never written: the dry run reports the exact growth without
  changing the node, and the insertion itself stops at the assertion on the new used space.\<close>

theorem insert_key_index_no_room:
  assumes "leaf_repr bt n es" and "entry_ok bt e" and "index \<le> length es"
    and "take (length (le_data e)) data = le_data e"
    and "nodesize_less_hdr bt < leaf_used bt (insert_at index e es)"
  shows "btree_leaf_insert_key_index bt n (le_key e) data (le_datalen e) (entry_info e) index True
       = Some (n, int (leaf_used bt (insert_at index e es)) - int (btree_leaf_used_space n)) \<and>
     btree_leaf_insert_key_index bt n (le_key e) data (le_datalen e) (entry_info e) index False = None"
proof -
  obtain t: "tree_ok bt" and ok: "entries_ok bt es" and n: "n = encode_leaf bt n es"
    using assms(1) by (rule leaf_reprE)
  have d: "btree_leaf_insert_key_index bt n (le_key e) data (le_datalen e) (entry_info e) index True
      = Some (n, int (leaf_used bt (insert_at index e es)) - int (btree_leaf_used_space n))"
    using insert_encoded [OF t ok assms(2-4), of True n] n leaf_repr_used [OF assms(1)] by simp
  then show ?thesis using insert_no_room [OF d] assms(5) by simp
qed

theorem insert_key_index_no_room_witness:
  "btree_leaf_insert_key_index sample_tree (sample_leaf big_entries) (le_key (big_entry 5)) (le_data (big_entry 5))
     (le_datalen (big_entry 5)) (entry_info (big_entry 5)) 4 False = None"
  using insert_key_index_no_room [OF sample_repr [OF big_entries_ok] big_entry_ok _ _ big_entries_full, of "le_data (big_entry 5)"]
  by (simp add: big_entries_def)

text \<open>C3: \<open>btree_leaf_remove_key_index\<close> returns a node that represents the contents without the entry
  at the index, and \<open>bytes_decreased\<close> is the change of the used space, provided the re-encoded
  remainder fits into the node.\<close>

theorem remove_key_index_correct:
  assumes "leaf_repr bt n es" and "index < length es"
    and "leaf_used bt (remove_at index es) \<le> nodesize_less_hdr bt"
  shows "\<exists>n'. btree_leaf_remove_key_index bt n index
       = Some (n', int (btree_leaf_used_space n) - int (btree_leaf_used_space n')) \<and>
     leaf_contents bt n' = Some (remove_at index es) \<and> leaf_repr bt n' (remove_at index es) \<and>
     n' = n\<lparr>ln_headers := ln_headers n', ln_area := ln_area n'\<rparr>"
proof -
  obtain t: "tree_ok bt" and ok: "entries_ok bt es" and n: "n = encode_leaf bt n es"
    using assms(1) by (rule leaf_reprE)
  have ok': "entries_ok bt (remove_at index es)"
    using ok assms(2,3) set_remove_at_subset [of index es] by (auto simp: entries_ok_def)
  let ?n' = "encode_leaf bt n (remove_at index es)"
  have "btree_leaf_remove_key_index bt n index
      = Some (?n', int (btree_leaf_used_space n) - int (btree_leaf_used_space ?n'))"
    using remove_encoded [OF t ok assms(2), of False n] assms(3) n
    by (metis (no_types, lifting) btree_leaf_remove_key_index_def leaf_repr_used [OF assms(1)] used_space_encode)
  moreover have "?n' = n\<lparr>ln_headers := ln_headers ?n', ln_area := ln_area ?n'\<rparr>"
    by (simp add: encode_leaf_def Let_def)
  ultimately show ?thesis using leaf_contents_encoded [OF t ok'] leaf_reprI [OF t ok'] by blast
qed

theorem remove_key_index_witness:
  "\<exists>n'. btree_leaf_remove_key_index sample_tree (sample_leaf sample_entries) 1
       = Some (n', int (btree_leaf_used_space (sample_leaf sample_entries)) - int (btree_leaf_used_space n')) \<and>
     leaf_contents sample_tree n' = Some (remove_at 1 sample_entries)"
  using remove_key_index_correct [OF sample_repr [OF sample_entries_ok], of 1] sample_remove_ok
  by (auto simp: entries_ok_def)



section \<open>Fullness\<close>

text \<open>C7: For an insertion, \<open>btree_leaf_is_full_index\<close> answers exactly whether the contents with the
  new entry exceed the node, whatever the data, the sequence number and the flags; the shortcut for
  appending never answers wrongly.\<close>

theorem is_full_index_exact:
  assumes "leaf_repr bt n es" and "entry_ok bt e" and "index \<le> length es"
  shows "btree_leaf_is_full_index bt n (le_key e) (le_datalen e) meta False index
       = Some (nodesize_less_hdr bt < leaf_used bt (insert_at index e es))"
  using assms(1) is_full_encoded [OF _ _ assms(2,3)] by (metis leaf_repr_def)

theorem is_full_index_witness:
  "btree_leaf_is_full_index sample_tree (sample_leaf big_entries) (le_key (big_entry 5)) (le_datalen (big_entry 5))
     sample_meta False 4 = Some True"
  using is_full_index_exact [OF sample_repr [OF big_entries_ok] big_entry_ok, of 4 5 sample_meta] big_entries_full
  by (simp add: big_entries_def)



end
