(* ===== verification/Leaf_Neighbours.thy ===== *)
theory Leaf_Neighbours
  imports Leaf_Theorems
begin

text \<open>
  The properties of the operations on two leaf nodes, of whole sequences of operations, and two
  boundary cases in which the size computations of the code go wrong.
\<close>

section \<open>Split\<close>

text \<open>C13: The split index that \<open>btree_leaf_find_split_idx\<close> chooses leaves at least one entry on each
  side, so a node with two or more entries is always split into two non-empty ones and the code
  never reaches its \<open>abort\<close>.\<close>

theorem find_split_idx_proper:
  assumes "2 \<le> nkeys n"
  shows "\<exists>m. btree_leaf_find_split_idx n = Some m \<and> Suc m < nkeys n"
  using find_split_idx_bound [OF assms] by metis

theorem find_split_idx_witness:
  "\<exists>m. btree_leaf_find_split_idx (sample_leaf sample_entries) = Some m \<and> Suc m < 3"
  using find_split_idx_proper [of "sample_leaf sample_entries"] by simp

text \<open>C4: \<open>btree_leaf_split\<close> cuts the contents after the split index: the old node keeps the first
  part, the new node represents the second part (its first entry re-encoded without prefix), the
  separating key is the last key of the first part, and \<open>bytes_increased\<close> is the change of the
  space used in both nodes, provided the second part fits into a node.\<close>

theorem leaf_split_correct:
  assumes "leaf_repr bt n es" and "2 \<le> length es" and "split_key < length es"
  shows "\<exists>m. Suc m < length es \<and> (split_key \<noteq> 0 \<longrightarrow> Suc m = split_key) \<and>
    (leaf_used bt (drop (Suc m) es) \<le> nodesize_less_hdr bt \<longrightarrow>
      (\<exists>n1 n2. btree_leaf_split bt n to_node split_key =
         Some (n1, n2, (le_key (es ! m), word_of_nat (length (le_key (es ! m))), le_seqno (es ! m)),
           int (btree_leaf_used_space n1 + btree_leaf_used_space n2) - int (btree_leaf_used_space n)) \<and>
       leaf_repr bt n1 (take (Suc m) es) \<and> leaf_repr bt n2 (drop (Suc m) es) \<and>
       leaf_contents bt n1 = Some (take (Suc m) es) \<and> leaf_contents bt n2 = Some (drop (Suc m) es) \<and>
       n2 = to_node\<lparr>ln_headers := ln_headers n2, ln_area := ln_area n2\<rparr>))"
proof -
  obtain t: "tree_ok bt" and ok: "entries_ok bt es" and n: "n = encode_leaf bt n es"
    using assms(1) by (rule leaf_reprE)
  have nk: "nkeys n = length es" by (rule leaf_repr_nkeys [OF assms(1)])
  have "\<exists>m. btree_leaf_find_split_idx n = Some m \<and> Suc m < length es"
    using find_split_idx_bound [of n] assms(2) nk by metis
  then obtain m where m: "(if split_key \<noteq> 0 then Some (split_key - 1) else btree_leaf_find_split_idx n) = Some m"
    "Suc m < length es" "split_key \<noteq> 0 \<longrightarrow> Suc m = split_key"
    using assms(3) by (cases "split_key = 0") auto
  show ?thesis
  proof (intro exI [of _ m] conjI impI)
    assume "leaf_used bt (drop (Suc m) es) \<le> nodesize_less_hdr bt"
    then have ok2: "entries_ok bt (drop (Suc m) es)" and ok1: "entries_ok bt (take (Suc m) es)"
      using ok entries_ok_take [OF ok] in_set_dropD by (fastforce simp: entries_ok_def)+
    let ?n1 = "encode_leaf bt n (take (Suc m) es)" and ?n2 = "encode_leaf bt to_node (drop (Suc m) es)"
    have "btree_leaf_split bt n to_node split_key =
        Some (?n1, ?n2, (le_key (es ! m), word_of_nat (length (le_key (es ! m))), le_seqno (es ! m)),
           int (btree_leaf_used_space ?n1 + btree_leaf_used_space ?n2) - int (btree_leaf_used_space n))"
      using split_encoded [OF t ok m(2) _ ok2, where n = n and split_key = split_key and to_node = to_node,
          folded n, OF m(1)] leaf_repr_used [OF assms(1)]
      by (simp add: used_space_encode)
    moreover have "?n2 = to_node\<lparr>ln_headers := ln_headers ?n2, ln_area := ln_area ?n2\<rparr>"
      by (simp add: encode_leaf_def Let_def)
    ultimately show "\<exists>n1 n2. btree_leaf_split bt n to_node split_key =
         Some (n1, n2, (le_key (es ! m), word_of_nat (length (le_key (es ! m))), le_seqno (es ! m)),
           int (btree_leaf_used_space n1 + btree_leaf_used_space n2) - int (btree_leaf_used_space n)) \<and>
       leaf_repr bt n1 (take (Suc m) es) \<and> leaf_repr bt n2 (drop (Suc m) es) \<and>
       leaf_contents bt n1 = Some (take (Suc m) es) \<and> leaf_contents bt n2 = Some (drop (Suc m) es) \<and>
       n2 = to_node\<lparr>ln_headers := ln_headers n2, ln_area := ln_area n2\<rparr>"
      using leaf_reprI [OF t ok1] leaf_reprI [OF t ok2] leaf_contents_encoded [OF t ok1] leaf_contents_encoded [OF t ok2]
      by blast
  qed (use m in auto)
qed

theorem leaf_split_witness:
  "\<exists>n1 n2 k d. btree_leaf_split sample_tree (sample_leaf sample_entries) sample_node 2 = Some (n1, n2, k, d) \<and>
     leaf_contents sample_tree n1 = Some (take 2 sample_entries) \<and>
     leaf_contents sample_tree n2 = Some (drop 2 sample_entries)"
proof -
  have "entries_ok sample_tree (drop 2 sample_entries)"
    by (rule sample_list_ok) (auto dest: in_set_dropD)
  then show ?thesis
    using leaf_split_correct [OF sample_repr [OF sample_entries_ok], of 2 sample_node]
    by (fastforce simp: entries_ok_def numeral_2_eq_2)
qed

section \<open>Merging and balancing\<close>

text \<open>C9: \<open>merge_nodes_leaf\<close> succeeds exactly if the joined contents fit.  Then the left node holds
  both contents in order, takes over the link to the next leaf, and the right node is empty;
  otherwise neither node changes.\<close>

theorem merge_nodes_leaf_correct:
  assumes "leaf_repr bt from es" and "leaf_repr bt to ts"
  shows "if leaf_used bt (ts @ es) \<le> nodesize_less_hdr bt
    then \<exists>from' to'. merge_nodes_leaf bt from to = Some (from', to',
           int (btree_leaf_used_space to') - int (btree_leaf_used_space from + btree_leaf_used_space to), True) \<and>
         leaf_repr bt from' [] \<and> leaf_repr bt to' (ts @ es) \<and> leaf_contents bt to' = Some (ts @ es) \<and>
         ln_next to' = ln_next from
    else merge_nodes_leaf bt from to = Some (from, to, 0, False)"
proof -
  obtain t: "tree_ok bt" and oke: "entries_ok bt es" and fr: "from = encode_leaf bt from es"
    using assms(1) by (rule leaf_reprE)
  obtain okt: "entries_ok bt ts" and tn: "to = encode_leaf bt to ts"
    using assms(2) by (rule leaf_reprE)
  note m = merge_nodes_leaf_encoded [OF t oke okt, of "from" "to", folded fr tn]
  show ?thesis
  proof (cases "leaf_used bt (ts @ es) \<le> nodesize_less_hdr bt")
    case True
    then have ok: "entries_ok bt (ts @ es)" using oke okt by (auto simp: entries_ok_def)
    show ?thesis
      using m True leaf_reprI [OF t ok, of "to\<lparr>ln_next := ln_next from\<rparr>"] leaf_reprI [OF t entries_ok_Nil, of "from"]
        leaf_contents_encoded [OF t ok, of "to\<lparr>ln_next := ln_next from\<rparr>"] leaf_repr_used [OF assms(1)] leaf_repr_used [OF assms(2)]
      by (auto simp: used_space_encode)
  qed (use m in simp)
qed


theorem merge_nodes_leaf_witness:
  "\<exists>from' to'. merge_nodes_leaf sample_tree (sample_leaf (drop 1 sample_entries)) (sample_leaf (take 1 sample_entries))
       = Some (from', to', int (btree_leaf_used_space to') - int (btree_leaf_used_space (sample_leaf (drop 1 sample_entries))
           + btree_leaf_used_space (sample_leaf (take 1 sample_entries))), True) \<and>
     leaf_contents sample_tree to' = Some sample_entries"
proof -
  have "entries_ok sample_tree (drop 1 sample_entries)" "entries_ok sample_tree (take 1 sample_entries)"
    by (rule sample_list_ok; auto dest: in_set_dropD in_set_takeD)+
  then show ?thesis
    using merge_nodes_leaf_correct [OF sample_repr sample_repr, of "drop 1 sample_entries" "take 1 sample_entries"]
      sample_entries_ok by (auto simp: entries_ok_def)
qed

text \<open>C10: Moving keys to the right neighbour (\<open>btree_leaf_shift_right\<close>) loses and invents nothing: the
  last \<open>k\<close> entries of the left node move to the front of the right one, both nodes stay within their
  size, the left node keeps an entry, and if keys moved the new separator fits into the parent.\<close>

theorem shift_right_correct:
  assumes "leaf_repr bt from es" and "leaf_repr bt to ts" and "es \<noteq> []"
  shows "\<exists>k from' to'. k < length es \<and>
     btree_leaf_shift_right bt from to max_keylen = Some (from', to',
       if k = 0 then None else Some (entry_info (es ! (length es - k - 1)))) \<and>
     leaf_repr bt from' (take (length es - k) es) \<and> leaf_repr bt to' (drop (length es - k) es @ ts) \<and>
     leaf_contents bt from' = Some (take (length es - k) es) \<and>
     leaf_contents bt to' = Some (drop (length es - k) es @ ts) \<and>
     (k = 0 \<or> length (le_key (es ! (length es - k - 1))) \<le> max_keylen)"
proof -
  obtain t: "tree_ok bt" and oke: "entries_ok bt es" and fr: "from = encode_leaf bt from es"
    using assms(1) by (rule leaf_reprE)
  obtain okt: "entries_ok bt ts" and tn: "to = encode_leaf bt to ts"
    using assms(2) by (rule leaf_reprE)
  from shift_right_encoded [OF t oke okt assms(3), of "from" "to" max_keylen, folded fr tn]
  obtain k where k: "k < length es" "entries_ok bt (drop (length es - k) es @ ts)"
    "btree_leaf_shift_right bt from to max_keylen =
      Some (encode_leaf bt from (take (length es - k) es), encode_leaf bt to (drop (length es - k) es @ ts),
            if k = 0 then None else Some (entry_info (es ! (length es - k - 1))))"
    "0 < k \<Longrightarrow> length (le_key (es ! (length es - k - 1))) \<le> max_keylen" by blast
  note ok1 = entries_ok_take [OF oke, of "length es - k"]
  show ?thesis
    by (intro exI [of _ k] exI [of _ "encode_leaf bt from (take (length es - k) es)"]
        exI [of _ "encode_leaf bt to (drop (length es - k) es @ ts)"] conjI)
      (use k in \<open>auto intro: leaf_reprI [OF t ok1] leaf_reprI [OF t k(2)] leaf_contents_encoded [OF t ok1]
        leaf_contents_encoded [OF t k(2)]\<close>)
qed

theorem shift_right_witness:
  "\<exists>k from' to' ki. k < 3 \<and>
     btree_leaf_shift_right sample_tree (sample_leaf sample_entries) (sample_leaf []) 100 = Some (from', to', ki) \<and>
     leaf_contents sample_tree from' = Some (take (3 - k) sample_entries) \<and>
     leaf_contents sample_tree to' = Some (drop (3 - k) sample_entries @ [])"
proof -
  have "sample_entries \<noteq> []" by (simp add: sample_entries_def)
  from shift_right_correct [OF sample_repr [OF sample_entries_ok] sample_repr [OF entries_ok_Nil] this, of 100]
  show ?thesis unfolding sample_lengths by blast
qed



section \<open>Sequences of operations\<close>

text \<open>C5: Any sequence of insertions and removals that starts on a freshly initialised node and stays
  within the node refines the same sequence on lists: no step fails, and reading the final node
  gives the list that the abstract sequence produces.\<close>

theorem leaf_ops_refine:
  assumes "tree_ok bt" and "ops_legal (entries_ok bt) ps []"
  shows "\<exists>n'. run_ops (leaf_insert bt) (leaf_remove bt) ps (btree_leaf_init n) = Some n' \<and>
     leaf_contents bt n' = Some (fold op_spec ps [])"
  using leaf.run_refines [OF leaf_repr_init [OF assms(1)] assms(2), of n] leaf_contents_encoded
  by (metis leaf_repr_def)

theorem leaf_ops_refine_witness:
  "\<exists>n'. run_ops (leaf_insert sample_tree) (leaf_remove sample_tree)
       [LInsert 0 (big_entry 1), LInsert 0 (big_entry 2), LRemove 1, LInsert 1 sample_new] (btree_leaf_init sample_node) = Some n' \<and>
     leaf_contents sample_tree n' = Some [big_entry 2, sample_new]"
  using leaf_ops_refine [OF sample_tree_ok, of "[LInsert 0 (big_entry 1), LInsert 0 (big_entry 2), LRemove 1, LInsert 1 sample_new]" sample_node]
    four_entries_fit [OF sample_tree_ok] big_entry_ok sample_new_ok
  by (simp add: insert_at_def remove_at_def)

end
