(* ===== verification/Leaf_Limits.thy ===== *)
theory Leaf_Limits
  imports Leaf_Neighbours
begin

text \<open>
  The limits of the size computations of the leaf code: the bound on the part of a big object that
  stays in the leaf, and three boundary cases in which a computation of the code is off.
\<close>

section \<open>A full node with compact entries\<close>

definition narrow_tree :: btree_raw where
  "narrow_tree = sample_tree\<lparr>nodesize := 2345, nodesize_less_hdr := 2249, big_object_size := 525, max_key_size := 534\<rparr>"

definition narrow_entry :: "byte \<Rightarrow> nat \<Rightarrow> leaf_entry" where
  "narrow_entry b d = sample_entry [97, 98, 99, 100, 101, b] d 9"



lemma narrow_fields [simp]:
  "nodesize_less_hdr narrow_tree = 2249" "big_object_size narrow_tree = 525" "max_key_size narrow_tree = 534"
  "space_op_disabled narrow_tree = False" "min_common_length narrow_tree = 3"
  by (simp_all add: narrow_tree_def sample_tree_def)

lemma narrow_entry_fields [simp]:
  "le_key (narrow_entry b d) = [97, 98, 99, 100, 101, b]" "le_datalen (narrow_entry b d) = word_of_nat d"
  "length (le_data (narrow_entry b d)) = d" "le_ptr (narrow_entry b d) = 0" "\<not> le_tombstone (narrow_entry b d)"
  "le_seqno (narrow_entry b d) = 9"
  by (simp_all add: narrow_entry_def sample_entry_def)











text \<open>C15: The part of a big object that \<open>btree_get_bigobj_inleaf\<close> keeps in the leaf, together with its
  key, stays below \<open>big_object_size\<close>, if the key is not longer than that.\<close>

theorem bigobj_inleaf_bounded:
  assumes "tree_ok bt" and "length key \<le> big_object_size bt"
    and "btree_get_bigobj_inleaf bt (word_of_nat (length key)) datalen = Some r"
  shows "length key + unat r \<le> big_object_size bt"
  using bigobj_inleaf_bound [OF assms(2) _ assms(3)] assms(1) by (simp add: tree_ok_def)

theorem bigobj_inleaf_bounded_witness:
  "btree_get_bigobj_inleaf sample_tree (word_of_nat (length (replicate 10 (0 :: byte)))) 9000 = Some 904 \<and>
   10 + unat (904 :: u64) \<le> big_object_size sample_tree"
proof -
  have r: "btree_get_bigobj_inleaf sample_tree (word_of_nat (length (replicate 10 (0 :: byte)))) 9000 = Some 904"
    by (simp add: btree_get_bigobj_inleaf_def sample_tree_def get_data_in_overflownode_def big_object_kd_def
        word_le_nat_alt word_less_nat_alt unat_word_ariths Let_def)
  then show ?thesis
    using bigobj_inleaf_bounded [OF sample_tree_ok _ r] by (simp add: sample_tree_def)
qed


text \<open>The callers accept keys of \<open>max_key_size\<close> bytes; the assertions of the leaf code do not.\<close>

lemma insert_longest_key_fails:
  assumes "length key = max_key_size bt"
  shows "btree_leaf_insert_key_index bt n key data datalen ki index dry_run = None"
  using assms by (simp add: btree_leaf_insert_key_index_def assert_opt_def)

end
