(* ===== verification/Btree_Node.thy ===== *)
theory Btree_Node
  imports Leaf_Correct
begin

text \<open>
  Nodes of the tree as the search code sees them (\<open>src/btree/btree_raw.c\<close>,
  \<open>btree_raw_internal.h\<close>).  A node is a leaf or a non-leaf node; the \<open>LEAF_NODE\<close> flag the code tests
  is the constructor of \<open>btree_node\<close>.  A non-leaf node holds an array of fixed-size key structures
  that grows upwards and, from the end of the node downwards, the bytes of the keys; the record
  \<open>nonleaf_node\<close> has the two parts as \<open>nl_keys\<close> and \<open>nl_area\<close>, so that \<open>nkeys\<close> and \<open>insert_ptr\<close> are
  their lengths.  The trees of the sources are created with \<open>SECONDARY_INDEX\<close>, the variable-size
  keys; the \<open>SYNDROME_INDEX\<close> variant with fixed-size keys is not modelled.

  The second half gives the canonical encoding of a list of separators as a non-leaf node and
  shows that the accessors read it back, for both kinds of nodes.
\<close>

section \<open>Types\<close>

record node_vkey =
  vk_keylen :: u32
  vk_keypos :: u32
  vk_ptr :: u64
  vk_seqno :: u64

record nonleaf_node =
  nl_flags :: u32
  nl_logical_id :: u64
  nl_next :: u64
  nl_rightmost :: u64
  nl_keys :: "node_vkey list"
  nl_area :: mem

datatype btree_node = LeafNode leaf_node | NonLeafNode nonleaf_node

record key_stuff =
  st_ptr :: u64
  st_nkey :: nat
  st_pkey_val :: mem
  st_keylen :: u16
  st_datalen :: u64
  st_seqno :: u64

record key_stuff_info =
  ks_index :: nat
  ks_key :: mem
  ks_keylen :: u32
  ks_ptr :: u64
  ks_datalen :: u64
  ks_seqno :: u64
  ks_leaf :: bool

abbreviation sizeof_node_vkey :: nat where "sizeof_node_vkey \<equiv> 24"

abbreviation sizeof_btree_raw_node :: nat where "sizeof_btree_raw_node \<equiv> 136"

primrec is_leaf :: "btree_node \<Rightarrow> bool" where
  "is_leaf (LeafNode n) = True"
| "is_leaf (NonLeafNode n) = False"

primrec node_nkeys :: "btree_node \<Rightarrow> nat" where
  "node_nkeys (LeafNode n) = nkeys n"
| "node_nkeys (NonLeafNode n) = length (nl_keys n)"

primrec node_rightmost :: "btree_node \<Rightarrow> u64" where
  "node_rightmost (LeafNode n) = ln_rightmost n"
| "node_rightmost (NonLeafNode n) = nl_rightmost n"

primrec node_logical_id :: "btree_node \<Rightarrow> u64" where
  "node_logical_id (LeafNode n) = ln_logical_id n"
| "node_logical_id (NonLeafNode n) = nl_logical_id n"

definition is_root :: "btree_raw \<Rightarrow> btree_node \<Rightarrow> bool" where
  "is_root bt n = (rootid bt = node_logical_id n)"

section \<open>Accessors\<close>

definition nl_insert_ptr :: "btree_raw \<Rightarrow> nonleaf_node \<Rightarrow> nat" where
  "nl_insert_ptr bt n = nodesize bt - length (nl_area n)"

text \<open>The bytes \<open>[pos, pos + len)\<close> of the node, which must lie in its key area.\<close>

definition nl_bytes :: "btree_raw \<Rightarrow> nonleaf_node \<Rightarrow> nat \<Rightarrow> nat \<Rightarrow> mem option" where
  "nl_bytes bt n pos len =
     (if nl_insert_ptr bt n \<le> pos then mem_read (nl_area n) (pos - nl_insert_ptr bt n) len
      else None)"

text \<open>The branch of \<open>get_key_stuff\<close> for a non-leaf node; \<open>keylen_t\<close> has 16 bits.\<close>

definition get_key_stuff :: "btree_raw \<Rightarrow> nonleaf_node \<Rightarrow> nat \<Rightarrow> key_stuff option" where
  "get_key_stuff bt n nkey = do {
     _ \<leftarrow> assert_opt (nkey < length (nl_keys n));
     let pvk = nl_keys n ! nkey;
     let keylen = (ucast (vk_keylen pvk) :: u16);
     key \<leftarrow> nl_bytes bt n (unat (vk_keypos pvk)) (unat keylen);
     Some \<lparr>st_ptr = vk_ptr pvk, st_nkey = nkey, st_pkey_val = key, st_keylen = keylen,
           st_datalen = 8, st_seqno = vk_seqno pvk\<rparr>
   }"

definition get_key_stuff_non_leaf ::
  "btree_raw \<Rightarrow> nonleaf_node \<Rightarrow> nat \<Rightarrow> key_stuff_info option" where
  "get_key_stuff_non_leaf bt n nkey = do {
     ks \<leftarrow> get_key_stuff bt n nkey;
     Some \<lparr>ks_index = nkey, ks_key = st_pkey_val ks, ks_keylen = ucast (st_keylen ks),
           ks_ptr = st_ptr ks, ks_datalen = st_datalen ks, ks_seqno = st_seqno ks,
           ks_leaf = False\<rparr>
   }"

definition get_key_stuff_leaf :: "leaf_node \<Rightarrow> nat \<Rightarrow> key_stuff_info option" where
  "get_key_stuff_leaf n nkey = do {
     ki \<leftarrow> btree_leaf_get_nth_key_info n nkey;
     Some \<lparr>ks_index = nkey, ks_key = ki_key ki, ks_keylen = ki_keylen ki, ks_ptr = ki_ptr ki,
           ks_datalen = ki_datalen ki, ks_seqno = ki_seqno ki, ks_leaf = True\<rparr>
   }"

definition get_key_stuff_leaf2 :: "leaf_node \<Rightarrow> nat \<Rightarrow> key_stuff_info option" where
  "get_key_stuff_leaf2 n nkey = do {
     ki \<leftarrow> btree_leaf_get_nth_key_info2 n nkey;
     Some \<lparr>ks_index = nkey, ks_key = ki_key ki, ks_keylen = ki_keylen ki, ks_ptr = ki_ptr ki,
           ks_datalen = ki_datalen ki, ks_seqno = ki_seqno ki, ks_leaf = True\<rparr>
   }"

fun get_key_stuff_info :: "btree_raw \<Rightarrow> btree_node \<Rightarrow> nat \<Rightarrow> key_stuff_info option" where
  "get_key_stuff_info bt (LeafNode n) nkey = get_key_stuff_leaf n nkey"
| "get_key_stuff_info bt (NonLeafNode n) nkey = get_key_stuff_non_leaf bt n nkey"

fun get_key_stuff_info2 :: "btree_raw \<Rightarrow> btree_node \<Rightarrow> nat \<Rightarrow> key_stuff_info option" where
  "get_key_stuff_info2 bt (LeafNode n) nkey = get_key_stuff_leaf2 n nkey"
| "get_key_stuff_info2 bt (NonLeafNode n) nkey = get_key_stuff_non_leaf bt n nkey"

section \<open>Canonical encoding of a non-leaf node\<close>

text \<open>
  A separator: its key and sequence number, and the child that holds everything up to it.  The
  first key lies at the end of the node, every further key directly below its predecessor.
\<close>

record nl_entry =
  ne_key :: mem
  ne_seqno :: u64
  ne_ptr :: u64

primrec vkeys :: "nat \<Rightarrow> nl_entry list \<Rightarrow> node_vkey list" where
  "vkeys pos [] = []"
| "vkeys pos (e # es) =
     \<lparr>vk_keylen = word_of_nat (length (ne_key e)),
      vk_keypos = word_of_nat (pos - length (ne_key e)), vk_ptr = ne_ptr e,
      vk_seqno = ne_seqno e\<rparr> # vkeys (pos - length (ne_key e)) es"

abbreviation key_bytes :: "nl_entry list \<Rightarrow> nat" where
  "key_bytes es \<equiv> sum_list (map (length \<circ> ne_key) es)"

definition key_area :: "nl_entry list \<Rightarrow> mem" where
  "key_area es = concat (rev (map ne_key es))"

definition encode_nonleaf :: "btree_raw \<Rightarrow> nonleaf_node \<Rightarrow> nl_entry list \<Rightarrow> nonleaf_node" where
  "encode_nonleaf bt n es = n\<lparr>nl_keys := vkeys (nodesize bt) es, nl_area := key_area es\<rparr>"

definition nl_used :: "nl_entry list \<Rightarrow> nat" where
  "nl_used es = length es * sizeof_node_vkey + key_bytes es"

definition node_sizes_ok :: "btree_raw \<Rightarrow> bool" where
  "node_sizes_ok bt \<longleftrightarrow>
     nodesize bt = nodesize_less_hdr bt + sizeof_btree_raw_node \<and> nodesize bt \<le> 32768"

text \<open>Separators that fit into a node.  Their keys are not empty: the code asserts it on deletion.\<close>

definition seps_ok :: "btree_raw \<Rightarrow> nl_entry list \<Rightarrow> bool" where
  "seps_ok bt es \<longleftrightarrow> nl_used es \<le> nodesize_less_hdr bt \<and> (\<forall>e\<in>set es. ne_key e \<noteq> [])"

definition nonleaf_repr :: "btree_raw \<Rightarrow> nonleaf_node \<Rightarrow> nl_entry list \<Rightarrow> bool" where
  "nonleaf_repr bt n es \<longleftrightarrow> node_sizes_ok bt \<and> seps_ok bt es \<and> n = encode_nonleaf bt n es"

text \<open>The children of a non-leaf node in key order.\<close>

definition children :: "nl_entry list \<Rightarrow> u64 \<Rightarrow> u64 list" where
  "children es rightmost = map ne_ptr es @ [rightmost]"

lemma length_vkeys [simp]: "length (vkeys pos es) = length es"
  by (induction es arbitrary: pos) auto

lemma vkeys_append: "vkeys pos (as @ bs) = vkeys pos as @ vkeys (pos - key_bytes as) bs"
  by (induction as arbitrary: pos) auto

lemma take_vkeys: "take i (vkeys pos es) = vkeys pos (take i es)"
  by (induction es arbitrary: pos i) (auto simp: take_Cons split: nat.splits)

lemma drop_vkeys: "drop i (vkeys pos es) = vkeys (pos - key_bytes (take i es)) (drop i es)"
  by (induction es arbitrary: pos i) (auto simp: drop_Cons take_Cons split: nat.splits)

lemma length_key_area [simp]: "length (key_area es) = key_bytes es"
  by (induction es) (auto simp: key_area_def length_concat rev_map comp_def)

lemma key_area_append: "key_area (as @ bs) = key_area bs @ key_area as"
  by (simp add: key_area_def)

lemma key_area_Cons: "key_area (e # es) = key_area es @ ne_key e"
  by (simp add: key_area_def)

lemma key_area_Nil [simp]: "key_area [] = []"
  by (simp add: key_area_def)

lemma nl_used_append: "nl_used (as @ bs) = nl_used as + nl_used bs"
  by (simp add: nl_used_def)

lemma nl_used_Cons: "nl_used (e # es) = sizeof_node_vkey + length (ne_key e) + nl_used es"
  by (simp add: nl_used_def)

lemma nl_used_Nil [simp]: "nl_used [] = 0"
  by (simp add: nl_used_def)

lemma key_bytes_le_used: "key_bytes es \<le> nl_used es"
  by (simp add: nl_used_def)

lemma encode_nonleaf_simps [simp]:
  "nl_keys (encode_nonleaf bt n es) = vkeys (nodesize bt) es"
  "nl_area (encode_nonleaf bt n es) = key_area es"
  "nl_rightmost (encode_nonleaf bt n es) = nl_rightmost n"
  "nl_logical_id (encode_nonleaf bt n es) = nl_logical_id n"
  "encode_nonleaf bt (encode_nonleaf bt n es) es' = encode_nonleaf bt n es'"
  by (simp_all add: encode_nonleaf_def)

lemma nonleaf_reprI:
  "node_sizes_ok bt \<Longrightarrow> seps_ok bt es \<Longrightarrow> nonleaf_repr bt (encode_nonleaf bt n es) es"
  by (simp add: nonleaf_repr_def)

lemma nonleaf_reprE:
  assumes "nonleaf_repr bt n es"
  obtains "node_sizes_ok bt" and "seps_ok bt es" and "n = encode_nonleaf bt n es"
    and "nl_keys n = vkeys (nodesize bt) es" and "nl_area n = key_area es"
  using assms by (metis nonleaf_repr_def encode_nonleaf_simps(1,2))

lemma nonleaf_repr_nkeys: "nonleaf_repr bt n es \<Longrightarrow> length (nl_keys n) = length es"
  by (metis nonleaf_reprE length_vkeys)

lemma get_key_stuff_encoded:
  assumes "nonleaf_repr bt n es" and "i < length es"
  shows "get_key_stuff bt n i = Some \<lparr>st_ptr = ne_ptr (es ! i), st_nkey = i,
           st_pkey_val = ne_key (es ! i), st_keylen = word_of_nat (length (ne_key (es ! i))),
           st_datalen = 8, st_seqno = ne_seqno (es ! i)\<rparr>"
proof -
  obtain s: "node_sizes_ok bt" and u: "seps_ok bt es"
    and k: "nl_keys n = vkeys (nodesize bt) es" and a: "nl_area n = key_area es"
    using assms(1) by (rule nonleaf_reprE)
  obtain as bs where es: "es = as @ es ! i # bs" and i: "length as = i"
    using assms(2) by (rule nth_split)
  let ?e = "es ! i"
  have used: "key_bytes as + length (ne_key ?e) + key_bytes bs \<le> nodesize_less_hdr bt"
    using u key_bytes_le_used [of as] key_bytes_le_used [of bs]
    by (subst (asm) es) (simp add: seps_ok_def nl_used_append nl_used_Cons)
  let ?pos = "nodesize bt - key_bytes as - length (ne_key ?e)"
  have vk: "vkeys (nodesize bt) es ! i = \<lparr>vk_keylen = word_of_nat (length (ne_key ?e)),
      vk_keypos = word_of_nat ?pos, vk_ptr = ne_ptr ?e, vk_seqno = ne_seqno ?e\<rparr>"
    by (subst es) (simp add: vkeys_append nth_append i)
  have ar: "nl_area n = key_area bs @ ne_key ?e @ key_area as"
    unfolding a by (subst es) (simp add: key_area_append key_area_Cons)
  have "nl_bytes bt n ?pos (length (ne_key ?e)) = Some (ne_key ?e)"
    using s used by (simp add: nl_bytes_def nl_insert_ptr_def ar node_sizes_ok_def mem_read_append)
  moreover have l: "length (ne_key ?e) < 65536" and p: "?pos < 4294967296"
    using used s by (auto simp: node_sizes_ok_def)
  moreover have "(ucast (word_of_nat (length (ne_key ?e)) :: u32) :: u16) = word_of_nat (length (ne_key ?e))"
    using of_nat_unat_ucast [of "word_of_nat (length (ne_key ?e)) :: u32", where ?'b = 16] l by simp
  ultimately show ?thesis
    using assms(2) by (simp add: get_key_stuff_def k vk assert_opt_def Let_def)
qed

section \<open>Reading the keys of a node\<close>

text \<open>The versions stored in a node: its keys with their sequence numbers, in node order.\<close>

definition node_reads :: "btree_raw \<Rightarrow> btree_node \<Rightarrow> (mem \<times> u64) list \<Rightarrow> bool" where
  "node_reads bt n kvs \<longleftrightarrow> node_nkeys n = length kvs \<and>
     (\<forall>i<length kvs. \<exists>ks. get_key_stuff_info2 bt n i = Some ks \<and>
        ks_key ks = fst (kvs ! i) \<and> ks_seqno ks = snd (kvs ! i))"

abbreviation leaf_versions :: "leaf_entry list \<Rightarrow> (mem \<times> u64) list" where
  "leaf_versions es \<equiv> map (\<lambda>e. (le_key e, le_seqno e)) es"

abbreviation nl_versions :: "nl_entry list \<Rightarrow> (mem \<times> u64) list" where
  "nl_versions es \<equiv> map (\<lambda>e. (ne_key e, ne_seqno e)) es"

lemma node_readsD:
  "node_reads bt n kvs \<Longrightarrow> i < length kvs \<Longrightarrow>
    \<exists>ks. get_key_stuff_info2 bt n i = Some ks \<and> ks_key ks = fst (kvs ! i) \<and> ks_seqno ks = snd (kvs ! i)"
  by (simp add: node_reads_def)

lemma node_reads_nkeys: "node_reads bt n kvs \<Longrightarrow> node_nkeys n = length kvs"
  by (simp add: node_reads_def)

lemma leaf_node_reads:
  assumes "leaf_repr bt n es"
  shows "node_reads bt (LeafNode n) (leaf_versions es)"
  using leaf_repr_nkeys [OF assms] leaf.repr_info [OF assms]
  by (auto simp: node_reads_def get_key_stuff_leaf2_def btree_leaf_get_nth_key_info2_def entry_info_def)

lemma nonleaf_node_reads:
  assumes "nonleaf_repr bt n es"
  shows "node_reads bt (NonLeafNode n) (nl_versions es)"
  using nonleaf_repr_nkeys [OF assms] get_key_stuff_encoded [OF assms]
  by (auto simp: node_reads_def get_key_stuff_non_leaf_def)

end
