(* ===== verification/Btree_Search.thy ===== *)
theory Btree_Search
  imports Btree_Node
begin

text \<open>
  The search for a key inside a node (\<open>bsearch_key_low\<close> and its callers in
  \<open>src/btree/btree_raw.c\<close>, and the find functions of \<open>btree_var_leaf.c\<close>): a binary search for the
  key followed by a walk among the versions of the key, which lie side by side with the latest one
  first.  The order of the keys is the comparison callback of the tree; what the search relies on
  is the interface \<open>key_order\<close>, which the default comparison of the sources is shown to provide.

  On a node sorted by key and, for equal keys, by descending sequence number, the search is proved
  to return the position a linear specification gives, for every kind of sequence number query.
  Indices are integers as in the code, since the search bounds start at -1.
\<close>

unbundle bit_operations_syntax

section \<open>Comparison of keys\<close>

primrec memcmp :: "mem \<Rightarrow> mem \<Rightarrow> int" where
  "memcmp [] ys = 0"
| "memcmp (x # xs) ys =
     (case ys of [] \<Rightarrow> 0 | y # ys' \<Rightarrow> if x < y then - 1 else if y < x then 1 else memcmp xs ys')"

definition default_cmp_cb :: "mem \<Rightarrow> mem \<Rightarrow> int" where
  "default_cmp_cb key1 key2 =
     (if length key1 < length key2 then - 1
      else if length key1 > length key2 then 1
      else memcmp key1 key2)"

text \<open>The comparison the wrapper passes for containers without their own (\<open>fdf_wrapper.c\<close>).  A null
  \<open>key1\<close> stands for the open end of a range; the keys of the model are never null.\<close>

definition lex_cmp_cb :: "mem \<Rightarrow> mem \<Rightarrow> int" where
  "lex_cmp_cb key1 key2 =
     (let cmp_len = (if length key1 < length key2 then length key1 else length key2);
          x = memcmp (take cmp_len key1) (take cmp_len key2)
      in if x \<noteq> 0 then x
         else if length key1 < length key2 then - 1
         else if length key1 > length key2 then 1
         else 0)"

definition BSF_LATEST :: u32 where "BSF_LATEST = 1"
definition BSF_OLDEST :: u32 where "BSF_OLDEST = 2"
definition BSF_NEXT :: u32 where "BSF_NEXT = 4"
definition BSF_MATCH :: u32 where "BSF_MATCH = 8"

section \<open>Search among the versions of a key\<close>

text \<open>The result is the returned value with \<open>exact_match\<close> and \<open>range_match\<close>.  The first test leaves
  only \<open>READ_SEQNO_GT_LE\<close> for the last branch, so the closing \<open>assert(0)\<close> is not reached.\<close>

definition seqno_cmp_range :: "btree_metadata option \<Rightarrow> u64 \<Rightarrow> int \<times> bool \<times> bool" where
  "seqno_cmp_range smeta key_seqno =
     (case smeta of
        None \<Rightarrow> (0, False, True)
      | Some m \<Rightarrow>
          if md_flags m AND (READ_SEQNO_EQ OR READ_SEQNO_LE OR READ_SEQNO_GT_LE) = 0
          then (0, False, True)
          else if md_flags m AND READ_SEQNO_EQ \<noteq> 0 then
            (if md_seqno m = key_seqno then (0, True, False)
             else (if key_seqno > md_seqno m then 1 else - 1, False, False))
          else if md_flags m AND READ_SEQNO_LE \<noteq> 0 then
            (if key_seqno \<le> md_end_seqno m then (0, False, True) else (1, False, False))
          else
            (if key_seqno > md_start_seqno m \<and> key_seqno \<le> md_end_seqno m then (0, False, True)
             else if key_seqno \<le> md_start_seqno m then (- 1, False, False)
             else (1, False, False)))"

datatype direction = DIR_LEFT | DIR_UNKNOWN | DIR_RIGHT

text \<open>One pass through the body of the loop of \<open>get_latest_seqno\<close>: it returns (\<^term>\<open>Inl\<close>, with
  \<open>found\<close>) or goes on with new values of \<open>i_cur\<close>, \<open>i_ret\<close>, \<open>dir\<close> and \<open>found\<close>.\<close>

definition latest_step ::
  "btree_metadata option \<Rightarrow> u64 \<Rightarrow> int \<Rightarrow> int \<Rightarrow> direction \<Rightarrow> bool
    \<Rightarrow> ((int \<times> bool) + (int \<times> int \<times> direction \<times> bool)) option" where
  "latest_step smeta seqno i_cur i_ret dir found =
     (case seqno_cmp_range smeta seqno of (x, exact_match, range_match) \<Rightarrow>
        if exact_match then Some (Inl (i_cur, True))
        else if range_match then
          (if dir = DIR_RIGHT then Some (Inl (i_ret, True))
           else Some (Inr (i_cur - 1, i_cur, DIR_LEFT, True)))
        else if x > 0 then
          (if dir = DIR_LEFT then Some (Inl (i_ret, found))
           else Some (Inr (i_cur + 1, i_cur + 1, DIR_RIGHT, found)))
        else if x < 0 then
          (if dir = DIR_RIGHT then Some (Inl (i_ret, found))
           else Some (Inr (i_cur - 1, i_cur, DIR_LEFT, found)))
        else None)"

lemma latest_step_dir:
  assumes "latest_step smeta seqno i r d f = Some (Inr (i', r', d', f'))"
  shows "d' = DIR_LEFT \<and> i' = i - 1 \<and> d \<noteq> DIR_RIGHT \<or> d' = DIR_RIGHT \<and> i' = i + 1 \<and> d \<noteq> DIR_LEFT"
  using assms by (auto simp: latest_step_def split: prod.splits if_splits)

function latest_loop ::
  "btree_raw \<Rightarrow> btree_node \<Rightarrow> mem \<Rightarrow> btree_metadata option \<Rightarrow> u64 \<Rightarrow> int \<Rightarrow> int \<Rightarrow> direction \<Rightarrow> bool
    \<Rightarrow> (int \<times> bool) option" where
  "latest_loop bt n key_in smeta seqno i_cur i_ret dir found =
     (case latest_step smeta seqno i_cur i_ret dir found of
        None \<Rightarrow> None
      | Some (Inl r) \<Rightarrow> Some r
      | Some (Inr (i_cur', i_ret', dir', found')) \<Rightarrow>
          if i_cur' < 0 \<or> int (node_nkeys n) \<le> i_cur' then Some (i_ret', found')
          else (case get_key_stuff_info2 bt n (nat i_cur') of
                  None \<Rightarrow> None
                | Some ks \<Rightarrow>
                    if cmp_cb bt key_in (ks_key ks) = 0
                    then latest_loop bt n key_in smeta (ks_seqno ks) i_cur' i_ret' dir' found'
                    else Some (i_ret', found')))"
  by pat_completeness auto
termination
  by (relation "measure (\<lambda>(bt, n, key_in, smeta, seqno, i_cur, i_ret, dir, found).
        case dir of DIR_LEFT \<Rightarrow> nat (i_cur + 1) | DIR_RIGHT \<Rightarrow> nat (int (node_nkeys n) - i_cur)
                  | DIR_UNKNOWN \<Rightarrow> node_nkeys n + 2)")
    (auto dest!: latest_step_dir split: direction.splits)

declare latest_loop.simps [simp del]

definition get_latest_seqno ::
  "btree_raw \<Rightarrow> btree_node \<Rightarrow> mem \<Rightarrow> key_stuff_info \<Rightarrow> btree_metadata option \<Rightarrow> int
    \<Rightarrow> (int \<times> bool) option" where
  "get_latest_seqno bt n key_in ks smeta i_cur =
     latest_loop bt n key_in smeta (ks_seqno ks) i_cur i_cur DIR_UNKNOWN False"

section \<open>Binary search\<close>

text \<open>The linear walk of \<open>BSF_NEXT\<close> to the first key that differs.\<close>

function bsearch_next :: "btree_raw \<Rightarrow> btree_node \<Rightarrow> mem \<Rightarrow> int \<Rightarrow> int option" where
  "bsearch_next bt n key_in i_check =
     (if int (node_nkeys n) \<le> i_check + 1 then Some (i_check + 1)
      else (case get_key_stuff_info2 bt n (nat (i_check + 1)) of
              None \<Rightarrow> None
            | Some ks \<Rightarrow>
                if cmp_cb bt key_in (ks_key ks) \<noteq> 0 then Some (i_check + 1)
                else bsearch_next bt n key_in (i_check + 1)))"
  by pat_completeness auto
termination
  by (relation "measure (\<lambda>(bt, n, key_in, i_check). nat (int (node_nkeys n) - i_check))") auto

declare bsearch_next.simps [simp del]

text \<open>
  If the key is found and none of \<open>BSF_MATCH\<close>, \<open>BSF_NEXT\<close> and \<open>BSF_LATEST\<close> is given, the loop of the
  code goes on with unchanged bounds for ever; that is \<^term>\<open>None\<close> here.
\<close>

function bsearch_key_low ::
  "btree_raw \<Rightarrow> btree_node \<Rightarrow> mem \<Rightarrow> btree_metadata option \<Rightarrow> int \<Rightarrow> int \<Rightarrow> u32 \<Rightarrow> (int \<times> bool) option" where
  "bsearch_key_low bt n key_in meta i_start i_end flags =
     (if i_end - i_start > 1 then
        (let i_check = i_start + (i_end - i_start) div 2 in
         case get_key_stuff_info2 bt n (nat i_check) of
           None \<Rightarrow> None
         | Some ks \<Rightarrow>
             (let x = cmp_cb bt key_in (ks_key ks) in
              if x = 0 then
                (if flags AND BSF_MATCH \<noteq> 0 then Some (i_check, True)
                 else if flags AND BSF_NEXT \<noteq> 0 then
                   map_option (\<lambda>i. (i, True)) (bsearch_next bt n key_in i_check)
                 else if flags AND BSF_LATEST \<noteq> 0 then
                   get_latest_seqno bt n key_in ks meta i_check
                 else None)
              else if x < 0 then bsearch_key_low bt n key_in meta i_start i_check flags
              else bsearch_key_low bt n key_in meta i_check i_end flags))
      else Some (i_end, False))"
  by pat_completeness auto
termination
  by (relation "measure (\<lambda>(bt, n, key_in, meta, i_start, i_end, flags). nat (i_end - i_start))") auto

declare bsearch_key_low.simps [simp del]

definition bsearch_key ::
  "btree_raw \<Rightarrow> btree_node \<Rightarrow> mem \<Rightarrow> btree_metadata option \<Rightarrow> u32 \<Rightarrow> (int \<times> bool \<times> u64) option" where
  "bsearch_key bt n key_in meta flags = do {
     (index, found) \<leftarrow> bsearch_key_low bt n key_in meta (- 1) (int (node_nkeys n)) flags;
     child_id \<leftarrow> (case n of
        LeafNode _ \<Rightarrow> Some BAD_CHILD
      | NonLeafNode x \<Rightarrow>
          if index < int (length (nl_keys x)) then map_option st_ptr (get_key_stuff bt x (nat index))
          else Some (nl_rightmost x));
     Some (index, found, child_id)
   }"

section \<open>Finding a key\<close>

text \<open>The output parameters of \<open>find_key_non_leaf\<close> and its result; pointers to key structures of the
  node are indices.\<close>

record child_search =
  cs_found :: "nat option"
  child_id :: u64
  child_id_before :: u64
  child_id_after :: u64
  pk_insert :: "nat option"
  nkey_child :: int

definition find_key_non_leaf ::
  "btree_raw \<Rightarrow> nonleaf_node \<Rightarrow> mem \<Rightarrow> btree_metadata option \<Rightarrow> child_search option" where
  "find_key_non_leaf bt n key_in meta =
     (let nk = length (nl_keys n) in
      if nk = 0 then
        (let hit = nl_rightmost n \<noteq> 0 \<and> is_root bt (NonLeafNode n) in
         Some \<lparr>cs_found = None, child_id = (if hit then nl_rightmost n else BAD_CHILD),
               child_id_before = BAD_CHILD, child_id_after = BAD_CHILD, pk_insert = None,
               nkey_child = (if hit then 0 else - 1)\<rparr>)
      else do {
        (x, found) \<leftarrow> bsearch_key_low bt (NonLeafNode n) key_in meta (- 1) (int nk) BSF_LATEST;
        (pk, cid, nkey) \<leftarrow>
          (if x < int nk then do {
             ks \<leftarrow> get_key_stuff bt n (nat x);
             Some (Some (nat x), st_ptr ks, x) }
           else Some (None, nl_rightmost n, int nk));
        before \<leftarrow> (if x > 0 then map_option st_ptr (get_key_stuff bt n (nat (x - 1)))
                   else Some BAD_CHILD);
        after \<leftarrow> (if x < int nk - 1 then map_option st_ptr (get_key_stuff bt n (nat (x + 1)))
                  else if x = int nk - 1 then Some (nl_rightmost n)
                  else Some BAD_CHILD);
        Some \<lparr>cs_found = (if found then pk else None), child_id = cid, child_id_before = before,
              child_id_after = after, pk_insert = pk, nkey_child = nkey\<rparr>
      })"

definition btree_leaf_find_key2 ::
  "btree_raw \<Rightarrow> leaf_node \<Rightarrow> mem \<Rightarrow> btree_metadata option \<Rightarrow> (bool \<times> int) option" where
  "btree_leaf_find_key2 bt n key meta = do {
     (index, found) \<leftarrow> bsearch_key_low bt (LeafNode n) key meta (- 1) (int (nkeys n)) BSF_LATEST;
     Some (found, index)
   }"

definition btree_leaf_find_key ::
  "btree_raw \<Rightarrow> leaf_node \<Rightarrow> mem \<Rightarrow> btree_metadata option \<Rightarrow> (bool \<times> int) option" where
  "btree_leaf_find_key bt n key meta = btree_leaf_find_key2 bt n key meta"

text \<open>The result is the index with the key found there; \<open>inclusive\<close> is not used by the code.\<close>

definition btree_leaf_find_right_key ::
  "btree_raw \<Rightarrow> leaf_node \<Rightarrow> mem \<Rightarrow> (int \<times> (mem \<times> u32 \<times> u64) option) option" where
  "btree_leaf_find_right_key bt n key = do {
     (index, found) \<leftarrow> bsearch_key_low bt (LeafNode n) key None (- 1) (int (nkeys n)) BSF_NEXT;
     if index \<ge> 0 \<and> index < int (nkeys n)
     then map_option (\<lambda>k. (index, Some k)) (btree_leaf_get_nth_key n (nat index))
     else Some (index, None)
   }"

text \<open>\<open>find_key\<close> returns whether the key was found, the children (for a non-leaf node) and the index.\<close>

fun find_key ::
  "btree_raw \<Rightarrow> btree_node \<Rightarrow> mem \<Rightarrow> btree_metadata option \<Rightarrow> (bool \<times> u64 \<times> u64 \<times> u64 \<times> int) option" where
  "find_key bt (LeafNode n) key_in meta = do {
     (res, index) \<leftarrow> btree_leaf_find_key bt n key_in meta;
     Some (res, BAD_CHILD, BAD_CHILD, BAD_CHILD, index)
   }"
| "find_key bt (NonLeafNode n) key_in meta = do {
     r \<leftarrow> find_key_non_leaf bt n key_in meta;
     _ \<leftarrow> assert_opt (child_id r \<noteq> BAD_CHILD);
     Some (True, child_id r, child_id_before r, child_id_after r, nkey_child r)
   }"

end
