(* ===== verification/Btree_Nonleaf.thy ===== *)
theory Btree_Nonleaf
  imports Btree_Search
begin

text \<open>
  Insertion, deletion and splitting of non-leaf nodes (\<open>src/btree/btree_raw.c\<close>): the byte-level
  routines that keep the array of key structures and the stack of keys at the end of the node in
  step.  Only the branches for non-leaf nodes are reachable (the code asserts it), so only these
  are modelled; statistics counters are left out.

  Positions in the node are natural numbers; an index stands for a pointer to a key structure.
\<close>

section \<open>Positions of the keys\<close>

text \<open>The loop of \<open>update_keypos_low\<close> over the keys from \<open>n_key_start\<close> on; \<open>keypos\<close> has 32 bits.\<close>

primrec keypos_loop :: "u32 \<Rightarrow> node_vkey list \<Rightarrow> node_vkey list" where
  "keypos_loop keypos [] = []"
| "keypos_loop keypos (pvk # pvks) =
     (let pos = keypos - vk_keylen pvk in pvk\<lparr>vk_keypos := pos\<rparr> # keypos_loop pos pvks)"

definition update_keypos_low :: "nonleaf_node \<Rightarrow> nat \<Rightarrow> nat \<Rightarrow> nonleaf_node" where
  "update_keypos_low n n_key_start keypos =
     n\<lparr>nl_keys := take n_key_start (nl_keys n) @
                  keypos_loop (word_of_nat keypos) (drop n_key_start (nl_keys n))\<rparr>"

definition update_keypos :: "btree_raw \<Rightarrow> nonleaf_node \<Rightarrow> nat \<Rightarrow> nonleaf_node" where
  "update_keypos bt n n_key_start = update_keypos_low n n_key_start (nodesize bt)"

definition update_ptr :: "nonleaf_node \<Rightarrow> nat \<Rightarrow> u64 \<Rightarrow> nonleaf_node option" where
  "update_ptr n nkey ptr =
     (if nkey < length (nl_keys n)
      then Some (n\<lparr>nl_keys := (nl_keys n)[nkey := (nl_keys n ! nkey)\<lparr>vk_ptr := ptr\<rparr>]\<rparr>) else None)"

section \<open>Insertion\<close>

text \<open>\<open>vnode_bytes_free\<close>, an unsigned 32-bit value as in the code.\<close>

definition vnode_bytes_free :: "btree_raw \<Rightarrow> nonleaf_node \<Rightarrow> u32" where
  "vnode_bytes_free bt x =
     word_of_nat (nl_insert_ptr bt x) - of_nat sizeof_btree_raw_node
       - word_of_nat (length (nl_keys x) * sizeof_node_vkey)"

text \<open>Where the new key goes: the index of its key structure, the end of its bytes (\<open>pos_split\<close>) and
  the number of bytes below (\<open>nbytes_split\<close>).\<close>

definition insert_position :: "btree_raw \<Rightarrow> nonleaf_node \<Rightarrow> nat option \<Rightarrow> (nat \<times> nat \<times> nat) option" where
  "insert_position bt x pk_ins =
     (case pk_ins of
        None \<Rightarrow> Some (length (nl_keys x), nl_insert_ptr bt x, 0)
      | Some i \<Rightarrow>
          if nl_keys x = [] then Some (length (nl_keys x), nl_insert_ptr bt x, 0)
          else do {
            _ \<leftarrow> assert_opt (i < length (nl_keys x));
            let pvk_insert = nl_keys x ! i;
            let pos_split = unat (vk_keypos pvk_insert) + unat (vk_keylen pvk_insert);
            _ \<leftarrow> assert_opt (unat (vk_keypos pvk_insert) < nodesize bt);
            _ \<leftarrow> assert_opt (unat (vk_keylen pvk_insert) < nodesize bt);
            _ \<leftarrow> assert_opt (nl_insert_ptr bt x \<le> pos_split \<and> pos_split \<le> nodesize bt);
            Some (i, pos_split, pos_split - nl_insert_ptr bt x)
          })"

text \<open>
  \<open>insert_key_low\<close> for a key that is not in the node (\<open>pkrec\<close> is null; no caller passes another
  value).  The bytes below \<open>pos_split\<close> move down by the length of the key, which is copied to the
  gap; the area of the node grows by as much.
\<close>

definition insert_key_low ::
  "btree_raw \<Rightarrow> nonleaf_node \<Rightarrow> mem \<Rightarrow> u64 \<Rightarrow> u64 \<Rightarrow> nat option \<Rightarrow> nonleaf_node option" where
  "insert_key_low bt x key seqno ptr pk_ins = do {
     (nkeys_to, pos_split, nbytes_split) \<leftarrow> insert_position bt x pk_ins;
     _ \<leftarrow> assert_opt (vnode_bytes_free bt x \<ge> word_of_nat (sizeof_node_vkey + length key));
     let pos_new_key = pos_split - length key;
     let area = take nbytes_split (nl_area x) @ key @ drop nbytes_split (nl_area x);
     let keys = take nkeys_to (nl_keys x) @
                \<lparr>vk_keylen = word_of_nat (length key), vk_keypos = word_of_nat pos_new_key,
                 vk_ptr = ptr, vk_seqno = seqno\<rparr> # drop nkeys_to (nl_keys x);
     Some (update_keypos_low (x\<lparr>nl_keys := keys, nl_area := area\<rparr>) nkeys_to pos_split)
   }"

definition insert_key ::
  "btree_raw \<Rightarrow> nonleaf_node \<Rightarrow> mem \<Rightarrow> u64 \<Rightarrow> u64 \<Rightarrow> nonleaf_node option" where
  "insert_key bt x key seqno ptr = do {
     r \<leftarrow> find_key_non_leaf bt x key
           (Some \<lparr>md_flags = READ_SEQNO_LE, md_seqno = 0, md_start_seqno = 0, md_end_seqno = seqno - 1\<rparr>);
     insert_key_low bt x key seqno ptr (pk_insert r)
   }"

section \<open>Deletion\<close>

text \<open>The bytes between \<open>insert_ptr\<close> and the deleted key move up over it.\<close>

definition delete_key_by_pkrec :: "btree_raw \<Rightarrow> nonleaf_node \<Rightarrow> nat \<Rightarrow> nonleaf_node option" where
  "delete_key_by_pkrec bt x pk_delete = do {
     _ \<leftarrow> assert_opt (pk_delete < length (nl_keys x));
     let pvk_delete = nl_keys x ! pk_delete;
     let keylen = unat (vk_keylen pvk_delete);
     _ \<leftarrow> assert_opt (keylen \<noteq> 0);
     let moved = unat (vk_keypos pvk_delete) - nl_insert_ptr bt x;
     _ \<leftarrow> assert_opt (nl_insert_ptr bt x \<le> unat (vk_keypos pvk_delete) \<and>
                     moved + keylen \<le> length (nl_area x));
     let area = take moved (nl_area x) @ drop (moved + keylen) (nl_area x);
     let keys = take pk_delete (nl_keys x) @ drop (Suc pk_delete) (nl_keys x);
     Some (update_keypos bt (x\<lparr>nl_keys := keys, nl_area := area\<rparr>) 0)
   }"

definition delete_key_by_index_non_leaf :: "btree_raw \<Rightarrow> nonleaf_node \<Rightarrow> nat \<Rightarrow> nonleaf_node option" where
  "delete_key_by_index_non_leaf bt n index = do {
     ks \<leftarrow> get_key_stuff_info bt (NonLeafNode n) index;
     delete_key_by_pkrec bt n (ks_index ks)
   }"

section \<open>Splitting\<close>

text \<open>
  The loop of \<open>split_copy\<close> that decides how many keys stay in the \<open>from\<close> node: \<open>split_key\<close> of them,
  or, if it is 0, as many as it takes to exceed half of the node.  It yields \<open>nkeys_from\<close>,
  \<open>nbytes_from\<close> and the last key it looked at.
\<close>

function split_copy_loop ::
  "btree_raw \<Rightarrow> nonleaf_node \<Rightarrow> nat \<Rightarrow> nat \<Rightarrow> nat \<Rightarrow> key_stuff \<Rightarrow> (nat \<times> nat \<times> key_stuff) option" where
  "split_copy_loop bt fr split_key nkeys_from nbytes_from ks =
     (if nkeys_from < length (nl_keys fr) \<and>
         (split_key \<noteq> 0 \<and> nkeys_from < split_key \<or>
          split_key = 0 \<and> nbytes_from + nkeys_from * sizeof_node_vkey
            \<le> (nodesize bt - sizeof_btree_raw_node) div 2)
      then (case get_key_stuff bt fr nkeys_from of
              None \<Rightarrow> None
            | Some ks' \<Rightarrow>
                split_copy_loop bt fr split_key (Suc nkeys_from) (nbytes_from + unat (st_keylen ks')) ks')
      else Some (nkeys_from, nbytes_from, ks))"
  by pat_completeness auto
termination
  by (relation "measure (\<lambda>(bt, fr, split_key, nkeys_from, nbytes_from, ks).
        length (nl_keys fr) - nkeys_from)") auto

declare split_copy_loop.simps [simp del]

text \<open>The result is the two nodes and the separator (key and sequence number).\<close>

definition split_copy ::
  "btree_raw \<Rightarrow> nonleaf_node \<Rightarrow> nonleaf_node \<Rightarrow> nat
    \<Rightarrow> (nonleaf_node \<times> nonleaf_node \<times> mem \<times> u64) option" where
  "split_copy bt fr tn split_key = do {
     ks0 \<leftarrow> get_key_stuff bt fr 0;
     (nkeys_from, nbytes_from, ks) \<leftarrow> split_copy_loop bt fr split_key 0 0 ks0;
     _ \<leftarrow> assert_opt (nkeys_from > 0 \<and> nkeys_from < length (nl_keys fr));
     let nbytes_to = length (nl_area fr) - nbytes_from;
     area_to \<leftarrow> mem_read (nl_area fr) 0 nbytes_to;
     let to' = update_keypos bt (tn\<lparr>nl_keys := drop nkeys_from (nl_keys fr), nl_area := area_to,
                                    nl_rightmost := nl_rightmost fr\<rparr>) 0;
     let from' = fr\<lparr>nl_keys := take (nkeys_from - 1) (nl_keys fr),
                    nl_area := drop (nbytes_to + unat (st_keylen ks)) (nl_area fr),
                    nl_rightmost := st_ptr ks\<rparr>;
     Some (from', to', st_pkey_val ks, st_seqno ks)
   }"

end
