(* ===== verification/Btree_Search_Correct.thy ===== *)
theory Btree_Search_Correct
  imports Btree_Search
begin

text \<open>
  Correctness of the search inside a node.  The interface \<open>key_order\<close> says what the search needs of
  the comparison callback; the versions of a node are sorted by \<open>version_less\<close>.  The specification
  \<open>latest_pos\<close> is the number of versions that lie before the searched one in this order, counted
  linearly.
\<close>

section \<open>The interface of the comparison callback\<close>

locale key_order =
  fixes cmp :: "mem \<Rightarrow> mem \<Rightarrow> int"
  assumes cmp_self: "cmp a a = 0"
    and cmp_flip: "cmp a b < 0 \<longleftrightarrow> 0 < cmp b a"
    and cmp_trans: "cmp a b \<le> 0 \<Longrightarrow> cmp b c \<le> 0 \<Longrightarrow> cmp a c \<le> 0"

definition version_less :: "(mem \<Rightarrow> mem \<Rightarrow> int) \<Rightarrow> mem \<times> u64 \<Rightarrow> mem \<times> u64 \<Rightarrow> bool" where
  "version_less cmp v w \<longleftrightarrow> cmp (fst v) (fst w) < 0 \<or> cmp (fst v) (fst w) = 0 \<and> snd w < snd v"

abbreviation seqno_class :: "btree_metadata option \<Rightarrow> u64 \<Rightarrow> int" where
  "seqno_class smeta s \<equiv> fst (seqno_cmp_range smeta s)"

text \<open>The version lies before every version the query asks for.\<close>

definition before :: "(mem \<Rightarrow> mem \<Rightarrow> int) \<Rightarrow> mem \<Rightarrow> btree_metadata option \<Rightarrow> mem \<times> u64 \<Rightarrow> bool" where
  "before cmp key smeta v \<longleftrightarrow>
     cmp key (fst v) > 0 \<or> cmp key (fst v) = 0 \<and> seqno_class smeta (snd v) > 0"

definition latest_pos ::
  "(mem \<Rightarrow> mem \<Rightarrow> int) \<Rightarrow> mem \<Rightarrow> btree_metadata option \<Rightarrow> (mem \<times> u64) list \<Rightarrow> nat" where
  "latest_pos cmp key smeta vs = length (takeWhile (before cmp key smeta) vs)"

definition matches :: "(mem \<Rightarrow> mem \<Rightarrow> int) \<Rightarrow> mem \<Rightarrow> btree_metadata option \<Rightarrow> mem \<times> u64 \<Rightarrow> bool" where
  "matches cmp key smeta v \<longleftrightarrow> cmp key (fst v) = 0 \<and> seqno_class smeta (snd v) = 0"

definition latest_found ::
  "(mem \<Rightarrow> mem \<Rightarrow> int) \<Rightarrow> mem \<Rightarrow> btree_metadata option \<Rightarrow> (mem \<times> u64) list \<Rightarrow> bool" where
  "latest_found cmp key smeta vs =
     (let p = latest_pos cmp key smeta vs in p < length vs \<and> matches cmp key smeta (vs ! p))"

lemma latest_posI:
  assumes "p \<le> length vs" and "\<And>i. i < p \<Longrightarrow> before cmp key smeta (vs ! i)"
    and "p < length vs \<Longrightarrow> \<not> before cmp key smeta (vs ! p)"
  shows "latest_pos cmp key smeta vs = p"
proof -
  have "takeWhile (before cmp key smeta) vs = take p vs"
    using assms by (intro takeWhile_eq_take_P_nth) auto
  then show ?thesis using assms(1) by (simp add: latest_pos_def)
qed

section \<open>Sequence number queries\<close>

lemma seqno_class_mono: "s < t \<Longrightarrow> seqno_class smeta s \<le> seqno_class smeta t"
  by (auto simp: seqno_cmp_range_def split: option.splits)

lemma seqno_exact:
  assumes "seqno_cmp_range smeta s = (x, True, r)" and "s < t"
  shows "x = 0" and "seqno_class smeta t > 0"
  using assms by (auto simp: seqno_cmp_range_def split: option.splits if_splits)

lemma seqno_cmp_range_values:
  "seqno_cmp_range smeta s \<in> {(0, True, False), (0, False, True), (1, False, False), (- 1, False, False)}"
  by (simp add: seqno_cmp_range_def split: option.splits)

context key_order
begin

lemma cmp_eq_sym: "cmp a b = 0 \<longleftrightarrow> cmp b a = 0"
  using cmp_flip [of a b] cmp_flip [of b a] by auto

lemma cmp_le_flip: "cmp a b \<le> 0 \<longleftrightarrow> 0 \<le> cmp b a"
  using cmp_flip [of b a] by auto

lemma cmp_greater_left:
  assumes "cmp a b \<le> 0" and "0 < cmp key b"
  shows "0 < cmp key a"
  using assms cmp_trans [of key a b] by (auto simp: not_less [symmetric])

lemma cmp_less_right:
  assumes "cmp a b \<le> 0" and "cmp key a < 0"
  shows "cmp key b < 0"
  using assms cmp_trans [of a b key] cmp_le_flip [of b key] cmp_le_flip [of a key] by linarith

lemma version_less_le: "version_less cmp v w \<Longrightarrow> cmp (fst v) (fst w) \<le> 0"
  by (auto simp: version_less_def)

lemma before_left:
  assumes "version_less cmp v w" and "before cmp key smeta w"
  shows "before cmp key smeta v"
proof (cases "0 < cmp key (fst v)")
  case True
  then show ?thesis by (simp add: before_def)
next
  case False
  have le: "cmp (fst v) (fst w) \<le> 0" using assms(1) by (rule version_less_le)
  have w: "cmp key (fst w) = 0" and c: "seqno_class smeta (snd w) > 0"
    using assms(2) cmp_greater_left [OF le, of key] False by (auto simp: before_def)
  have v: "cmp key (fst v) = 0"
    using cmp_less_right [OF le, of key] w False by linarith
  have "0 \<le> cmp (fst v) (fst w)"
    using cmp_trans [of "fst w" key "fst v"] v w cmp_eq_sym [of key] cmp_le_flip [of "fst w" "fst v"] by simp
  then have "snd w < snd v" using assms(1) by (auto simp: version_less_def)
  then show ?thesis using v c seqno_class_mono [of "snd w" "snd v" smeta] by (simp add: before_def)
qed

lemma sorted_before:
  assumes "sorted_wrt (version_less cmp) vs" and "before cmp key smeta (vs ! j)" and "i \<le> j" and "j < length vs"
  shows "before cmp key smeta (vs ! i)"
  using assms before_left [of "vs ! i" "vs ! j"] sorted_wrt_nth_less [OF assms(1)]
  by (cases "i = j") auto

text \<open>A version of the key with a smaller index has a greater sequence number.\<close>

lemma sorted_same_key:
  assumes "sorted_wrt (version_less cmp) vs" and "i < j" and "j < length vs"
    and "cmp key (fst (vs ! i)) = 0" and "cmp key (fst (vs ! j)) = 0"
  shows "snd (vs ! j) < snd (vs ! i)"
proof -
  have "version_less cmp (vs ! i) (vs ! j)" by (rule sorted_wrt_nth_less [OF assms(1-3)])
  moreover have "0 \<le> cmp (fst (vs ! i)) (fst (vs ! j))"
    using cmp_trans [of "fst (vs ! j)" key "fst (vs ! i)"] assms(4,5)
      cmp_eq_sym [of key] cmp_le_flip [of "fst (vs ! j)" "fst (vs ! i)"] by simp
  ultimately show ?thesis by (auto simp: version_less_def)
qed

lemma sorted_key_before:
  assumes "sorted_wrt (version_less cmp) vs" and "i < j" and "j < length vs"
    and "cmp key (fst (vs ! j)) = 0"
  shows "0 \<le> cmp key (fst (vs ! i))"
  using cmp_less_right [OF version_less_le [OF sorted_wrt_nth_less [OF assms(1-3)]], of key] assms(4)
  by linarith

lemma sorted_key_after:
  assumes "sorted_wrt (version_less cmp) vs" and "i < j" and "j < length vs"
    and "cmp key (fst (vs ! i)) = 0"
  shows "cmp key (fst (vs ! j)) \<le> 0"
  using cmp_trans [OF _ version_less_le [OF sorted_wrt_nth_less [OF assms(1-3)]], of key] assms(4)
  by simp

lemma latest_resultI:
  assumes "p \<le> length vs" and "\<And>i. i < p \<Longrightarrow> before cmp key smeta (vs ! i)"
    and "p < length vs \<Longrightarrow> \<not> before cmp key smeta (vs ! p)"
    and "f \<longleftrightarrow> p < length vs \<and> matches cmp key smeta (vs ! p)"
  shows "Some (int p, f) = Some (int (latest_pos cmp key smeta vs), latest_found cmp key smeta vs)"
  using latest_posI [OF assms(1-3)] assms(4) by (simp add: latest_found_def Let_def)

end

text \<open>What the loop among the versions knows while it moves in a direction.\<close>

definition latest_inv ::
  "(mem \<Rightarrow> mem \<Rightarrow> int) \<Rightarrow> mem \<Rightarrow> btree_metadata option \<Rightarrow> (mem \<times> u64) list
    \<Rightarrow> int \<Rightarrow> int \<Rightarrow> direction \<Rightarrow> bool \<Rightarrow> bool" where
  "latest_inv cmp key smeta vs i_cur i_ret dir found \<longleftrightarrow>
     0 \<le> i_cur \<and> i_cur < int (length vs) \<and> cmp key (fst (vs ! nat i_cur)) = 0 \<and>
     (case dir of
        DIR_UNKNOWN \<Rightarrow> \<not> found
      | DIR_LEFT \<Rightarrow>
          i_ret = i_cur + 1 \<and> i_ret < int (length vs) \<and>
          \<not> before cmp key smeta (vs ! nat i_ret) \<and> found = matches cmp key smeta (vs ! nat i_ret) \<and>
          cmp key (fst (vs ! nat i_ret)) = 0
      | DIR_RIGHT \<Rightarrow>
          i_ret = i_cur \<and> (\<forall>j<nat i_cur. before cmp key smeta (vs ! j)) \<and> \<not> found)"

context key_order
begin

text \<open>One step either returns the specified result or keeps what is known.\<close>

lemma latest_step_return:
  assumes s: "sorted_wrt (version_less cmp) vs" and inv: "latest_inv cmp key smeta vs i r d f"
    and step: "latest_step smeta (snd (vs ! nat i)) i r d f = Some (Inl res)"
  shows "Some res = Some (int (latest_pos cmp key smeta vs), latest_found cmp key smeta vs)"
proof -
  obtain c where i: "i = int c" and c: "c < length vs" and eq: "cmp key (fst (vs ! c)) = 0"
    using inv by (metis latest_inv_def nat_int zero_le_imp_eq_int of_nat_less_iff)
  let ?q = "seqno_cmp_range smeta (snd (vs ! c))"
  consider (exact) "?q = (0, True, False)" "res = (i, True)"
    | (range) "?q = (0, False, True)" "d = DIR_RIGHT" "res = (r, True)"
    | (greater) "?q = (1, False, False)" "d = DIR_LEFT" "res = (r, f)"
    | (less) "?q = (- 1, False, False)" "d = DIR_RIGHT" "res = (r, f)"
    using step seqno_cmp_range_values [of smeta "snd (vs ! c)"] by (auto simp: latest_step_def i split: if_splits)
  then show ?thesis
  proof cases
    case exact
    have "before cmp key smeta (vs ! j)" if "j < c" for j
      using sorted_key_before [OF s that c eq] sorted_same_key [OF s that c _ eq] seqno_exact(2) [OF exact(1)]
      by (cases "cmp key (fst (vs ! j)) = 0") (auto simp: before_def)
    then have "Some (int c, True) = Some (int (latest_pos cmp key smeta vs), latest_found cmp key smeta vs)"
      using exact eq c by (intro latest_resultI) (auto simp: before_def matches_def)
    then show ?thesis using exact i by simp
  next
    case range
    then have "Some (int c, True) = Some (int (latest_pos cmp key smeta vs), latest_found cmp key smeta vs)"
      using inv eq c by (intro latest_resultI) (auto simp: latest_inv_def i before_def matches_def)
    then show ?thesis using range inv i by (simp add: latest_inv_def)
  next
    case greater
    then have r: "r = int (Suc c)" "Suc c < length vs" "\<not> before cmp key smeta (vs ! Suc c)"
      "f = matches cmp key smeta (vs ! Suc c)"
      using inv by (auto simp: latest_inv_def i nat_add_distrib)
    have "before cmp key smeta (vs ! j)" if "j < Suc c" for j
      using sorted_before [OF s, of key smeta c j] that c greater(1) eq by (simp add: before_def)
    then have "Some (int (Suc c), f) = Some (int (latest_pos cmp key smeta vs), latest_found cmp key smeta vs)"
      using r by (intro latest_resultI) auto
    then show ?thesis using greater r by simp
  next
    case less
    then have "Some (int c, False) = Some (int (latest_pos cmp key smeta vs), latest_found cmp key smeta vs)"
      using inv eq c by (intro latest_resultI) (auto simp: latest_inv_def i before_def matches_def)
    then show ?thesis using less inv i by (simp add: latest_inv_def)
  qed
qed

lemma latest_step_moves:
  assumes "latest_step smeta s i r d f = Some (Inr (i', r', d', f'))"
    and "d \<noteq> DIR_LEFT \<Longrightarrow> \<not> f" and "d = DIR_LEFT \<Longrightarrow> seqno_class smeta s < 0 \<Longrightarrow> \<not> f"
  shows "i' = i - 1 \<and> r' = i \<and> d' = DIR_LEFT \<and> seqno_class smeta s \<le> 0 \<and> f' = (seqno_class smeta s = 0)
    \<or> i' = i + 1 \<and> r' = i + 1 \<and> d' = DIR_RIGHT \<and> seqno_class smeta s > 0 \<and> \<not> f'"
  using seqno_cmp_range_values [of smeta s] assms by (cases d) (auto simp: latest_step_def)

lemma latest_step_next:
  assumes s: "sorted_wrt (version_less cmp) vs" and inv: "latest_inv cmp key smeta vs i r d f"
    and step: "latest_step smeta (snd (vs ! nat i)) i r d f = Some (Inr (i', r', d', f'))"
  shows "if 0 \<le> i' \<and> i' < int (length vs) \<and> cmp key (fst (vs ! nat i')) = 0
    then latest_inv cmp key smeta vs i' r' d' f'
    else Some (r', f') = Some (int (latest_pos cmp key smeta vs), latest_found cmp key smeta vs)"
proof -
  obtain c where i: "i = int c" and c: "c < length vs" and eq: "cmp key (fst (vs ! c)) = 0"
    using inv by (metis latest_inv_def nat_int zero_le_imp_eq_int of_nat_less_iff)
  let ?q = "seqno_cmp_range smeta (snd (vs ! c))"
  have mono: "seqno_class smeta (snd (vs ! Suc c)) \<le> seqno_class smeta (snd (vs ! c))"
    if "Suc c < length vs" "cmp key (fst (vs ! Suc c)) = 0"
    using seqno_class_mono [OF sorted_same_key [OF s _ that(1) eq that(2)]] by simp
  have nf: "\<not> f" if "d \<noteq> DIR_LEFT"
    using inv that by (cases d) (auto simp: latest_inv_def)
  have nl: "\<not> f" if "d = DIR_LEFT" "fst ?q < 0"
  proof -
    have "Suc c < length vs" "cmp key (fst (vs ! Suc c)) = 0" "f = matches cmp key smeta (vs ! Suc c)"
      using inv that(1) by (auto simp: latest_inv_def i nat_add_distrib)
    then show ?thesis using mono that(2) by (simp add: matches_def)
  qed
  have st: "latest_step smeta (snd (vs ! c)) (int c) r d f = Some (Inr (i', r', d', f'))"
    using step i by simp
  consider (left) "i' = int c - 1" "r' = int c" "d' = DIR_LEFT" "fst ?q \<le> 0" "f' = (fst ?q = 0)"
    | (right) "i' = int c + 1" "r' = int c + 1" "d' = DIR_RIGHT" "fst ?q > 0" "\<not> f'"
    using latest_step_moves [OF st nf nl] by blast
  then show ?thesis
  proof cases
    case left
    have nb: "\<not> before cmp key smeta (vs ! c)" and m: "f' = matches cmp key smeta (vs ! c)"
      using left eq by (auto simp: before_def matches_def)
    show ?thesis
    proof (cases "0 \<le> i' \<and> cmp key (fst (vs ! nat i')) = 0")
      case True
      then show ?thesis using left nb m c eq by (auto simp: latest_inv_def nat_diff_distrib)
    next
      case False
      have "before cmp key smeta (vs ! j)" if j: "j < c" for j
      proof -
        have "before cmp key smeta (vs ! (c - 1))"
          using sorted_key_before [OF s _ c eq, of "c - 1"] False j left(1)
          by (auto simp: before_def nat_diff_distrib)
        then show ?thesis using sorted_before [OF s, of key smeta "c - 1" j] j c by simp
      qed
      then show ?thesis
        using latest_resultI [of c vs key smeta f'] False left(2) nb m c by auto
    qed
  next
    case right
    have b: "before cmp key smeta (vs ! j)" if "j < Suc c" for j
      using sorted_before [OF s, of key smeta c j] that c right(4) eq by (simp add: before_def)
    have ni: "nat i' = Suc c" "0 \<le> i'" "i' < int (length vs) \<longleftrightarrow> Suc c < length vs"
      using right(1) by linarith+
    show ?thesis
    proof (cases "Suc c < length vs \<and> cmp key (fst (vs ! Suc c)) = 0")
      case True
      then have "latest_inv cmp key smeta vs i' r' d' f'"
        using right b ni by (simp add: latest_inv_def)
      then show ?thesis using True ni by simp
    next
      case False
      then have "Suc c < length vs \<Longrightarrow> cmp key (fst (vs ! Suc c)) < 0"
        using sorted_key_after [OF s _ _ eq, of "Suc c"] by force
      then have "Some (int (Suc c), f') = Some (int (latest_pos cmp key smeta vs), latest_found cmp key smeta vs)"
        using b c right(5) by (intro latest_resultI) (auto simp: before_def matches_def)
      then show ?thesis using False ni right(2) by auto
    qed
  qed
qed

lemma latest_loop_unfold:
  assumes "latest_step smeta seqno i r d f = Some (Inr (i', r', d', f'))" and "node_reads bt n vs"
  shows "latest_loop bt n key smeta seqno i r d f =
    (if 0 \<le> i' \<and> i' < int (length vs) \<and> cmp_cb bt key (fst (vs ! nat i')) = 0
     then latest_loop bt n key smeta (snd (vs ! nat i')) i' r' d' f' else Some (r', f'))"
proof (cases "0 \<le> i' \<and> i' < int (length vs)")
  case True
  then have "nat i' < length vs" by linarith
  then obtain ks where "get_key_stuff_info2 bt n (nat i') = Some ks"
    "ks_key ks = fst (vs ! nat i')" "ks_seqno ks = snd (vs ! nat i')"
    using node_readsD [OF assms(2)] by blast
  then show ?thesis using True assms(1) node_reads_nkeys [OF assms(2)] by (subst latest_loop.simps) simp
next
  case False
  then show ?thesis using assms(1) node_reads_nkeys [OF assms(2)] by (subst latest_loop.simps) auto
qed

lemma latest_loop_correct:
  assumes "cmp_cb bt = cmp" and "node_reads bt n vs" and "sorted_wrt (version_less cmp) vs"
    and "latest_inv cmp key smeta vs i r d f"
  shows "latest_loop bt n key smeta (snd (vs ! nat i)) i r d f
    = Some (int (latest_pos cmp key smeta vs), latest_found cmp key smeta vs)"
  using assms(4)
proof (induction "case d of DIR_LEFT \<Rightarrow> nat (i + 1) | DIR_RIGHT \<Rightarrow> nat (int (length vs) - i)
      | DIR_UNKNOWN \<Rightarrow> length vs + 2" arbitrary: i r d f rule: less_induct)
  case less
  have "latest_step smeta (snd (vs ! nat i)) i r d f \<noteq> None"
    using seqno_cmp_range_values [of smeta "snd (vs ! nat i)"] by (auto simp: latest_step_def)
  then obtain st where st: "latest_step smeta (snd (vs ! nat i)) i r d f = Some st" by blast
  show ?case
  proof (cases st)
    case (Inl res)
    then show ?thesis
      using latest_step_return [OF assms(3) less.prems, of res] st by (subst latest_loop.simps) simp
  next
    case (Inr st')
    obtain i' r' d' f' where st': "st' = (i', r', d', f')" by (cases st') auto
    note step = st [unfolded Inr st']
    note nxt = latest_step_next [OF assms(3) less.prems step]
    note unf = latest_loop_unfold [OF step assms(2), of key, unfolded assms(1)]
    show ?thesis
    proof (cases "0 \<le> i' \<and> i' < int (length vs) \<and> cmp key (fst (vs ! nat i')) = 0")
      case True
      then have inv: "latest_inv cmp key smeta vs i' r' d' f'" using nxt by simp
      have "latest_loop bt n key smeta (snd (vs ! nat i')) i' r' d' f'
          = Some (int (latest_pos cmp key smeta vs), latest_found cmp key smeta vs)"
        using latest_step_dir [OF step] True
        by (intro less.hyps [OF _ inv]) (cases d; auto)
      then show ?thesis by (simp only: unf if_P [OF True])
    next
      case False
      then show ?thesis using nxt by (simp only: unf if_not_P [OF False] if_False)
    qed
  qed
qed

end

section \<open>Binary search\<close>

text \<open>The search either arrives at a version of the key, where the flags decide what happens, or at
  the position of the first greater key.\<close>

definition search_outcome ::
  "(mem \<Rightarrow> mem \<Rightarrow> int) \<Rightarrow> btree_raw \<Rightarrow> btree_node \<Rightarrow> mem \<Rightarrow> btree_metadata option \<Rightarrow> u32 \<Rightarrow> (mem \<times> u64) list
    \<Rightarrow> (int \<times> bool) option \<Rightarrow> bool" where
  "search_outcome cmp bt n key meta flags vs r \<longleftrightarrow>
     (\<exists>c ks. c < length vs \<and> cmp key (fst (vs ! c)) = 0 \<and> ks_seqno ks = snd (vs ! c) \<and>
        r = (if flags AND BSF_MATCH \<noteq> 0 then Some (int c, True)
             else if flags AND BSF_NEXT \<noteq> 0 then map_option (\<lambda>i. (i, True)) (bsearch_next bt n key (int c))
             else if flags AND BSF_LATEST \<noteq> 0 then get_latest_seqno bt n key ks meta (int c)
             else None)) \<or>
     (\<exists>p. p \<le> length vs \<and> (\<forall>j<p. 0 < cmp key (fst (vs ! j))) \<and>
        (\<forall>j. p \<le> j \<longrightarrow> j < length vs \<longrightarrow> cmp key (fst (vs ! j)) < 0) \<and> r = Some (int p, False))"

context key_order
begin

lemma bsearch_key_low_cases:
  assumes "cmp_cb bt = cmp" and "node_reads bt n vs" and "sorted_wrt (version_less cmp) vs"
    and "- 1 \<le> lo" and "lo < hi" and "hi \<le> int (length vs)"
    and "\<And>j. int j \<le> lo \<Longrightarrow> 0 < cmp key (fst (vs ! j))"
    and "\<And>j. hi \<le> int j \<Longrightarrow> j < length vs \<Longrightarrow> cmp key (fst (vs ! j)) < 0"
  shows "search_outcome cmp bt n key meta flags vs (bsearch_key_low bt n key meta lo hi flags)"
  using assms(4-8)
proof (induction "nat (hi - lo)" arbitrary: lo hi rule: less_induct)
  case less
  note unf = bsearch_key_low.simps [of bt n key meta lo hi flags]
  show ?case
  proof (cases "hi - lo > 1")
    case False
    then have "lo = hi - 1" using less.prems by linarith
    then have "\<forall>j<nat hi. 0 < cmp key (fst (vs ! j))"
      "\<forall>j. nat hi \<le> j \<longrightarrow> j < length vs \<longrightarrow> cmp key (fst (vs ! j)) < 0"
      using less.prems by auto
    moreover have "nat hi \<le> length vs" "hi = int (nat hi)" using less.prems by auto
    moreover have "bsearch_key_low bt n key meta lo hi flags = Some (hi, False)"
      unfolding unf using False by simp
    ultimately show ?thesis unfolding search_outcome_def by metis
  next
    case True
    define c where "c = nat (lo + (hi - lo) div 2)"
    have "0 \<le> lo + (hi - lo) div 2" using less.prems(1) True by linarith
    then have ic: "lo + (hi - lo) div 2 = int c" by (simp add: c_def)
    have bounds: "lo < int c" "int c < hi" using ic True by linarith+
    then have c: "c < length vs" using less.prems by linarith
    obtain ks where ks: "get_key_stuff_info2 bt n c = Some ks"
      "ks_key ks = fst (vs ! c)" "ks_seqno ks = snd (vs ! c)"
      using node_readsD [OF assms(2) c] by blast
    note unf' = unf [unfolded ic, simplified True Let_def ks(1,2) assms(1) nat_int option.case if_True]
    consider (eq) "cmp key (fst (vs ! c)) = 0" | (less) "cmp key (fst (vs ! c)) < 0"
      | (greater) "cmp key (fst (vs ! c)) > 0" by linarith
    then show ?thesis
    proof cases
      case eq
      then show ?thesis
        unfolding search_outcome_def using c ks(3) unf' by (intro disjI1 exI [of _ c] exI [of _ ks]) simp
    next
      case less
      have "cmp key (fst (vs ! j)) < 0" if "int c \<le> int j" "j < length vs" for j
        using cmp_less_right [OF version_less_le [OF sorted_wrt_nth_less [OF assms(3)]], of c j key] that less
        by (cases "c = j") auto
      then have "search_outcome cmp bt n key meta flags vs (bsearch_key_low bt n key meta lo (int c) flags)"
        using less.hyps [of "int c" lo] less.prems bounds c by auto
      then show ?thesis using unf' less by simp
    next
      case greater
      have "0 < cmp key (fst (vs ! j))" if "int j \<le> int c" for j
        using cmp_greater_left [OF version_less_le [OF sorted_wrt_nth_less [OF assms(3)]], of j c key] that greater c
        by (cases "c = j") auto
      then have "search_outcome cmp bt n key meta flags vs (bsearch_key_low bt n key meta (int c) hi flags)"
        using less.hyps [of hi "int c"] less.prems bounds by auto
      then show ?thesis using unf' greater by simp
    qed
  qed
qed

lemma bsearch_node_outcome:
  assumes "cmp_cb bt = cmp" and "node_reads bt n vs" and "sorted_wrt (version_less cmp) vs"
  shows "search_outcome cmp bt n key meta flags vs
    (bsearch_key_low bt n key meta (- 1) (int (node_nkeys n)) flags)"
  using bsearch_key_low_cases [OF assms, of "- 1" "int (length vs)"] node_reads_nkeys [OF assms(2)] by simp

lemma bsearch_latest:
  assumes "cmp_cb bt = cmp" and "node_reads bt n vs" and "sorted_wrt (version_less cmp) vs"
  shows "bsearch_key_low bt n key meta (- 1) (int (node_nkeys n)) BSF_LATEST
    = Some (int (latest_pos cmp key meta vs), latest_found cmp key meta vs)"
proof -
  note len = node_reads_nkeys [OF assms(2)]
  have fl: "BSF_LATEST AND BSF_MATCH = 0" "BSF_LATEST AND BSF_NEXT = 0" "BSF_LATEST AND BSF_LATEST \<noteq> 0"
    by (simp_all add: BSF_LATEST_def BSF_MATCH_def BSF_NEXT_def)
  from bsearch_node_outcome [OF assms, of key meta BSF_LATEST]
  consider (hit) c ks where "c < length vs" "cmp key (fst (vs ! c)) = 0" "ks_seqno ks = snd (vs ! c)"
      "bsearch_key_low bt n key meta (- 1) (int (length vs)) BSF_LATEST = get_latest_seqno bt n key ks meta (int c)"
    | (miss) p where "p \<le> length vs" "\<forall>j<p. 0 < cmp key (fst (vs ! j))"
      "\<forall>j. p \<le> j \<longrightarrow> j < length vs \<longrightarrow> cmp key (fst (vs ! j)) < 0"
      "bsearch_key_low bt n key meta (- 1) (int (length vs)) BSF_LATEST = Some (int p, False)"
    using fl by (auto simp: search_outcome_def len)
  then show ?thesis
  proof cases
    case hit
    then have "latest_inv cmp key meta vs (int c) (int c) DIR_UNKNOWN False" by (simp add: latest_inv_def)
    from latest_loop_correct [OF assms this] hit show ?thesis by (simp add: len get_latest_seqno_def)
  next
    case miss
    then have "Some (int p, False) = Some (int (latest_pos cmp key meta vs), latest_found cmp key meta vs)"
      by (intro latest_resultI) (auto simp: before_def matches_def dest: spec [of _ p])
    then show ?thesis using miss by (simp add: len)
  qed
qed

lemma latest_pos_le: "latest_pos cmp key meta vs \<le> length vs"
  by (simp add: latest_pos_def length_takeWhile_le)

lemma before_latest_pos: "i < latest_pos cmp key meta vs \<Longrightarrow> before cmp key meta (vs ! i)"
  by (metis latest_pos_def nth_mem set_takeWhileD takeWhile_nth)

lemma not_before_latest_pos:
  assumes "sorted_wrt (version_less cmp) vs" and "latest_pos cmp key meta vs \<le> i" and "i < length vs"
  shows "\<not> before cmp key meta (vs ! i)"
  using assms sorted_before [OF assms(1), of key meta i "latest_pos cmp key meta vs"]
    nth_length_takeWhile [of "before cmp key meta" vs]
  by (auto simp: latest_pos_def)

lemma latest_found_iff:
  assumes "sorted_wrt (version_less cmp) vs"
  shows "latest_found cmp key meta vs \<longleftrightarrow> (\<exists>v\<in>set vs. matches cmp key meta v)"
    and "v \<in> set vs \<Longrightarrow> matches cmp key meta v \<Longrightarrow> snd v \<le> snd (vs ! latest_pos cmp key meta vs)"
proof -
  let ?p = "latest_pos cmp key meta vs"
  have hit: "?p \<le> j \<and> matches cmp key meta (vs ! ?p) \<and> snd (vs ! j) \<le> snd (vs ! ?p)"
    if j: "j < length vs" and m: "matches cmp key meta (vs ! j)" for j
  proof -
    have pj: "?p \<le> j"
      using before_latest_pos [of j key meta vs] m by (force simp: before_def matches_def not_le)
    then have nb: "\<not> before cmp key meta (vs ! ?p)"
      using not_before_latest_pos [OF assms, of key meta ?p] j by simp
    show ?thesis
    proof (cases "?p = j")
      case False
      then have "0 \<le> cmp key (fst (vs ! ?p))"
        using sorted_key_before [OF assms, of ?p j key] pj j m by (simp add: matches_def)
      then have eq: "cmp key (fst (vs ! ?p)) = 0" using nb by (auto simp: before_def)
      have "snd (vs ! j) < snd (vs ! ?p)"
        using sorted_same_key [OF assms, of ?p j key] False pj j m eq by (simp add: matches_def)
      with seqno_class_mono [OF this, of meta] nb eq m pj show ?thesis
        by (auto simp: matches_def before_def)
    qed (use m in simp)
  qed
  show "latest_found cmp key meta vs \<longleftrightarrow> (\<exists>v\<in>set vs. matches cmp key meta v)"
    using hit by (fastforce simp: latest_found_def Let_def in_set_conv_nth)
  show "snd v \<le> snd (vs ! ?p)" if "v \<in> set vs" "matches cmp key meta v"
    using that hit by (auto simp: in_set_conv_nth)
qed

end

text \<open>The position of the first key greater than the searched one.\<close>

definition next_pos :: "(mem \<Rightarrow> mem \<Rightarrow> int) \<Rightarrow> mem \<Rightarrow> (mem \<times> u64) list \<Rightarrow> nat" where
  "next_pos cmp key vs = length (takeWhile (\<lambda>v. 0 \<le> cmp key (fst v)) vs)"

lemma next_posI:
  assumes "p \<le> length vs" and "\<And>i. i < p \<Longrightarrow> 0 \<le> cmp key (fst (vs ! i))"
    and "p < length vs \<Longrightarrow> cmp key (fst (vs ! p)) < 0"
  shows "next_pos cmp key vs = p"
proof -
  have "takeWhile (\<lambda>v. 0 \<le> cmp key (fst v)) vs = take p vs"
    using assms by (intro takeWhile_eq_take_P_nth) (auto simp: not_le)
  then show ?thesis using assms(1) by (simp add: next_pos_def)
qed

context key_order
begin

lemma bsearch_next_correct:
  assumes "cmp_cb bt = cmp" and "node_reads bt n vs" and "sorted_wrt (version_less cmp) vs"
    and "c < length vs" and "cmp key (fst (vs ! c)) = 0"
  shows "bsearch_next bt n key (int c) = Some (int (next_pos cmp key vs))"
  using assms(4,5)
proof (induction "length vs - c" arbitrary: c rule: less_induct)
  case less
  have suc: "int c + 1 = int (Suc c)" by simp
  note unf = bsearch_next.simps [of bt n key "int c", unfolded node_reads_nkeys [OF assms(2)] suc nat_int]
  have below: "0 \<le> cmp key (fst (vs ! i))" if "i < Suc c" for i
    using sorted_key_before [OF assms(3), of i c key] less.prems that by (cases "i = c") auto
  show ?case
  proof (cases "Suc c < length vs")
    case True
    then obtain ks where ks: "get_key_stuff_info2 bt n (Suc c) = Some ks" "ks_key ks = fst (vs ! Suc c)"
      using node_readsD [OF assms(2)] by blast
    have le: "cmp key (fst (vs ! Suc c)) \<le> 0"
      using sorted_key_after [OF assms(3) _ True less.prems(2)] by simp
    show ?thesis
    proof (cases "cmp key (fst (vs ! Suc c)) = 0")
      case eq: True
      have "bsearch_next bt n key (int (Suc c)) = Some (int (next_pos cmp key vs))"
        using less.hyps [of "Suc c"] True eq by simp
      then show ?thesis using unf ks eq True by (simp add: assms(1))
    next
      case False
      then have "next_pos cmp key vs = Suc c" using below le True by (intro next_posI) auto
      then show ?thesis using unf ks False True by (simp add: assms(1))
    qed
  next
    case False
    then have "next_pos cmp key vs = Suc c" using below less.prems by (intro next_posI) auto
    then show ?thesis using unf False by simp
  qed
qed

lemma no_key_miss:
  assumes "\<forall>j<p. 0 < cmp key (fst (vs ! j))" and "\<forall>j. p \<le> j \<longrightarrow> j < length vs \<longrightarrow> cmp key (fst (vs ! j)) < 0"
  shows "\<forall>v\<in>set vs. cmp key (fst v) \<noteq> 0"
proof
  fix v
  assume "v \<in> set vs"
  then obtain j where j: "j < length vs" "v = vs ! j" by (auto simp: in_set_conv_nth)
  have "0 < cmp key (fst v)" if "j < p" using assms(1) j(2) that by simp
  moreover have "cmp key (fst v) < 0" if "\<not> j < p" using assms(2) j that by simp
  ultimately show "cmp key (fst v) \<noteq> 0" by linarith
qed

lemma bsearch_key_low_next:
  assumes "cmp_cb bt = cmp" and "node_reads bt n vs" and "sorted_wrt (version_less cmp) vs"
  shows "bsearch_key_low bt n key meta (- 1) (int (node_nkeys n)) BSF_NEXT
    = Some (int (next_pos cmp key vs), \<exists>v\<in>set vs. cmp key (fst v) = 0)"
proof -
  have fl: "BSF_NEXT AND BSF_MATCH = 0" "BSF_NEXT AND BSF_NEXT \<noteq> 0"
    by (simp_all add: BSF_MATCH_def BSF_NEXT_def)
  from bsearch_node_outcome [OF assms, of key meta BSF_NEXT]
  consider (hit) c where "c < length vs" "cmp key (fst (vs ! c)) = 0"
      "bsearch_key_low bt n key meta (- 1) (int (node_nkeys n)) BSF_NEXT
        = map_option (\<lambda>i. (i, True)) (bsearch_next bt n key (int c))"
    | (miss) p where "p \<le> length vs" "\<forall>j<p. 0 < cmp key (fst (vs ! j))"
      "\<forall>j. p \<le> j \<longrightarrow> j < length vs \<longrightarrow> cmp key (fst (vs ! j)) < 0"
      "bsearch_key_low bt n key meta (- 1) (int (node_nkeys n)) BSF_NEXT = Some (int p, False)"
    using fl by (auto simp: search_outcome_def)
  then show ?thesis
  proof cases
    case hit
    then have "\<exists>v\<in>set vs. cmp key (fst v) = 0" by force
    then show ?thesis using hit bsearch_next_correct [OF assms hit(1,2)] by simp
  next
    case miss
    have "next_pos cmp key vs = p" using miss by (intro next_posI) (auto intro: less_imp_le)
    moreover have "\<forall>v\<in>set vs. cmp key (fst v) \<noteq> 0" using no_key_miss [OF miss(2,3)] .
    ultimately show ?thesis using miss(4) by auto
  qed
qed

lemma bsearch_key_low_match:
  assumes "cmp_cb bt = cmp" and "node_reads bt n vs" and "sorted_wrt (version_less cmp) vs"
  shows "\<exists>i. bsearch_key_low bt n key meta (- 1) (int (node_nkeys n)) BSF_MATCH
      = Some (int i, \<exists>v\<in>set vs. cmp key (fst v) = 0) \<and> i \<le> length vs \<and>
    ((\<exists>v\<in>set vs. cmp key (fst v) = 0) \<longrightarrow> i < length vs \<and> cmp key (fst (vs ! i)) = 0)"
proof -
  have fl: "BSF_MATCH AND BSF_MATCH \<noteq> 0"
    by (simp add: BSF_MATCH_def)
  from bsearch_node_outcome [OF assms, of key meta BSF_MATCH]
  consider (hit) c where "c < length vs" "cmp key (fst (vs ! c)) = 0"
      "bsearch_key_low bt n key meta (- 1) (int (node_nkeys n)) BSF_MATCH = Some (int c, True)"
    | (miss) p where "p \<le> length vs" "\<forall>v\<in>set vs. cmp key (fst v) \<noteq> 0"
      "bsearch_key_low bt n key meta (- 1) (int (node_nkeys n)) BSF_MATCH = Some (int p, False)"
    using fl no_key_miss [where key = key and vs = vs] by (auto simp: search_outcome_def)
  then show ?thesis by cases (force, auto)
qed

end

section \<open>The comparisons of the sources\<close>

lemma lex_cmp_cb_rec:
  "lex_cmp_cb [] ys = (if ys = [] then 0 else - 1)"
  "lex_cmp_cb (x # xs) [] = 1"
  "lex_cmp_cb (x # xs) (y # ys) = (if x < y then - 1 else if y < x then 1 else lex_cmp_cb xs ys)"
  by (auto simp: lex_cmp_cb_def Let_def)

lemma lex_cmp_flip: "lex_cmp_cb a b < 0 \<longleftrightarrow> 0 < lex_cmp_cb b a"
proof (induction a arbitrary: b)
  case Nil
  show ?case by (cases b) (auto simp: lex_cmp_cb_rec)
next
  case (Cons x xs)
  then show ?case by (cases b) (auto simp: lex_cmp_cb_rec)
qed

lemma lex_cmp_trans: "lex_cmp_cb a b \<le> 0 \<Longrightarrow> lex_cmp_cb b c \<le> 0 \<Longrightarrow> lex_cmp_cb a c \<le> 0"
proof (induction a arbitrary: b c)
  case Nil
  show ?case by (simp add: lex_cmp_cb_rec)
next
  case (Cons x xs)
  obtain y ys z zs where "b = y # ys" "c = z # zs"
    using Cons.prems by (cases b; cases c) (auto simp: lex_cmp_cb_rec)
  then show ?case using Cons.prems Cons.IH [of ys zs] by (auto simp: lex_cmp_cb_rec split: if_splits)
qed

lemma memcmp_lex: "length a = length b \<Longrightarrow> memcmp a b = lex_cmp_cb a b"
  by (induction a b rule: list_induct2) (auto simp: lex_cmp_cb_rec)

interpretation lex_order: key_order lex_cmp_cb
proof
  show "lex_cmp_cb a a = 0" for a by (induction a) (auto simp: lex_cmp_cb_rec)
qed (fact lex_cmp_flip lex_cmp_trans)+

interpretation default_order: key_order default_cmp_cb
proof
  show "default_cmp_cb a a = 0" for a
    using lex_order.cmp_self by (simp add: default_cmp_cb_def memcmp_lex)
  show "default_cmp_cb a b < 0 \<longleftrightarrow> 0 < default_cmp_cb b a" for a b
    using lex_cmp_flip [of a b] by (auto simp: default_cmp_cb_def memcmp_lex)
  show "default_cmp_cb a c \<le> 0" if "default_cmp_cb a b \<le> 0" "default_cmp_cb b c \<le> 0" for a b c
    using that lex_cmp_trans [of a b c] by (auto simp: default_cmp_cb_def memcmp_lex split: if_splits)
qed

end
