(* ===== verification/Btree_Nonleaf_Correct.thy ===== *)
theory Btree_Nonleaf_Correct
  imports Btree_Nonleaf Btree_Search_Correct
begin

text \<open>
  The routines on non-leaf nodes act on the canonical encoding of a list of separators as the list
  operations: insertion at an index, removal, and a split that moves the middle separator out.
\<close>

section \<open>Key positions\<close>

lemma word_pos_diff: "l \<le> pos \<Longrightarrow> (word_of_nat pos - word_of_nat l :: u32) = word_of_nat (pos - l)"
  by (simp add: of_nat_diff)

text \<open>Renewing the positions only needs the other fields of the key structures.\<close>

abbreviation bare :: "node_vkey \<Rightarrow> node_vkey" where "bare v \<equiv> v\<lparr>vk_keypos := 0\<rparr>"

definition bare_vkey :: "nl_entry \<Rightarrow> node_vkey" where
  "bare_vkey e = \<lparr>vk_keylen = word_of_nat (length (ne_key e)), vk_keypos = 0, vk_ptr = ne_ptr e,
     vk_seqno = ne_seqno e\<rparr>"

lemma bare_vkeys [simp]: "map bare (vkeys p es) = map bare_vkey es"
  by (induction es arbitrary: p) (simp_all add: bare_vkey_def)

lemma keypos_loop_vkeys:
  assumes "key_bytes es \<le> pos" and "map bare vks = map bare_vkey es"
  shows "keypos_loop (word_of_nat pos) vks = vkeys pos es"
  using assms
proof (induction es arbitrary: pos vks)
  case (Cons e es)
  then obtain v vs where vks: "vks = v # vs" and v: "bare v = bare_vkey e" and vs: "map bare vs = map bare_vkey es"
    by auto
  from v have "vk_keylen v = word_of_nat (length (ne_key e))" "vk_ptr v = ne_ptr e" "vk_seqno v = ne_seqno e"
    by (cases v; simp add: bare_vkey_def)+
  then show ?case
    using Cons.IH [OF _ vs, of "pos - length (ne_key e)"] Cons.prems(1)
    by (cases v) (simp add: vks Let_def word_pos_diff del: of_nat_diff)
qed simp

lemma key_bytes_take_drop: "key_bytes (take i es) + key_bytes (drop i es) = key_bytes es"
  by (metis append_take_drop_id map_append sum_list_append)

lemma key_area_take_drop: "key_area es = key_area (drop i es) @ key_area (take i es)"
  by (metis append_take_drop_id key_area_append)

lemma vkeys_split: "vkeys pos es = vkeys pos (take i es) @ vkeys (pos - key_bytes (take i es)) (drop i es)"
  by (metis append_take_drop_id vkeys_append)

lemma nth_vkeys:
  assumes "i < length es"
  shows "vkeys pos es ! i = \<lparr>vk_keylen = word_of_nat (length (ne_key (es ! i))),
    vk_keypos = word_of_nat (pos - key_bytes (take i es) - length (ne_key (es ! i))),
    vk_ptr = ne_ptr (es ! i), vk_seqno = ne_seqno (es ! i)\<rparr>"
  by (subst id_take_nth_drop [OF assms], subst vkeys_append) (simp add: nth_append assms less_imp_le)

lemma key_bytes_take_Suc:
  "i < length es \<Longrightarrow> key_bytes (take (Suc i) es) = key_bytes (take i es) + length (ne_key (es ! i))"
  by (simp add: take_Suc_conv_app_nth)

text \<open>The bounds every proof on an encoded node uses.\<close>

lemma repr_bounds:
  assumes "nonleaf_repr bt n es"
  shows "nodesize bt = nodesize_less_hdr bt + sizeof_btree_raw_node" and "nodesize bt \<le> 32768"
    and "length es * sizeof_node_vkey + key_bytes es \<le> nodesize_less_hdr bt"
    and "nl_insert_ptr bt n = nodesize bt - key_bytes es"
proof -
  obtain s: "node_sizes_ok bt" and u: "seps_ok bt es" and a: "nl_area n = key_area es"
    using assms by (rule nonleaf_reprE)
  show "nodesize bt = nodesize_less_hdr bt + sizeof_btree_raw_node" "nodesize bt \<le> 32768"
    using s by (simp_all add: node_sizes_ok_def)
  show "length es * sizeof_node_vkey + key_bytes es \<le> nodesize_less_hdr bt"
    using u by (simp add: seps_ok_def nl_used_def)
  show "nl_insert_ptr bt n = nodesize bt - key_bytes es" by (simp add: nl_insert_ptr_def a)
qed

lemma nth_key_position:
  assumes "nonleaf_repr bt n es" and "i < length es"
  shows "unat (vk_keylen (nl_keys n ! i)) = length (ne_key (es ! i))"
    and "unat (vk_keypos (nl_keys n ! i)) + length (ne_key (es ! i)) = nodesize bt - key_bytes (take i es)"
    and "key_bytes (take i es) + length (ne_key (es ! i)) + key_bytes (drop (Suc i) es) = key_bytes es"
    and "ne_key (es ! i) \<noteq> []"
proof -
  show "ne_key (es ! i) \<noteq> []" using assms by (simp add: nonleaf_repr_def seps_ok_def)
  note b = repr_bounds [OF assms(1)]
  have k: "nl_keys n = vkeys (nodesize bt) es" using assms(1) by (rule nonleaf_reprE)
  show sum: "key_bytes (take i es) + length (ne_key (es ! i)) + key_bytes (drop (Suc i) es) = key_bytes es"
    using key_bytes_take_drop [of "Suc i" es] key_bytes_take_Suc [OF assms(2)] by simp
  show "unat (vk_keylen (nl_keys n ! i)) = length (ne_key (es ! i))"
    using b sum by (simp add: k nth_vkeys [OF assms(2)])
  show "unat (vk_keypos (nl_keys n ! i)) + length (ne_key (es ! i)) = nodesize bt - key_bytes (take i es)"
  proof -
    have "nodesize bt - key_bytes (take i es) - length (ne_key (es ! i)) < 2 ^ LENGTH(32)" using b(2) by simp
    from unat_of_nat_less [OF this] show ?thesis
      using b(1,3) sum by (simp add: k nth_vkeys [OF assms(2)] del: of_nat_diff of_nat_add)
  qed
qed

lemma bytes_free_encoded:
  assumes "nonleaf_repr bt n es"
  shows "vnode_bytes_free bt n = word_of_nat (nodesize_less_hdr bt - nl_used es)"
proof -
  note b = repr_bounds [OF assms]
  have k: "nl_keys n = vkeys (nodesize bt) es" using assms by (rule nonleaf_reprE)
  have "nodesize_less_hdr bt - nl_used es
      = nodesize bt - key_bytes es - sizeof_btree_raw_node - length es * sizeof_node_vkey"
    using b(1) by (simp add: nl_used_def)
  then show ?thesis
    using b(1,3) by (simp add: vnode_bytes_free_def b(4) k of_nat_diff)
qed

section \<open>Insertion and deletion\<close>

lemma update_ptr_encoded:
  assumes "nonleaf_repr bt n es" and "i < length es"
  shows "update_ptr n i ptr = Some (encode_nonleaf bt n (es[i := (es ! i)\<lparr>ne_ptr := ptr\<rparr>]))"
proof -
  have k: "nl_keys n = vkeys (nodesize bt) es" and a: "nl_area n = key_area es"
    using assms(1) by (auto elim: nonleaf_reprE)
  have kb: "map (length \<circ> ne_key) (es[i := (es ! i)\<lparr>ne_ptr := ptr\<rparr>]) = map (length \<circ> ne_key) es"
    "map ne_key (es[i := (es ! i)\<lparr>ne_ptr := ptr\<rparr>]) = map ne_key es"
    using assms(2) by (simp_all add: map_update list_update_same_conv)
  have "(vkeys (nodesize bt) es)[i := (vkeys (nodesize bt) es ! i)\<lparr>vk_ptr := ptr\<rparr>]
      = vkeys (nodesize bt) (es[i := (es ! i)\<lparr>ne_ptr := ptr\<rparr>])"
    using assms(2) kb(1)
    by (auto intro!: nth_equalityI simp: nth_list_update nth_vkeys simp flip: take_map)
  then show ?thesis
    using assms(2) kb(2) by (simp add: update_ptr_def k encode_nonleaf_def key_area_def a)
qed

lemma insert_position_encoded:
  assumes r: "nonleaf_repr bt n es" and i: "i \<le> length es"
    and pk: "pk = (if i < length es then Some i else None)"
  shows "insert_position bt n pk = Some (i, nodesize bt - key_bytes (take i es), key_bytes (drop i es))"
proof (cases "i < length es")
  case True
  note b = repr_bounds [OF r] and p = nth_key_position [OF r True]
  have tot: "key_bytes (take i es) + key_bytes (drop i es) = key_bytes es" by (rule key_bytes_take_drop)
  have "length (nl_keys n) = length es" by (rule nonleaf_repr_nkeys [OF r])
  moreover from this have "nl_keys n \<noteq> []" using True by auto
  moreover have "unat (vk_keypos (nl_keys n ! i)) < nodesize bt" "unat (vk_keylen (nl_keys n ! i)) < nodesize bt"
    "nl_insert_ptr bt n \<le> nodesize bt - key_bytes (take i es)"
    using p b tot by (simp_all add: add_gr_0 flip: length_greater_0_conv)
  moreover have "nodesize bt - key_bytes (take i es) - nl_insert_ptr bt n = key_bytes (drop i es)"
    using b tot by simp
  ultimately show ?thesis
    using True p(1,2) by (simp add: insert_position_def pk assert_opt_def Let_def)
next
  case False
  then show ?thesis
    using i repr_bounds(4) [OF r] nonleaf_repr_nkeys [OF r] by (simp add: insert_position_def pk)
qed

lemma insert_key_low_encoded:
  assumes r: "nonleaf_repr bt n es" and i: "i \<le> length es"
    and pk: "pk = (if i < length es then Some i else None)"
    and fits: "nl_used (insert_at i e es) \<le> nodesize_less_hdr bt"
  shows "insert_key_low bt n (ne_key e) (ne_seqno e) (ne_ptr e) pk
    = Some (encode_nonleaf bt n (insert_at i e es))"
proof -
  obtain k: "nl_keys n = vkeys (nodesize bt) es" and a: "nl_area n = key_area es"
    using r by (rule nonleaf_reprE)
  note b = repr_bounds [OF r]
  let ?pos = "nodesize bt - key_bytes (take i es)"
  have tot: "key_bytes (take i es) + key_bytes (drop i es) = key_bytes es" by (rule key_bytes_take_drop)
  have room: "nl_used es + sizeof_node_vkey + length (ne_key e) \<le> nodesize_less_hdr bt"
    using fits nl_used_append [of "take i es" "drop i es"]
    by (simp add: insert_at_def nl_used_append nl_used_Cons)
  then have free: "vnode_bytes_free bt n \<ge> word_of_nat (sizeof_node_vkey + length (ne_key e))"
    unfolding bytes_free_encoded [OF r] using b(1,2)
    by (intro word_of_nat_less_eq_iff [THEN iffD2]) (simp add: take_bit_nat_eq_self)
  have "key_bytes (e # drop i es) \<le> ?pos"
    using room b tot by (simp add: nl_used_def)
  note loop = keypos_loop_vkeys [OF this]
  have "insert_key_low bt n (ne_key e) (ne_seqno e) (ne_ptr e) pk =
    Some (n\<lparr>nl_keys := vkeys (nodesize bt) (take i es) @ vkeys ?pos (e # drop i es),
            nl_area := key_area (drop i es) @ ne_key e @ key_area (take i es)\<rparr>)"
    unfolding insert_key_low_def insert_position_encoded [OF r i pk] using free i
    by (simp add: assert_opt_def update_keypos_low_def k a take_vkeys drop_vkeys key_area_take_drop [of es i]
        loop bare_vkey_def Let_def del: keypos_loop.simps vkeys.simps(2))
  then show ?thesis
    by (simp add: encode_nonleaf_def insert_at_def vkeys_append key_area_append key_area_Cons)
qed

lemma delete_key_by_pkrec_encoded:
  assumes r: "nonleaf_repr bt n es" and i: "i < length es"
  shows "delete_key_by_pkrec bt n i = Some (encode_nonleaf bt n (remove_at i es))"
proof -
  obtain k: "nl_keys n = vkeys (nodesize bt) es" and a: "nl_area n = key_area es"
    using r by (rule nonleaf_reprE)
  note b = repr_bounds [OF r] and p = nth_key_position [OF r i]
  have area: "key_area es = key_area (drop (Suc i) es) @ ne_key (es ! i) @ key_area (take i es)"
    by (subst id_take_nth_drop [OF i]) (simp add: key_area_append key_area_Cons)
  have moved: "unat (vk_keypos (nl_keys n ! i)) - nl_insert_ptr bt n = key_bytes (drop (Suc i) es)"
    "nl_insert_ptr bt n \<le> unat (vk_keypos (nl_keys n ! i))"
    using p(2,3) b by linarith+
  have "key_bytes (remove_at i es) \<le> nodesize bt"
    using p(3) b by (simp add: remove_at_def)
  then have loop: "keypos_loop (word_of_nat (nodesize bt)) (take i (nl_keys n) @ drop (Suc i) (nl_keys n))
      = vkeys (nodesize bt) (remove_at i es)"
    by (rule keypos_loop_vkeys) (simp add: k take_vkeys drop_vkeys remove_at_def)
  show ?thesis
    using i p(1,4) moved nonleaf_repr_nkeys [OF r] p(3)
    by (simp add: delete_key_by_pkrec_def assert_opt_def Let_def update_keypos_def update_keypos_low_def
        loop a area encode_nonleaf_def remove_at_def key_area_append)
qed

section \<open>Splitting\<close>

text \<open>The test of the loop: more keys stay in the node.\<close>

definition split_more :: "btree_raw \<Rightarrow> nl_entry list \<Rightarrow> nat \<Rightarrow> nat \<Rightarrow> bool" where
  "split_more bt es split_key m \<longleftrightarrow>
     m < length es \<and>
     (if split_key \<noteq> 0 then m < split_key
      else nl_used (take m es) \<le> (nodesize bt - sizeof_btree_raw_node) div 2)"

abbreviation nl_stuff :: "nl_entry list \<Rightarrow> nat \<Rightarrow> key_stuff" where
  "nl_stuff es i \<equiv> \<lparr>st_ptr = ne_ptr (es ! i), st_nkey = i, st_pkey_val = ne_key (es ! i),
     st_keylen = word_of_nat (length (ne_key (es ! i))), st_datalen = 8, st_seqno = ne_seqno (es ! i)\<rparr>"

lemma split_copy_loop_encoded:
  assumes r: "nonleaf_repr bt n es" and "m \<le> length es"
  shows "\<exists>m'. m \<le> m' \<and> m' \<le> length es \<and> \<not> split_more bt es split_key m' \<and>
    (\<forall>j. m \<le> j \<longrightarrow> j < m' \<longrightarrow> split_more bt es split_key j) \<and>
    split_copy_loop bt n split_key m (key_bytes (take m es)) ks
      = Some (m', key_bytes (take m' es), if m' = m then ks else nl_stuff es (m' - 1))"
  using assms(2)
proof (induction "length es - m" arbitrary: m ks rule: less_induct)
  case less
  have m: "length (take m es) = m" using less.prems by simp
  have unf: "split_copy_loop bt n split_key m (key_bytes (take m es)) ks =
    (if split_more bt es split_key m then
       case get_key_stuff bt n m of None \<Rightarrow> None
       | Some ks' \<Rightarrow> split_copy_loop bt n split_key (Suc m) (key_bytes (take m es) + unat (st_keylen ks')) ks'
     else Some (m, key_bytes (take m es), ks))"
    by (subst split_copy_loop.simps)
      (auto simp: split_more_def nonleaf_repr_nkeys [OF r] nl_used_def m add.commute)
  show ?case
  proof (cases "split_more bt es split_key m")
    case True
    then have lt: "m < length es" by (simp add: split_more_def)
    have "length (ne_key (es ! m)) < 65536"
      using nth_key_position(3) [OF r lt] repr_bounds [OF r] by linarith
    then have st: "split_copy_loop bt n split_key m (key_bytes (take m es)) ks =
        split_copy_loop bt n split_key (Suc m) (key_bytes (take (Suc m) es)) (nl_stuff es m)"
      using unf True by (simp add: get_key_stuff_encoded [OF r lt] key_bytes_take_Suc [OF lt])
    have "length es - Suc m < length es - m" using lt by simp
    from less.hyps [OF this, of "nl_stuff es m"] lt
    obtain m' where m': "Suc m \<le> m'" "m' \<le> length es" "\<not> split_more bt es split_key m'"
      "\<forall>j. Suc m \<le> j \<longrightarrow> j < m' \<longrightarrow> split_more bt es split_key j"
      "split_copy_loop bt n split_key (Suc m) (key_bytes (take (Suc m) es)) (nl_stuff es m)
        = Some (m', key_bytes (take m' es), if m' = Suc m then nl_stuff es m else nl_stuff es (m' - 1))"
      by auto
    have "\<forall>j. m \<le> j \<longrightarrow> j < m' \<longrightarrow> split_more bt es split_key j"
      using m'(4) True by (metis Suc_leI le_neq_implies_less)
    then show ?thesis using st m' by (intro exI [of _ m']) (auto simp: not_less_eq_eq)
  next
    case False
    then show ?thesis using unf less.prems by auto
  qed
qed

lemma split_copy_encoded:
  assumes r: "nonleaf_repr bt fr es" and len: "2 \<le> length es"
    and more: "\<not> split_more bt es split_key (length es - 1)"
  shows "\<exists>m. 0 < m \<and> m < length es \<and> \<not> split_more bt es split_key m \<and> (\<forall>j<m. split_more bt es split_key j) \<and>
    split_copy bt fr tn split_key =
      Some (encode_nonleaf bt (fr\<lparr>nl_rightmost := ne_ptr (es ! (m - 1))\<rparr>) (take (m - 1) es),
            encode_nonleaf bt (tn\<lparr>nl_rightmost := nl_rightmost fr\<rparr>) (drop m es),
            ne_key (es ! (m - 1)), ne_seqno (es ! (m - 1)))"
proof -
  obtain k: "nl_keys fr = vkeys (nodesize bt) es" and a: "nl_area fr = key_area es"
    using r by (rule nonleaf_reprE)
  note b = repr_bounds [OF r]
  have z: "0 < length es" using len by linarith
  obtain m where m: "m \<le> length es" "\<not> split_more bt es split_key m" "\<forall>j<m. split_more bt es split_key j"
    "split_copy_loop bt fr split_key 0 0 (nl_stuff es 0)
      = Some (m, key_bytes (take m es), if m = 0 then nl_stuff es 0 else nl_stuff es (m - 1))"
    using split_copy_loop_encoded [OF r, of 0 split_key "nl_stuff es 0"] by auto
  have m0: "0 < m" using m(2) z by (cases m) (auto simp: split_more_def split: if_splits)
  have ml: "m < length es" using m(1,3) more z by (metis diff_less le_neq_implies_less zero_less_one)
  let ?i = "m - 1"
  have i: "?i < length es" "Suc ?i = m" using m0 ml by auto
  have sum: "key_bytes (take ?i es) + length (ne_key (es ! ?i)) = key_bytes (take m es)"
    using key_bytes_take_Suc [OF i(1)] i(2) by simp
  have tot: "key_bytes (take m es) + key_bytes (drop m es) = key_bytes es" by (rule key_bytes_take_drop)
  have len_small: "length (ne_key (es ! ?i)) < 65536" using sum tot b by linarith
  have area: "key_area es = key_area (drop m es) @ ne_key (es ! ?i) @ key_area (take ?i es)"
    using id_take_nth_drop [OF i(1)] i(2) by (metis append_assoc key_area_append key_area_Cons)
  have nb: "length (key_area es) - key_bytes (take m es) = key_bytes (drop m es)" using tot by simp
  have loop: "keypos_loop (word_of_nat (nodesize bt)) (drop m (vkeys (nodesize bt) es))
      = vkeys (nodesize bt) (drop m es)"
    using tot b by (intro keypos_loop_vkeys) (simp_all add: drop_vkeys)
  have "split_copy bt fr tn split_key =
      Some (encode_nonleaf bt (fr\<lparr>nl_rightmost := ne_ptr (es ! ?i)\<rparr>) (take ?i es),
            encode_nonleaf bt (tn\<lparr>nl_rightmost := nl_rightmost fr\<rparr>) (drop m es),
            ne_key (es ! ?i), ne_seqno (es ! ?i))"
    using m(4) m0 ml nb len_small
    by (simp add: split_copy_def get_key_stuff_encoded [OF r z] assert_opt_def k a mem_read_def area loop
        update_keypos_def update_keypos_low_def encode_nonleaf_def take_vkeys Let_def)
  then show ?thesis using m m0 ml by blast
qed

section \<open>Search for a child and sorted insertion\<close>

lemma find_key_non_leaf_encoded:
  assumes cmp: "key_order (cmp_cb bt)" and r: "nonleaf_repr bt n es" and ne: "es \<noteq> []"
    and s: "sorted_wrt (version_less (cmp_cb bt)) (nl_versions es)"
    and p: "p = latest_pos (cmp_cb bt) key meta (nl_versions es)"
    and c: "cs = children es (nl_rightmost n)"
  shows "find_key_non_leaf bt n key meta =
    Some \<lparr>cs_found = (if latest_found (cmp_cb bt) key meta (nl_versions es) then Some p else None),
          child_id = cs ! p, child_id_before = (if 0 < p then cs ! (p - 1) else BAD_CHILD),
          child_id_after = (if p < length es then cs ! Suc p else BAD_CHILD),
          pk_insert = (if p < length es then Some p else None), nkey_child = int p\<rparr>"
proof -
  note st = get_key_stuff_encoded [OF r]
  have nk: "length (nl_keys n) = length es" by (rule nonleaf_repr_nkeys [OF r])
  have le: "p \<le> length es"
    using key_order.latest_pos_le [OF cmp, of key meta "nl_versions es"] p by simp
  have search: "bsearch_key_low bt (NonLeafNode n) key meta (- 1) (int (length es)) BSF_LATEST
      = Some (int p, latest_found (cmp_cb bt) key meta (nl_versions es))"
    using key_order.bsearch_latest [OF cmp refl nonleaf_node_reads [OF r] s, of key meta] p nk by simp
  have fnd: "p < length es" if "latest_found (cmp_cb bt) key meta (nl_versions es)"
    using that p by (simp add: latest_found_def Let_def)
  have here: "cs ! p = (if p < length es then ne_ptr (es ! p) else nl_rightmost n)"
    using le by (auto simp: c children_def nth_append)
  have prev: "cs ! (p - 1) = ne_ptr (es ! (p - 1))" "nat (int p - 1) = p - 1" if "0 < p"
    using that le by (auto simp: c children_def nth_append nat_diff_distrib)
  have succ: "cs ! Suc p = (if Suc p < length es then ne_ptr (es ! Suc p) else nl_rightmost n)"
    "nat (int p + 1) = Suc p" if "p < length es"
    using that by (auto simp: c children_def nth_append Suc_lessI)
  consider (last) "p = length es" | (inner) "p < length es" "Suc p < length es" | (final) "p < length es" "Suc p = length es"
    using le by linarith
  then show ?thesis
    using ne nk search prev succ fnd here
    by cases (auto simp: find_key_non_leaf_def Let_def st split: if_splits)
qed

text \<open>The query that looks for the place of a new version, as \<open>insert_key\<close> does.\<close>

lemma before_LE:
  assumes "seqno \<noteq> 0" and "md_flags m = READ_SEQNO_LE" and "md_end_seqno m = seqno - 1"
  shows "before cmp key (Some m) v \<longleftrightarrow> 0 < cmp key (fst v) \<or> cmp key (fst v) = 0 \<and> seqno \<le> snd v"
proof -
  have "READ_SEQNO_LE AND (READ_SEQNO_EQ OR READ_SEQNO_LE OR READ_SEQNO_GT_LE) \<noteq> 0"
    "READ_SEQNO_LE AND READ_SEQNO_EQ = 0" "READ_SEQNO_LE AND READ_SEQNO_LE \<noteq> 0"
    by (simp_all add: READ_SEQNO_LE_def READ_SEQNO_EQ_def READ_SEQNO_GT_LE_def)
  moreover have "snd v \<le> seqno - 1 \<longleftrightarrow> snd v < seqno"
  proof -
    have "0 < unat seqno" using assms(1) by (simp add: unat_gt_0)
    then show ?thesis using assms(1) by (auto simp: word_less_nat_alt word_le_nat_alt unat_minus_one)
  qed
  ultimately show ?thesis using assms by (auto simp: before_def seqno_cmp_range_def)
qed

context key_order
begin

lemma sorted_insert_latest:
  assumes s: "sorted_wrt (version_less cmp) vs" and q: "seqno \<noteq> 0"
    and m: "md_flags m = READ_SEQNO_LE" "md_end_seqno m = seqno - 1"
    and fresh: "\<And>v. v \<in> set vs \<Longrightarrow> cmp key (fst v) = 0 \<Longrightarrow> snd v \<noteq> seqno"
  shows "sorted_wrt (version_less cmp) (insert_at (latest_pos cmp key (Some m) vs) (key, seqno) vs)"
proof -
  let ?p = "latest_pos cmp key (Some m) vs"
  have "version_less cmp v (key, seqno)" if v: "v \<in> set (take ?p vs)" for v
  proof -
    obtain j where j: "j < ?p" "j < length vs" "v = vs ! j" using v by (auto simp: in_set_conv_nth)
    have "before cmp key (Some m) v" using before_latest_pos [OF j(1)] j(3) by simp
    then show ?thesis
      using fresh [of v] j cmp_flip [of "fst v" key] cmp_eq_sym [of key "fst v"]
      by (auto simp: before_LE [OF q m] version_less_def order.strict_iff_order)
  qed
  moreover have "version_less cmp (key, seqno) v" if v: "v \<in> set (drop ?p vs)" for v
  proof -
    obtain j where "j < length vs - ?p" "v = vs ! (?p + j)" using v by (auto simp: in_set_conv_nth)
    then have j: "?p + j < length vs" "v = vs ! (?p + j)" by simp_all
    have "\<not> before cmp key (Some m) v" using not_before_latest_pos [OF s _ j(1)] j(2) by simp
    then show ?thesis by (auto simp: before_LE [OF q m] version_less_def)
  qed
  moreover have "version_less cmp v w" if "v \<in> set (take ?p vs)" "w \<in> set (drop ?p vs)" for v w
    using s that by (metis append_take_drop_id sorted_wrt_append)
  ultimately show ?thesis
    using s by (simp add: insert_at_def sorted_wrt_append sorted_wrt_take sorted_wrt_drop)
qed

end

lemma map_insert_at: "map f (insert_at i x xs) = insert_at i (f x) (map f xs)"
  by (simp add: insert_at_def take_map drop_map)

lemma insert_key_encoded:
  assumes cmp: "key_order (cmp_cb bt)" and r: "nonleaf_repr bt n es"
    and s: "sorted_wrt (version_less (cmp_cb bt)) (nl_versions es)"
    and p: "p = latest_pos (cmp_cb bt) (ne_key e) (Some \<lparr>md_flags = READ_SEQNO_LE, md_seqno = 0,
        md_start_seqno = 0, md_end_seqno = ne_seqno e - 1\<rparr>) (nl_versions es)"
    and fits: "nl_used (insert_at p e es) \<le> nodesize_less_hdr bt"
  shows "insert_key bt n (ne_key e) (ne_seqno e) (ne_ptr e) = Some (encode_nonleaf bt n (insert_at p e es))"
proof (cases "es = []")
  case True
  then have "p = 0" "nl_keys n = []" using p nonleaf_repr_nkeys [OF r] by (simp_all add: latest_pos_def)
  then show ?thesis
    using insert_key_low_encoded [OF r, of p None e] fits True by (simp add: insert_key_def find_key_non_leaf_def Let_def)
next
  case False
  have "p \<le> length es" unfolding p by (rule order_trans [OF key_order.latest_pos_le [OF cmp]]) simp
  then show ?thesis
    using find_key_non_leaf_encoded [OF cmp r False s p refl] insert_key_low_encoded [OF r _ refl fits]
    by (simp add: insert_key_def)
qed

end
