(* ===== verification/Btree_Node_Theorems.thy ===== *)
theory Btree_Node_Theorems
  imports Btree_Nonleaf_Correct
begin

text \<open>
  The properties of the search inside a node and of the non-leaf nodes, for every comparison
  callback that orders the keys.
\<close>

section \<open>Samples\<close>

text \<open>A tree with nodes of 8 KiB as \<open>btree_raw_init\<close> configures it, and a node with two versions of
  one key between two other keys.\<close>

definition sample_btree :: btree_raw where
  "sample_btree = \<lparr>nodesize = 8192, nodesize_less_hdr = 8056, big_object_size = 1977,
     max_key_size = 1986, rootid = 1, cmp_cb = lex_cmp_cb, space_op_disabled = True,
     min_common_length = 3, bt_storm_mode = False, datasz_in_overflow = 0\<rparr>"

definition sample_sep :: "mem \<Rightarrow> u64 \<Rightarrow> u64 \<Rightarrow> nl_entry" where
  "sample_sep k s p = \<lparr>ne_key = k, ne_seqno = s, ne_ptr = p\<rparr>"

definition sample_seps :: "nl_entry list" where
  "sample_seps = [sample_sep [1] 5 10, sample_sep [3] 9 11, sample_sep [3] 4 12, sample_sep [3, 1] 7 13]"

definition sample_nonleaf :: "nl_entry list \<Rightarrow> nonleaf_node" where
  "sample_nonleaf es = encode_nonleaf sample_btree
     \<lparr>nl_flags = 0, nl_logical_id = 1, nl_next = 0, nl_rightmost = 14, nl_keys = [], nl_area = []\<rparr> es"

definition LE_meta :: "u64 \<Rightarrow> btree_metadata" where
  "LE_meta q = \<lparr>md_flags = READ_SEQNO_LE, md_seqno = 0, md_start_seqno = 0, md_end_seqno = q\<rparr>"

lemma sample_cmp [simp]: "cmp_cb sample_btree = lex_cmp_cb"
  by (simp add: sample_btree_def)

lemma sample_nonleaf_repr:
  "seps_ok sample_btree es \<Longrightarrow> nonleaf_repr sample_btree (sample_nonleaf es) es"
  unfolding sample_nonleaf_def by (rule nonleaf_reprI) (simp_all add: node_sizes_ok_def sample_btree_def)

lemma sample_seps_ok: "seps_ok sample_btree sample_seps"
  by (simp add: seps_ok_def sample_btree_def sample_seps_def sample_sep_def nl_used_def)

lemma sample_seps_sorted: "sorted_wrt (version_less lex_cmp_cb) (nl_versions sample_seps)"
  by (simp add: sample_seps_def sample_sep_def version_less_def lex_cmp_cb_rec)

lemma sample_order: "key_order (cmp_cb sample_btree)"
  using lex_order.key_order_axioms by simp

lemmas sample_seps_repr = sample_nonleaf_repr [OF sample_seps_ok]
lemmas sample_seps_read = nonleaf_node_reads [OF sample_seps_repr]
lemmas sample_seps_sorted' = sample_seps_sorted [folded sample_cmp]

lemma sample_seps_nkeys: "node_nkeys (NonLeafNode (sample_nonleaf sample_seps)) = 4"
  using nonleaf_repr_nkeys [OF sample_seps_repr] by (simp add: sample_seps_def)

section \<open>Search\<close>

text \<open>C18: On a node sorted by key and descending sequence number, the search for the latest version
  returns an index for every query: the versions before it lie before the query, the others do
  not.  The key is reported as found exactly if some version satisfies the query, and then the
  index is the one of the matching version with the greatest sequence number.\<close>

theorem bsearch_latest_correct:
  assumes "key_order (cmp_cb bt)" and "node_reads bt n vs" and "sorted_wrt (version_less (cmp_cb bt)) vs"
  shows "\<exists>i found. bsearch_key_low bt n key meta (- 1) (int (node_nkeys n)) BSF_LATEST = Some (int i, found) \<and>
    i \<le> length vs \<and> (\<forall>j<i. before (cmp_cb bt) key meta (vs ! j)) \<and>
    (\<forall>j. i \<le> j \<and> j < length vs \<longrightarrow> \<not> before (cmp_cb bt) key meta (vs ! j)) \<and>
    (found \<longleftrightarrow> (\<exists>v\<in>set vs. matches (cmp_cb bt) key meta v)) \<and>
    (found \<longrightarrow> matches (cmp_cb bt) key meta (vs ! i) \<and>
       (\<forall>v\<in>set vs. matches (cmp_cb bt) key meta v \<longrightarrow> snd v \<le> snd (vs ! i)))"
proof -
  let ?p = "latest_pos (cmp_cb bt) key meta vs" and ?f = "latest_found (cmp_cb bt) key meta vs"
  have "?f \<Longrightarrow> matches (cmp_cb bt) key meta (vs ! ?p)" by (simp add: latest_found_def Let_def)
  then show ?thesis
    using key_order.bsearch_latest [OF assms(1) refl assms(2,3), of key meta]
      key_order.latest_pos_le [OF assms(1), of key meta vs]
      key_order.before_latest_pos [OF assms(1), of _ key meta vs]
      key_order.not_before_latest_pos [OF assms(1,3), of key meta]
      key_order.latest_found_iff [OF assms(1,3), where key = key and meta = meta]
    by (intro exI [of _ ?p] exI [of _ ?f]) blast
qed

theorem bsearch_latest_witness:
  "\<exists>i. bsearch_key_low sample_btree (NonLeafNode (sample_nonleaf sample_seps)) [3] (Some (LE_meta 8)) (- 1) 4
      BSF_LATEST = Some (int i, True) \<and> snd (nl_versions sample_seps ! i) \<ge> 4"
proof -
  have m: "matches lex_cmp_cb [3] (Some (LE_meta 8)) ([3], 4)"
    by (simp add: matches_def lex_cmp_cb_rec seqno_cmp_range_def LE_meta_def READ_SEQNO_LE_def READ_SEQNO_EQ_def
        READ_SEQNO_GT_LE_def)
  have v: "([3], 4) \<in> set (nl_versions sample_seps)" by (simp add: sample_seps_def sample_sep_def)
  obtain i found where r:
    "bsearch_key_low sample_btree (NonLeafNode (sample_nonleaf sample_seps)) [3] (Some (LE_meta 8)) (- 1) 4
      BSF_LATEST = Some (int i, found)"
    "found \<longleftrightarrow> (\<exists>v\<in>set (nl_versions sample_seps). matches lex_cmp_cb [3] (Some (LE_meta 8)) v)"
    "found \<longrightarrow> (\<forall>v\<in>set (nl_versions sample_seps).
        matches lex_cmp_cb [3] (Some (LE_meta 8)) v \<longrightarrow> snd v \<le> snd (nl_versions sample_seps ! i))"
    using bsearch_latest_correct [OF sample_order sample_seps_read sample_seps_sorted', of "[3]" "Some (LE_meta 8)"]
    unfolding sample_seps_nkeys sample_cmp of_nat_numeral by blast
  have f: found using r(2) m v by blast
  have "snd ([3] :: mem, 4) \<le> snd (nl_versions sample_seps ! i)" using r(3) f m v by blast
  then show ?thesis using r(1) f by auto
qed

text \<open>C19: With \<open>BSF_NEXT\<close> the search returns the index of the first key greater than the searched one
  (the number of keys if there is none) and reports whether the key itself occurs.\<close>

theorem bsearch_next_finds:
  assumes "key_order (cmp_cb bt)" and "node_reads bt n vs" and "sorted_wrt (version_less (cmp_cb bt)) vs"
  shows "bsearch_key_low bt n key meta (- 1) (int (node_nkeys n)) BSF_NEXT
    = Some (int (length (takeWhile (\<lambda>v. 0 \<le> cmp_cb bt key (fst v)) vs)), \<exists>v\<in>set vs. cmp_cb bt key (fst v) = 0)"
  using key_order.bsearch_key_low_next [OF assms(1) refl assms(2,3)] by (simp add: next_pos_def)

theorem bsearch_next_witness:
  "bsearch_key_low sample_btree (NonLeafNode (sample_nonleaf sample_seps)) [3] None (- 1) 4 BSF_NEXT = Some (3, True)"
  using bsearch_next_finds [OF sample_order sample_seps_read sample_seps_sorted', of "[3]" None]
  unfolding sample_seps_nkeys sample_cmp by (simp add: sample_seps_def sample_sep_def lex_cmp_cb_rec)

section \<open>Non-leaf nodes\<close>

text \<open>C20: The descent picks the child at the position of the query among the separators; the
  siblings reported with it are the neighbours of this child, and none at the ends.\<close>

theorem find_child_correct:
  assumes "key_order (cmp_cb bt)" and "nonleaf_repr bt n es" and "es \<noteq> []"
    and "sorted_wrt (version_less (cmp_cb bt)) (nl_versions es)"
    and "p = latest_pos (cmp_cb bt) key meta (nl_versions es)" and "cs = children es (nl_rightmost n)"
  shows "\<exists>r. find_key_non_leaf bt n key meta = Some r \<and> nkey_child r = int p \<and> p \<le> length es \<and>
    child_id r = cs ! p \<and> child_id_before r = (if p = 0 then BAD_CHILD else cs ! (p - 1)) \<and>
    child_id_after r = (if p = length es then BAD_CHILD else cs ! Suc p) \<and>
    pk_insert r = (if p = length es then None else Some p)"
proof -
  have "p \<le> length es"
    unfolding assms(5) by (rule order_trans [OF key_order.latest_pos_le [OF assms(1)]]) simp
  then show ?thesis using find_key_non_leaf_encoded [OF assms] by auto
qed

theorem find_child_witness:
  "\<exists>r. find_key_non_leaf sample_btree (sample_nonleaf sample_seps) [3] (Some (LE_meta 8)) = Some r \<and>
    child_id r = 12 \<and> child_id_before r = 11 \<and> child_id_after r = 13"
proof -
  have p: "2 = latest_pos lex_cmp_cb [3] (Some (LE_meta 8)) (nl_versions sample_seps)"
    by (simp add: latest_pos_def sample_seps_def sample_sep_def before_def lex_cmp_cb_rec seqno_cmp_range_def
        LE_meta_def READ_SEQNO_LE_def READ_SEQNO_EQ_def READ_SEQNO_GT_LE_def)
  have c: "[10, 11, 12, 13, 14] = children sample_seps (nl_rightmost (sample_nonleaf sample_seps))"
    by (simp add: children_def sample_seps_def sample_sep_def sample_nonleaf_def)
  have "es \<noteq> []" if "es = sample_seps" for es using that by (simp add: sample_seps_def)
  from find_child_correct [OF sample_order sample_seps_repr this [OF refl] sample_seps_sorted'
      p [folded sample_cmp] c] obtain r where
    "find_key_non_leaf sample_btree (sample_nonleaf sample_seps) [3] (Some (LE_meta 8)) = Some r"
    "child_id r = [10, 11, 12, 13, 14] ! 2" "child_id_before r = [10, 11, 12, 13, 14] ! (2 - 1)"
    "child_id_after r = [10, 11, 12, 13, 14] ! Suc 2"
    by (auto simp: sample_seps_def)
  then show ?thesis by simp
qed





text \<open>C22: Deleting a separator leaves a well-formed node that represents the others in their order.\<close>

theorem delete_key_by_index_correct:
  assumes "nonleaf_repr bt n es" and "i < length es"
  shows "\<exists>n'. delete_key_by_index_non_leaf bt n i = Some n' \<and> nonleaf_repr bt n' (remove_at i es) \<and>
    n' = encode_nonleaf bt n (remove_at i es)"
proof -
  have sizes: "node_sizes_ok bt" and ok: "seps_ok bt es" using assms(1) by (auto elim: nonleaf_reprE)
  have "nl_used (remove_at i es) \<le> nl_used es"
    by (subst (2) id_take_nth_drop [OF assms(2)]) (simp add: remove_at_def nl_used_append nl_used_Cons)
  then have ok': "seps_ok bt (remove_at i es)"
    using ok set_remove_at_subset [of i es] by (auto simp: seps_ok_def)
  then show ?thesis
    using delete_key_by_pkrec_encoded [OF assms] nonleaf_reprI [OF sizes ok']
    by (simp add: delete_key_by_index_non_leaf_def get_key_stuff_non_leaf_def get_key_stuff_encoded [OF assms])
qed

theorem delete_key_by_index_witness:
  "\<exists>n'. delete_key_by_index_non_leaf sample_btree (sample_nonleaf sample_seps) 1 = Some n' \<and>
    nonleaf_repr sample_btree n' [sample_sep [1] 5 10, sample_sep [3] 4 12, sample_sep [3, 1] 7 13]"
proof -
  have "1 < length sample_seps" and r: "remove_at 1 sample_seps = [sample_sep [1] 5 10, sample_sep [3] 4 12, sample_sep [3, 1] 7 13]"
    by (simp_all add: sample_seps_def remove_at_def)
  then show ?thesis using delete_key_by_index_correct [OF sample_seps_repr, of 1] unfolding r by blast
qed






end
