(* ===== verification/Btree_Status.thy ===== *)
theory Btree_Status
  imports ZS_Prelude
begin

text \<open>
  The status codes of the btree (\<open>btree_status_t\<close> in \<open>src/btree/btree_raw.h\<close>), as far as the
  modelled code returns or tests them, with their numeric values.
\<close>

datatype btree_status =
    BTREE_SUCCESS
  | BTREE_FAILURE
  | BTREE_OBJECT_UNKNOWN
  | BTREE_OBJECT_TOO_BIG
  | BTREE_FLASH_EIO
  | BTREE_FLASH_EINCONS
  | BTREE_BUFFER_TOO_SMALL
  | BTREE_KEY_NOT_FOUND
  | BTREE_TOO_MANY_SNAPSHOTS
  | BTREE_PARENT_FULL_FOR_SPLIT
  | BTREE_NO_NODE_REFS

primrec status_code :: "btree_status \<Rightarrow> u64" where
  "status_code BTREE_SUCCESS = 0"
| "status_code BTREE_FAILURE = 1"
| "status_code BTREE_OBJECT_UNKNOWN = 11"
| "status_code BTREE_OBJECT_TOO_BIG = 13"
| "status_code BTREE_FLASH_EIO = 84"
| "status_code BTREE_FLASH_EINCONS = 98"
| "status_code BTREE_BUFFER_TOO_SMALL = 155"
| "status_code BTREE_KEY_NOT_FOUND = 157"
| "status_code BTREE_TOO_MANY_SNAPSHOTS = 166"
| "status_code BTREE_PARENT_FULL_FOR_SPLIT = 167"
| "status_code BTREE_NO_NODE_REFS = 168"

definition storage_error :: "btree_status \<Rightarrow> bool" where
  "storage_error r = (r = BTREE_FLASH_EINCONS \<or> r = BTREE_FLASH_EIO)"

lemma status_code_eq_0: "status_code r = 0 \<longleftrightarrow> r = BTREE_SUCCESS"
  by (cases r) simp_all

end
