(* ===== verification/Btree_Snapshot.thy ===== *)
theory Btree_Snapshot
  imports Btree_Status
begin

text \<open>
  The snapshot metadata of a btree (\<open>src/btree/btree_snapshot.c\<close>): an array of snapshots in the
  metadata node, each with the sequence number at which it was taken.  A version of an object with
  sequence number \<open>s\<close> belongs to the first snapshot whose sequence number is at least \<open>s\<close>, and to
  the active container if there is none.

  The used part of the array is the list \<open>snapshots\<close>, so \<open>total_snapshots\<close> is its length.  Writing
  the metadata node is the callback \<open>write_node_cb\<close>, here a function from the metadata to the
  status it reports; the code aborts on a storage error.  The current time is an argument of the
  operation that reads the clock, locks are left out.
\<close>

section \<open>State and operations\<close>

record btree_snap_info =
  sn_seqno :: u64
  sn_timestamp :: u64

record btree_snap_meta =
  snap_version :: u32
  max_snapshots :: nat
  sc_status :: u32
  snapshots :: "btree_snap_info list"

definition SNAP_VERSION1 :: u32 where "SNAP_VERSION1 = 0x98760001"

abbreviation total_snapshots :: "btree_snap_meta \<Rightarrow> nat" where
  "total_snapshots m \<equiv> length (snapshots m)"

abbreviation sizeof_snap_info :: nat where "sizeof_snap_info \<equiv> 16"

text \<open>The offset of the snapshot array in the metadata node: the node header and four 32-bit fields.\<close>

abbreviation offsetof_snap_meta :: nat where "offsetof_snap_meta \<equiv> 152"

definition btree_snap_get_max_snapshot :: "u32 \<Rightarrow> nat \<Rightarrow> nat option" where
  "btree_snap_get_max_snapshot version sz =
     (if version = SNAP_VERSION1 then Some (sz div sizeof_snap_info) else None)"

definition btree_snap_rw_metanode ::
  "(btree_snap_meta \<Rightarrow> btree_status) \<Rightarrow> btree_snap_meta \<Rightarrow> btree_status option" where
  "btree_snap_rw_metanode write_node_cb m =
     (let ret = write_node_cb m in
      if ret \<noteq> BTREE_SUCCESS \<and> storage_error ret then None else Some ret)"

text \<open>Reading an existing metadata node: \<open>read_node_cb\<close> yields the stored metadata or an error.\<close>

definition btree_snap_read_metanode ::
  "btree_status + btree_snap_meta \<Rightarrow> btree_snap_meta \<Rightarrow> (btree_snap_meta \<times> btree_status) option" where
  "btree_snap_read_metanode read_node_cb m =
     (case read_node_cb of
        Inl ret \<Rightarrow> if ret \<noteq> BTREE_SUCCESS \<and> storage_error ret then None else Some (m, ret)
      | Inr m' \<Rightarrow> Some (m', BTREE_SUCCESS))"

definition btree_snap_init ::
  "(btree_snap_meta \<Rightarrow> btree_status) \<Rightarrow> btree_status + btree_snap_meta \<Rightarrow> nat \<Rightarrow> bool
    \<Rightarrow> (btree_snap_meta \<times> btree_status) option" where
  "btree_snap_init write_node_cb read_node_cb node_size create =
     (let zeroed = \<lparr>snap_version = 0, max_snapshots = 0, sc_status = 0, snapshots = []\<rparr> in
      if create then
        (case btree_snap_get_max_snapshot SNAP_VERSION1 (node_size - offsetof_snap_meta) of
           None \<Rightarrow> None
         | Some mx \<Rightarrow>
             (let m = zeroed\<lparr>snap_version := SNAP_VERSION1, max_snapshots := mx\<rparr>
              in map_option (\<lambda>r. (m, r)) (btree_snap_rw_metanode write_node_cb m)))
      else btree_snap_read_metanode read_node_cb zeroed)"

definition btree_snap_create_meta_v1 ::
  "btree_snap_meta \<Rightarrow> u64 \<Rightarrow> u64 \<Rightarrow> btree_status + btree_snap_meta" where
  "btree_snap_create_meta_v1 m seqno now =
     (if total_snapshots m \<ge> max_snapshots m then Inl BTREE_TOO_MANY_SNAPSHOTS
      else Inr (m\<lparr>snapshots := snapshots m @ [\<lparr>sn_seqno = seqno, sn_timestamp = now\<rparr>]\<rparr>))"

definition btree_snap_create_meta ::
  "(btree_snap_meta \<Rightarrow> btree_status) \<Rightarrow> btree_snap_meta \<Rightarrow> u64 \<Rightarrow> u64
    \<Rightarrow> (btree_snap_meta \<times> btree_status) option" where
  "btree_snap_create_meta write_node_cb m seqno now =
     (if snap_version m \<noteq> SNAP_VERSION1 then None
      else (case btree_snap_create_meta_v1 m seqno now of
              Inl ret \<Rightarrow> Some (m, ret)
            | Inr m' \<Rightarrow> map_option (\<lambda>r. (m', r)) (btree_snap_rw_metanode write_node_cb m')))"

text \<open>The binary search of \<open>btree_snap_find_meta_index_low\<close>.\<close>

function snap_bsearch :: "btree_snap_info list \<Rightarrow> u64 \<Rightarrow> int \<Rightarrow> int \<Rightarrow> int" where
  "snap_bsearch snaps seqno i_start i_end =
     (if i_end \<ge> i_start then
        (let i_check = (i_start + i_end) div 2 in
         if seqno \<le> sn_seqno (snaps ! nat i_check) then
           (if i_check = 0 \<or> seqno > sn_seqno (snaps ! nat (i_check - 1)) then i_check
            else snap_bsearch snaps seqno i_start (i_check - 1))
         else snap_bsearch snaps seqno (i_check + 1) i_end)
      else - 1)"
  by pat_completeness auto
termination
  by (relation "measure (\<lambda>(snaps, seqno, i_start, i_end). nat (i_end - i_start + 1))") auto

declare snap_bsearch.simps [simp del]

definition btree_snap_find_meta_index_low :: "btree_snap_meta \<Rightarrow> u64 \<Rightarrow> int option" where
  "btree_snap_find_meta_index_low m seqno =
     (if snap_version m \<noteq> SNAP_VERSION1 then None
      else if total_snapshots m = 0 \<or> seqno > sn_seqno (snapshots m ! (total_snapshots m - 1)) then Some (- 1)
      else Some (snap_bsearch (snapshots m) seqno 0 (int (total_snapshots m) - 1)))"

definition btree_snap_find_meta_index :: "btree_snap_meta \<Rightarrow> u64 \<Rightarrow> int option" where
  "btree_snap_find_meta_index m seqno = btree_snap_find_meta_index_low m seqno"

definition btree_snap_delete_meta_v1 ::
  "btree_snap_meta \<Rightarrow> u64 \<Rightarrow> (btree_status + btree_snap_meta) option" where
  "btree_snap_delete_meta_v1 m seqno =
     (case btree_snap_find_meta_index_low m seqno of
        None \<Rightarrow> None
      | Some index \<Rightarrow>
          if index = - 1 then Some (Inl BTREE_FAILURE)
          else if sn_seqno (snapshots m ! nat index) \<noteq> seqno then Some (Inl BTREE_FAILURE)
          else Some (Inr (m\<lparr>snapshots := take (nat index) (snapshots m) @ drop (Suc (nat index)) (snapshots m)\<rparr>)))"

definition btree_snap_delete_meta ::
  "(btree_snap_meta \<Rightarrow> btree_status) \<Rightarrow> btree_snap_meta \<Rightarrow> u64 \<Rightarrow> (btree_snap_meta \<times> btree_status) option" where
  "btree_snap_delete_meta write_node_cb m seqno =
     (if snap_version m \<noteq> SNAP_VERSION1 then None
      else (case btree_snap_delete_meta_v1 m seqno of
              None \<Rightarrow> None
            | Some (Inl ret) \<Rightarrow> Some (m, ret)
            | Some (Inr m') \<Rightarrow> map_option (\<lambda>r. (m', r)) (btree_snap_rw_metanode write_node_cb m')))"

definition btree_snap_seqno_in_snap :: "btree_snap_meta \<Rightarrow> u64 \<Rightarrow> bool option" where
  "btree_snap_seqno_in_snap m seqno =
     (if snap_version m \<noteq> SNAP_VERSION1 then None
      else Some (\<not> (total_snapshots m = 0 \<or> seqno > sn_seqno (snapshots m ! (total_snapshots m - 1)))))"

definition btree_snap_get_meta_list :: "btree_snap_meta \<Rightarrow> (nat \<times> (u64 \<times> u64) list) option" where
  "btree_snap_get_meta_list m =
     (if snap_version m \<noteq> SNAP_VERSION1 then None
      else Some (total_snapshots m, map (\<lambda>s. (sn_timestamp s, sn_seqno s)) (snapshots m)))"

section \<open>Searching the snapshots\<close>

abbreviation seqnos :: "btree_snap_meta \<Rightarrow> u64 list" where
  "seqnos m \<equiv> map sn_seqno (snapshots m)"

text \<open>The snapshot a version belongs to: the first one taken at or after it.\<close>

definition snap_of :: "btree_snap_info list \<Rightarrow> u64 \<Rightarrow> nat option" where
  "snap_of snaps seqno =
     (let i = length (takeWhile (\<lambda>s. sn_seqno s < seqno) snaps) in if i < length snaps then Some i else None)"

definition index_of :: "nat option \<Rightarrow> int" where
  "index_of r = (case r of None \<Rightarrow> - 1 | Some i \<Rightarrow> int i)"

lemma snap_of_Some:
  assumes "i < length snaps" and "seqno \<le> sn_seqno (snaps ! i)" and "\<And>j. j < i \<Longrightarrow> sn_seqno (snaps ! j) < seqno"
  shows "snap_of snaps seqno = Some i"
proof -
  have "takeWhile (\<lambda>s. sn_seqno s < seqno) snaps = take i snaps"
    using assms by (intro takeWhile_eq_take_P_nth) (auto simp: not_less)
  then show ?thesis using assms(1) by (simp add: snap_of_def Let_def)
qed

lemma snap_bsearch_correct:
  assumes "sorted_wrt (<) (map sn_seqno snaps)" and "0 \<le> lo" and "hi < int (length snaps)"
    and "\<And>j. int j < lo \<Longrightarrow> sn_seqno (snaps ! j) < seqno"
    and "i < length snaps" and "lo \<le> int i" and "int i \<le> hi"
    and "seqno \<le> sn_seqno (snaps ! i)" and "i = 0 \<or> sn_seqno (snaps ! (i - 1)) < seqno"
  shows "snap_bsearch snaps seqno lo hi = int i"
  using assms(2-4,6,7)
proof (induction "nat (hi - lo + 1)" arbitrary: lo hi rule: less_induct)
  case less
  have mono: "sn_seqno (snaps ! a) \<le> sn_seqno (snaps ! b)" if "a \<le> b" "b < length snaps" for a b
    using sorted_wrt_nth_less [OF assms(1), of a b] that by (cases "a = b") (auto simp: less_imp_le)
  define c where "c = nat ((lo + hi) div 2)"
  have "0 \<le> (lo + hi) div 2" using less.prems by simp
  then have ic: "(lo + hi) div 2 = int c" by (simp add: c_def)
  have c: "lo \<le> int c" "int c \<le> hi" using ic less.prems by linarith+
  then have cl: "c < length snaps" using less.prems(2) by linarith
  have unf: "snap_bsearch snaps seqno lo hi =
      (if seqno \<le> sn_seqno (snaps ! c) then
         (if int c = 0 \<or> seqno > sn_seqno (snaps ! nat (int c - 1)) then int c
          else snap_bsearch snaps seqno lo (int c - 1))
       else snap_bsearch snaps seqno (int c + 1) hi)"
    using less.prems by (subst snap_bsearch.simps) (simp add: ic Let_def)
  consider (found) "c = i" | (right) "c < i" | (left) "i < c" by linarith
  then show ?case
  proof cases
    case found
    then show ?thesis using unf assms(8,9) by (auto simp: nat_diff_distrib)
  next
    case right
    have lt: "sn_seqno (snaps ! c) < seqno"
      using mono [of c "i - 1"] right assms(5,9) by force
    moreover have "sn_seqno (snaps ! j) < seqno" if "int j < int c + 1" for j
      using mono [of j c] that cl lt by (auto intro: le_less_trans)
    ultimately have "snap_bsearch snaps seqno (int c + 1) hi = int i"
      using less.hyps [of hi "int c + 1"] less.prems c right by auto
    then show ?thesis using unf lt by (simp add: not_le [symmetric])
  next
    case left
    have nc: "nat (int c - 1) = c - 1" using left by linarith
    have "seqno \<le> sn_seqno (snaps ! (c - 1))" "seqno \<le> sn_seqno (snaps ! c)"
      using mono [of i "c - 1"] mono [of i c] left cl assms(8) by (auto intro: order.trans)
    then show ?thesis
      using unf less.hyps [of "int c - 1" lo] less.prems c left nc by (auto simp: not_less)
  qed
qed

lemma find_meta_index_snap_of:
  assumes "snap_version m = SNAP_VERSION1" and "sorted_wrt (<) (seqnos m)"
  shows "btree_snap_find_meta_index_low m seqno = Some (index_of (snap_of (snapshots m) seqno))"
proof -
  let ?l = "snapshots m" and ?n = "total_snapshots m"
  have mono: "sn_seqno (?l ! a) \<le> sn_seqno (?l ! b)" if "a \<le> b" "b < ?n" for a b
    using sorted_wrt_nth_less [OF assms(2), of a b] that by (cases "a = b") (auto simp: less_imp_le)
  show ?thesis
  proof (cases "?n = 0 \<or> seqno > sn_seqno (?l ! (?n - 1))")
    case True
    have "takeWhile (\<lambda>s. sn_seqno s < seqno) ?l = ?l"
      unfolding takeWhile_eq_all_conv
    proof
      fix x
      assume "x \<in> set ?l"
      then obtain j where "j < ?n" "x = ?l ! j" by (auto simp: in_set_conv_nth)
      moreover from this have "sn_seqno (?l ! j) \<le> sn_seqno (?l ! (?n - 1))" by (intro mono) simp_all
      ultimately show "sn_seqno x < seqno" using True by (auto intro: le_less_trans)
    qed
    then have "snap_of ?l seqno = None" by (simp only: snap_of_def Let_def) simp
    then show ?thesis using True assms(1) by (simp add: btree_snap_find_meta_index_low_def index_of_def)
  next
    case False
    define i where "i = length (takeWhile (\<lambda>s. sn_seqno s < seqno) ?l)"
    have "i \<noteq> ?n"
    proof
      assume "i = ?n"
      then have "takeWhile (\<lambda>s. sn_seqno s < seqno) ?l = ?l"
        by (metis i_def takeWhile_eq_take take_all order_refl)
      then have "sn_seqno (?l ! (?n - 1)) < seqno"
        using False by (metis (no_types, lifting) diff_less length_greater_0_conv length_0_conv nth_mem set_takeWhileD zero_less_one)
      then show False using False by auto
    qed
    moreover have "i \<le> ?n" by (simp add: i_def length_takeWhile_le)
    ultimately have i: "i < ?n" by simp
    have ge: "seqno \<le> sn_seqno (?l ! i)"
      using nth_length_takeWhile [of "\<lambda>s. sn_seqno s < seqno" ?l] i by (auto simp: i_def)
    have lt: "sn_seqno (?l ! j) < seqno" if "j < i" for j
      using that takeWhile_nth [of j "\<lambda>s. sn_seqno s < seqno" ?l] nth_mem [of j "takeWhile (\<lambda>s. sn_seqno s < seqno) ?l"]
      by (auto simp: i_def dest: set_takeWhileD)
    have "i = 0 \<or> sn_seqno (?l ! (i - 1)) < seqno" using lt [of "i - 1"] by (cases i) auto
    then have "snap_bsearch ?l seqno 0 (int ?n - 1) = int i"
      by (intro snap_bsearch_correct [OF assms(2)]) (use i ge lt in auto)
    then show ?thesis
      using False assms(1) i by (simp add: btree_snap_find_meta_index_low_def snap_of_Some [OF i ge lt] index_of_def)
  qed
qed

section \<open>Invariant\<close>

definition snap_inv :: "btree_snap_meta \<Rightarrow> bool" where
  "snap_inv m \<longleftrightarrow> snap_version m = SNAP_VERSION1 \<and> sorted_wrt (<) (seqnos m) \<and> total_snapshots m \<le> max_snapshots m"

text \<open>
  What happens to the metadata of a container: it is initialised, or read back in a state written
  earlier; snapshots are created with newly allocated sequence numbers, which are greater than all
  earlier ones, and snapshots are deleted, whether or not these operations and their writes succeed.
\<close>

inductive snap_reach :: "(btree_snap_meta \<Rightarrow> btree_status) \<Rightarrow> btree_snap_meta \<Rightarrow> bool"
  for write_node_cb :: "btree_snap_meta \<Rightarrow> btree_status" where
  init: "btree_snap_init write_node_cb rd node_size True = Some (m, r) \<Longrightarrow> snap_reach write_node_cb m"
| reload: "snap_reach write_node_cb stored \<Longrightarrow>
    btree_snap_init write_node_cb (Inr stored) node_size False = Some (m, r) \<Longrightarrow> snap_reach write_node_cb m"
| create: "snap_reach write_node_cb m \<Longrightarrow> \<forall>q\<in>set (seqnos m). q < seqno \<Longrightarrow>
    btree_snap_create_meta write_node_cb m seqno now = Some (m', r) \<Longrightarrow> snap_reach write_node_cb m'"
| delete: "snap_reach write_node_cb m \<Longrightarrow>
    btree_snap_delete_meta write_node_cb m seqno = Some (m', r) \<Longrightarrow> snap_reach write_node_cb m'"

inductive_cases snap_reachE: "snap_reach write_node_cb m"





section \<open>Properties\<close>

definition sample_snaps :: btree_snap_meta where
  "sample_snaps = \<lparr>snap_version = SNAP_VERSION1, max_snapshots = 502, sc_status = 0,
     snapshots = [\<lparr>sn_seqno = 10, sn_timestamp = 1\<rparr>, \<lparr>sn_seqno = 20, sn_timestamp = 2\<rparr>, \<lparr>sn_seqno = 35, sn_timestamp = 3\<rparr>]\<rparr>"

lemma sample_snaps_inv: "snap_inv sample_snaps"
  by (simp add: snap_inv_def sample_snaps_def)

lemma snap_of_SomeD:
  assumes "snap_of snaps seqno = Some i"
  shows "i < length snaps" and "seqno \<le> sn_seqno (snaps ! i)" and "\<And>j. j < i \<Longrightarrow> sn_seqno (snaps ! j) < seqno"
proof -
  have i: "i = length (takeWhile (\<lambda>s. sn_seqno s < seqno) snaps)" and l: "i < length snaps"
    using assms by (auto simp: snap_of_def Let_def split: if_splits)
  show "i < length snaps" by (rule l)
  show "seqno \<le> sn_seqno (snaps ! i)"
    using nth_length_takeWhile [of "\<lambda>s. sn_seqno s < seqno" snaps] l by (auto simp: i)
  show "sn_seqno (snaps ! j) < seqno" if "j < i" for j
    using that takeWhile_nth [of j "\<lambda>s. sn_seqno s < seqno" snaps]
      nth_mem [of j "takeWhile (\<lambda>s. sn_seqno s < seqno) snaps"] by (auto simp: i dest: set_takeWhileD)
qed

lemma snap_of_NoneD:
  assumes "snap_of snaps seqno = None" and "s \<in> set snaps"
  shows "sn_seqno s < seqno"
proof -
  have "\<not> length (takeWhile (\<lambda>s. sn_seqno s < seqno) snaps) < length snaps"
    using assms(1) by (simp add: snap_of_def Let_def split: if_splits)
  then have "takeWhile (\<lambda>s. sn_seqno s < seqno) snaps = snaps"
    by (metis length_takeWhile_le linorder_neqE_nat not_less takeWhile_eq_take take_all)
  then show ?thesis using assms(2) by (simp add: takeWhile_eq_all_conv)
qed

text \<open>C24: The search for the snapshot of a sequence number ends with the first snapshot taken at or
  after it.  It reports -1 exactly if all snapshots are older, which is when
  \<open>btree_snap_seqno_in_snap\<close> says that the sequence number is in no snapshot.\<close>

theorem snap_find_meta_index_correct:
  assumes "snap_inv m"
  shows "\<exists>r. btree_snap_find_meta_index m seqno = Some r \<and>
    btree_snap_seqno_in_snap m seqno = Some (r \<noteq> - 1) \<and>
    (r = - 1 \<longrightarrow> (\<forall>s\<in>set (snapshots m). sn_seqno s < seqno)) \<and>
    (r \<noteq> - 1 \<longrightarrow> (\<exists>i<total_snapshots m. r = int i \<and> seqno \<le> sn_seqno (snapshots m ! i) \<and>
       (\<forall>j<i. sn_seqno (snapshots m ! j) < seqno)))"
proof -
  have v: "snap_version m = SNAP_VERSION1" and s: "sorted_wrt (<) (seqnos m)"
    using assms by (simp_all add: snap_inv_def)
  note f = find_meta_index_snap_of [OF v s, of seqno]
  show ?thesis
  proof (cases "snap_of (snapshots m) seqno")
    case None
    have "total_snapshots m = 0 \<or> sn_seqno (snapshots m ! (total_snapshots m - 1)) < seqno"
      using snap_of_NoneD [OF None] by (cases "snapshots m = []") (auto simp flip: last_conv_nth)
    then show ?thesis
      using None f snap_of_NoneD [OF None] v
      by (auto simp: btree_snap_find_meta_index_def btree_snap_seqno_in_snap_def index_of_def)
  next
    case (Some i)
    note i = snap_of_SomeD [OF Some]
    have "sn_seqno (snapshots m ! i) \<le> sn_seqno (snapshots m ! (total_snapshots m - 1))"
      using sorted_wrt_nth_less [OF s, of i "total_snapshots m - 1"] i(1)
      by (cases "i = total_snapshots m - 1") (auto simp: less_imp_le)
    then have "btree_snap_seqno_in_snap m seqno = Some True"
      using i(1,2) v by (auto simp: btree_snap_seqno_in_snap_def)
    then show ?thesis
      using Some f i by (auto simp: btree_snap_find_meta_index_def index_of_def)
  qed
qed

theorem snap_find_meta_index_witness:
  "\<exists>r. btree_snap_find_meta_index sample_snaps 15 = Some r \<and> btree_snap_seqno_in_snap sample_snaps 15 = Some (r \<noteq> - 1)"
  using snap_find_meta_index_correct [OF sample_snaps_inv, of 15] by blast





end
