(* ===== verification/Btree_Overflow.thy ===== *)
theory Btree_Overflow
  imports Btree_Search Btree_Status
begin

text \<open>
  Big objects (\<open>src/btree/btree_raw.c\<close>): data that does not fit into a leaf is kept in a chain of
  overflow nodes, allocated when the object is written, read back node by node, and freed when the
  object is deleted or replaced.

  The state holds the node cache, what a read of each node from flash returns, the counter that
  gives new ids with its persisted copy, and the lists of the current operation: a deleted node is
  marked and queued, and leaves the cache and the flash only when the operation is flushed.  The
  variant that keeps overflow nodes in raw objects (\<open>bt_storm_mode\<close>) is excluded.  Not modelled:
  locks, reference counts and the eviction of nodes nobody refers to, statistics, rescue mode;
  memory allocation is assumed to succeed.
\<close>

unbundle bit_operations_syntax

section \<open>State\<close>

record overflow_node =
  ov_next :: u64
  ov_data :: mem

record mem_node =
  mn_node :: overflow_node
  cache_valid :: bool
  node_deleted :: bool
  node_dirty :: bool

record overflow_state =
  l1cache :: "u64 \<Rightarrow> mem_node option"
  flash :: "u64 \<Rightarrow> btree_status + overflow_node"
  logical_id_counter :: u64
  meta_counter :: "u64 option"
  n_partitions :: u64
  n_partition :: u64
  modified_nodes :: "u64 list"
  referenced_nodes :: "u64 list"
  deleted_nodes :: "u64 list"
  deleted_ovnodes_id :: "u64 list"
  max_per_thread_nodes :: nat
  max_per_thread_nodes_ref :: nat

definition BUFFER_PROVIDED :: u32 where "BUFFER_PROVIDED = 1"
definition ALLOC_IF_TOO_SMALL :: u32 where "ALLOC_IF_TOO_SMALL = 2"
definition INPLACE_POINTERS :: u32 where "INPLACE_POINTERS = push_bit 18 1"
definition META_COUNTER_LOGICAL_ID :: u64 where "META_COUNTER_LOGICAL_ID = 0x8000000000000002"
definition META_COUNTER_SAVE_INTERVAL :: u64 where "META_COUNTER_SAVE_INTERVAL = 100000"

section \<open>Nodes\<close>

definition ref_l1cache :: "overflow_state \<Rightarrow> u64 \<Rightarrow> overflow_state option" where
  "ref_l1cache st i = do {
     _ \<leftarrow> assert_opt (length (referenced_nodes st) < max_per_thread_nodes_ref st);
     Some (st\<lparr>referenced_nodes := referenced_nodes st @ [i]\<rparr>)
   }"

definition modify_l1cache_node :: "overflow_state \<Rightarrow> u64 \<Rightarrow> mem_node \<Rightarrow> overflow_state option" where
  "modify_l1cache_node st i m =
     (if node_dirty m then Some st
      else do {
        _ \<leftarrow> assert_opt (length (modified_nodes st) < max_per_thread_nodes st);
        Some (st\<lparr>l1cache := (l1cache st)(i \<mapsto> m\<lparr>node_dirty := True\<rparr>),
                 modified_nodes := modified_nodes st @ [i]\<rparr>)
      })"

text \<open>\<open>get_existing_node_low\<close>: a valid cached node is returned without a read; meeting a node that is
  marked deleted fails an assertion.  A failed read removes the node from the cache.\<close>

definition get_existing_overflow_node ::
  "overflow_state \<Rightarrow> u64 \<Rightarrow> bool \<Rightarrow> (overflow_state \<times> (btree_status + overflow_node)) option" where
  "get_existing_overflow_node st i node_ref =
     (let hit = (case l1cache st i of None \<Rightarrow> False | Some m \<Rightarrow> cache_valid m);
          deleted = (case l1cache st i of None \<Rightarrow> False | Some m \<Rightarrow> node_deleted m);
          dirty = (case l1cache st i of None \<Rightarrow> False | Some m \<Rightarrow> node_dirty m);
          found = (\<lambda>st n. do {
                     st' \<leftarrow> (if node_ref then ref_l1cache st i else Some st);
                     Some (st', Inr n) })
      in if deleted then None
         else if hit then found st (mn_node (the (l1cache st i)))
         else (case flash st i of
                 Inl ret \<Rightarrow> Some (st\<lparr>l1cache := (l1cache st)(i := None)\<rparr>, Inl ret)
               | Inr n \<Rightarrow> found (st\<lparr>l1cache := (l1cache st)(i \<mapsto>
                   \<lparr>mn_node = n, cache_valid = True, node_deleted = False, node_dirty = dirty\<rparr>)\<rparr>) n))"

text \<open>\<open>savepersistent\<close> with \<open>FLUSH_COUNTER_INTERVAL\<close> and no flush now: it aborts if the counter node
  cannot be read, and succeeds otherwise; the counter node is referenced by the operation.\<close>

definition savepersistent_counter :: "overflow_state \<Rightarrow> overflow_state option" where
  "savepersistent_counter st = do {
     saved \<leftarrow> meta_counter st;
     st1 \<leftarrow> ref_l1cache st META_COUNTER_LOGICAL_ID;
     Some (if logical_id_counter st - saved \<ge> META_COUNTER_SAVE_INTERVAL
           then st1\<lparr>meta_counter := Some (logical_id_counter st)\<rparr> else st1)
   }"

text \<open>\<open>get_new_node\<close> for an overflow node; \<open>create_new_node\<close> asserts that the id is not cached.\<close>

definition get_new_overflow_node :: "overflow_state \<Rightarrow> (overflow_state \<times> u64) option" where
  "get_new_overflow_node st =
     (let i = logical_id_counter st * n_partitions st + n_partition st;
          m = \<lparr>mn_node = \<lparr>ov_next = 0, ov_data = []\<rparr>, cache_valid = True, node_deleted = False, node_dirty = False\<rparr>
      in do {
        st1 \<leftarrow> savepersistent_counter (st\<lparr>logical_id_counter := logical_id_counter st + 1\<rparr>);
        _ \<leftarrow> assert_opt (l1cache st1 i = None);
        st2 \<leftarrow> ref_l1cache (st1\<lparr>l1cache := (l1cache st1)(i \<mapsto> m)\<rparr>) i;
        st3 \<leftarrow> modify_l1cache_node st2 i m;
        Some (st3, i)
      })"

definition free_node :: "overflow_state \<Rightarrow> u64 \<Rightarrow> overflow_state option" where
  "free_node st i = do {
     _ \<leftarrow> assert_opt (length (deleted_nodes st) < max_per_thread_nodes st);
     m \<leftarrow> l1cache st i;
     Some (st\<lparr>deleted_nodes := deleted_nodes st @ [i],
              l1cache := (l1cache st)(i \<mapsto> m\<lparr>node_deleted := True\<rparr>)\<rparr>)
   }"

section \<open>Allocation\<close>

definition update_cached :: "overflow_state \<Rightarrow> u64 \<Rightarrow> (overflow_node \<Rightarrow> overflow_node) \<Rightarrow> overflow_state" where
  "update_cached st i f =
     st\<lparr>l1cache := (l1cache st)(i := map_option (mn_node_update f) (l1cache st i))\<rparr>"

text \<open>The loop of \<open>allocate_overflow_data\<close>: node \<open>n\<close> is new, \<open>data\<close> is what is left to write.\<close>

function allocate_loop ::
  "nat \<Rightarrow> overflow_state \<Rightarrow> mem \<Rightarrow> u64 option \<Rightarrow> u64 \<Rightarrow> overflow_state option" where
  "allocate_loop ovdatasize st data n_last n =
     (let st1 = (case n_last of None \<Rightarrow> st | Some l \<Rightarrow> update_cached st l (ov_next_update (\<lambda>_. n)));
          b = (if length data < ovdatasize then length data else ovdatasize);
          st2 = update_cached st1 n (ov_data_update (\<lambda>_. take b data))
      in if b = 0 then None
         else if drop b data = [] then Some st2
         else do {
           (st3, n') \<leftarrow> get_new_overflow_node st2;
           allocate_loop ovdatasize st3 (drop b data) (Some n) n'
         })"
  by pat_completeness auto
termination
  by (relation "measure (\<lambda>(ovdatasize, st, data, n_last, n). length data)") (auto split: if_splits)

declare allocate_loop.simps [simp del]

text \<open>The id of the first node, or 0 for no data.  Nodes of size 0 are a division by zero.  Outside
  storm mode no call of \<open>get_new_node\<close> reports a failure, so the undo branch is not taken.\<close>

definition allocate_overflow_data ::
  "btree_raw \<Rightarrow> overflow_state \<Rightarrow> mem \<Rightarrow> (overflow_state \<times> u64) option" where
  "allocate_overflow_data bt st data =
     (let ovdatasize = unat (get_data_in_overflownode bt) in
      if data = [] then Some (st, 0)
      else do {
        _ \<leftarrow> assert_opt (ovdatasize \<noteq> 0 \<and> \<not> bt_storm_mode bt);
        (st1, n) \<leftarrow> get_new_overflow_node st;
        st2 \<leftarrow> allocate_loop ovdatasize st1 data None n;
        Some (st2, n)
      })"

section \<open>Deletion\<close>

definition live :: "overflow_state \<Rightarrow> u64 \<Rightarrow> bool" where
  "live st i = (case l1cache st i of None \<Rightarrow> True | Some m \<Rightarrow> \<not> node_deleted m)"

lemma free_existing_decreases:
  assumes g: "get_existing_overflow_node st ptr r = Some (st1, Inr n)" and f: "free_node st1 ptr = Some st2"
  shows "card {i. live st2 i} < card {i. live st i}"
proof -
  have l: "live st ptr" and s: "\<And>i. live st1 i \<Longrightarrow> live st i"
    using g by (auto simp: get_existing_overflow_node_def live_def Let_def ref_l1cache_def assert_opt_def
        split: option.splits if_splits sum.splits bind_splits)
  have "{i. live st2 i} \<subseteq> {i. live st i} - {ptr}"
    using f s by (auto simp: free_node_def live_def assert_opt_def split: bind_splits if_splits)
  then have "{i. live st2 i} \<subset> {i. live st i}"
    using l by blast
  then show ?thesis
    by (intro psubset_card_mono) (simp_all add: finite_subset [OF subset_UNIV])
qed

text \<open>The loop of \<open>delete_overflow_data\<close>; each turn marks one more node deleted.\<close>

function delete_loop :: "overflow_state \<Rightarrow> u64 \<Rightarrow> (overflow_state \<times> btree_status) option" where
  "delete_loop st ptr =
     (if ptr = 0 then Some (st, BTREE_SUCCESS)
      else (case get_existing_overflow_node st ptr True of
              None \<Rightarrow> None
            | Some (st1, Inl ret) \<Rightarrow> Some (st1, ret)
            | Some (st1, Inr n) \<Rightarrow>
                (case free_node st1 ptr of
                   None \<Rightarrow> None
                 | Some st2 \<Rightarrow> delete_loop st2 (ov_next n))))"
  by pat_completeness auto
termination
  by (relation "measure (\<lambda>(st, ptr). card {i. live st i})") (auto intro: free_existing_decreases)

declare delete_loop.simps [simp del]

text \<open>An object of one node is not read: if its node is cached it is freed, otherwise its id is queued
  (without a check that the array of \<open>max_per_thread_nodes\<close> ids has room).\<close>

definition delete_overflow_data ::
  "btree_raw \<Rightarrow> overflow_state \<Rightarrow> u64 \<Rightarrow> u64 \<Rightarrow> (overflow_state \<times> btree_status) option" where
  "delete_overflow_data bt st ptr_in datalen =
     (if datalen \<le> get_data_in_overflownode bt then
        (case l1cache st ptr_in of
           None \<Rightarrow> do {
             _ \<leftarrow> assert_opt (length (deleted_ovnodes_id st) < max_per_thread_nodes st);
             Some (st\<lparr>deleted_ovnodes_id := deleted_ovnodes_id st @ [ptr_in]\<rparr>, BTREE_SUCCESS)
           }
         | Some m \<Rightarrow> do {
             _ \<leftarrow> assert_opt (\<not> node_deleted m);
             st1 \<leftarrow> ref_l1cache st ptr_in;
             st2 \<leftarrow> free_node st1 ptr_in;
             Some (st2, BTREE_SUCCESS)
           })
      else delete_loop st ptr_in)"

section \<open>Reading\<close>

text \<open>
  The loop that copies the overflow nodes from \<open>z_next\<close> on: what was read, the number of bytes still
  missing, the next id, and the status left by the last read.  Nodes of size 0 would be an endless loop.
\<close>

function read_loop ::
  "nat \<Rightarrow> bool \<Rightarrow> overflow_state \<Rightarrow> nat \<Rightarrow> u64 \<Rightarrow> btree_status
    \<Rightarrow> (overflow_state \<times> mem \<times> nat \<times> u64 \<times> btree_status) option" where
  "read_loop ovdatasize ref st nbytes z_next ret =
     (if nbytes > 0 \<and> z_next \<noteq> 0 then
        (case get_existing_overflow_node st z_next ref of
           None \<Rightarrow> None
         | Some (st1, Inl ret') \<Rightarrow> Some (st1, [], nbytes, z_next, ret')
         | Some (st1, Inr z) \<Rightarrow>
             (let copybytes = (if nbytes \<ge> ovdatasize then ovdatasize else nbytes) in
              if copybytes = 0 then None
              else do {
                p \<leftarrow> mem_read (ov_data z) 0 copybytes;
                (st2, rest, left, z', ret') \<leftarrow>
                  read_loop ovdatasize ref st1 (nbytes - copybytes) (ov_next z) BTREE_SUCCESS;
                Some (st2, p @ rest, left, z', ret')
              }))
      else Some (st, [], nbytes, z_next, ret))"
  by pat_completeness auto
termination
  by (relation "measure (\<lambda>(ovdatasize, ref, st, nbytes, z_next, ret). nbytes)") (auto split: if_splits)

declare read_loop.simps [simp del]

text \<open>The part of a big object in the leaf, then its overflow nodes: the same lines in
  \<open>get_leaf_data_index\<close> and \<open>get_leaf_data_nth_key\<close>.\<close>

definition read_big_object ::
  "btree_raw \<Rightarrow> overflow_state \<Rightarrow> leaf_node \<Rightarrow> nat \<Rightarrow> key_info \<Rightarrow> bool \<Rightarrow> btree_status
    \<Rightarrow> (overflow_state \<times> mem \<times> nat \<times> u64 \<times> btree_status) option" where
  "read_big_object bt st n index ki ref ret = do {
     tmp_rem \<leftarrow> btree_get_bigobj_inleaf bt (ki_keylen ki) (ki_datalen ki);
     p \<leftarrow> (if tmp_rem \<noteq> 0 then do {
            (datap, _) \<leftarrow> btree_leaf_get_data_nth_key n index;
            mem_read datap 0 (unat tmp_rem)
          }
          else Some []);
     (st1, rest, left, z_next, ret') \<leftarrow>
       read_loop (unat (get_data_in_overflownode bt)) ref st (unat (ki_datalen ki - tmp_rem)) (ki_ptr ki) ret;
     Some (st1, p @ rest, left, z_next, ret')
   }"

text \<open>
  \<open>get_leaf_data_nth_key\<close>: status, data (\<^term>\<open>None\<close> is the null pointer) and length.  The function clears
  the caller's length and pointer before it looks at them, so a provided buffer always counts as a
  null pointer of length 0.
\<close>

definition get_leaf_data_nth_key ::
  "btree_raw \<Rightarrow> overflow_state \<Rightarrow> leaf_node \<Rightarrow> nat \<Rightarrow> u32 \<Rightarrow> bool
    \<Rightarrow> (overflow_state \<times> btree_status \<times> mem option \<times> u64) option" where
  "get_leaf_data_nth_key bt st n index meta_flags ref = do {
     ki \<leftarrow> btree_leaf_get_nth_key_info n index;
     let provided = (meta_flags AND BUFFER_PROVIDED \<noteq> 0);
     let too_small = (provided \<and> 0 < ki_datalen ki);
     let ret = (if too_small then BTREE_BUFFER_TOO_SMALL else BTREE_SUCCESS);
     let buf = (\<lambda>d. if provided \<and> \<not> too_small then None else Some d);
     if too_small \<and> meta_flags AND ALLOC_IF_TOO_SMALL = 0 then Some (st, BTREE_BUFFER_TOO_SMALL, None, 0)
     else if \<not> big_object_kd bt (ki_keylen ki) (ki_datalen ki) then do {
       (datap, datalen1) \<leftarrow> btree_leaf_get_data_nth_key n index;
       _ \<leftarrow> assert_opt (ki_datalen ki = datalen1);
       d \<leftarrow> mem_read datap 0 (unat datalen1);
       Some (st, ret, buf d, ki_datalen ki)
     }
     else if ki_datalen ki > 0 then do {
       (st1, d, left, z_next, ret') \<leftarrow> read_big_object bt st n index ki ref ret;
       if left \<noteq> 0 then Some (st1, if storage_error ret' then ret' else BTREE_FAILURE, None, 0)
       else do {
         _ \<leftarrow> assert_opt (z_next = 0);
         Some (st1, ret', buf d, ki_datalen ki)
       }
     }
     else Some (st, ret, buf [], ki_datalen ki)
   }"

text \<open>\<open>get_leaf_data_index\<close> without \<open>deref_delete_cache\<close>; \<open>buflen\<close> is the length of the caller's buffer.
  A buffer that the function has freed, or not touched, is \<^term>\<open>None\<close>.\<close>

definition get_leaf_data_index ::
  "btree_raw \<Rightarrow> overflow_state \<Rightarrow> leaf_node \<Rightarrow> nat \<Rightarrow> u64 \<Rightarrow> u32 \<Rightarrow> bool
    \<Rightarrow> (overflow_state \<times> btree_status \<times> mem option \<times> u64) option" where
  "get_leaf_data_index bt st n index buflen meta_flags ref = do {
     ki \<leftarrow> btree_leaf_get_nth_key_info2 n index;
     let big = big_object_kd bt (ki_keylen ki) (ki_datalen ki);
     let inplace = (meta_flags AND INPLACE_POINTERS \<noteq> 0);
     let len = (if inplace then (if big then 0 else ki_datalen ki) else buflen);
     let own = (meta_flags AND (BUFFER_PROVIDED OR INPLACE_POINTERS) \<noteq> 0);
     let too_small = (own \<and> len < ki_datalen ki);
     let ret = (if too_small then BTREE_BUFFER_TOO_SMALL else BTREE_SUCCESS);
     let buf_alloced = (\<not> own \<or> too_small);
     if too_small \<and> meta_flags AND ALLOC_IF_TOO_SMALL = 0 then Some (st, BTREE_BUFFER_TOO_SMALL, None, len)
     else if big then
       (if ki_datalen ki > 0 then do {
          (st1, d, left, z_next, ret2) \<leftarrow> read_big_object bt st n index ki ref BTREE_SUCCESS;
          if left \<noteq> 0 then Some (st1, ret2, if buf_alloced then None else Some d, ki_datalen ki)
          else do {
            _ \<leftarrow> assert_opt (z_next = 0);
            Some (st1, ret, Some d, ki_datalen ki)
          }
        }
        else Some (st, ret, Some [], ki_datalen ki))
     else do {
       _ \<leftarrow> assert_opt (\<not> inplace);
       (datap, datalen1) \<leftarrow> btree_leaf_get_data_nth_key n index;
       _ \<leftarrow> assert_opt (ki_datalen ki = datalen1);
       d \<leftarrow> mem_read datap 0 (unat datalen1);
       Some (st, ret, Some d, ki_datalen ki)
     }
   }"

definition get_leaf_data ::
  "btree_raw \<Rightarrow> overflow_state \<Rightarrow> leaf_node \<Rightarrow> mem \<Rightarrow> btree_metadata \<Rightarrow> bool
    \<Rightarrow> (overflow_state \<times> btree_status \<times> mem option \<times> u64) option" where
  "get_leaf_data bt st n key meta ref = do {
     (res, index) \<leftarrow> btree_leaf_find_key bt n key (Some meta);
     if \<not> res then Some (st, BTREE_KEY_NOT_FOUND, None, 0)
     else get_leaf_data_nth_key bt st n (nat index) (md_flags meta) ref
   }"

section \<open>Writing and deleting the objects of a leaf\<close>

text \<open>The status pointer of the callers is \<open>BTREE_SUCCESS\<close> on entry.  The overflow nodes of the entry at
  \<open>index\<close>, if it has any, are deleted.\<close>

definition delete_old_overflow ::
  "btree_raw \<Rightarrow> overflow_state \<Rightarrow> key_info \<Rightarrow> (overflow_state \<times> btree_status) option" where
  "delete_old_overflow bt st ki =
     (if big_object_kd bt (ki_keylen ki) (ki_datalen ki) then do {
        datalen \<leftarrow> btree_get_bigobj_inleaf bt (ki_keylen ki) (ki_datalen ki);
        delete_overflow_data bt st (ki_ptr ki) (ki_datalen ki - datalen)
      }
      else Some (st, BTREE_SUCCESS))"

definition btree_leaf_insert_low ::
  "btree_raw \<Rightarrow> overflow_state \<Rightarrow> leaf_node \<Rightarrow> mem \<Rightarrow> mem \<Rightarrow> u64 \<Rightarrow> btree_metadata \<Rightarrow> nat \<Rightarrow> bool
    \<Rightarrow> (overflow_state \<times> leaf_node \<times> btree_status) option" where
  "btree_leaf_insert_low bt st n key data seqno meta index key_exists =
     (let keylen = (word_of_nat (length key) :: u32); datalen = (word_of_nat (length data) :: u64) in
      do {
        (st1, ret) \<leftarrow>
          (if key_exists then do {
             ki \<leftarrow> btree_leaf_get_nth_key_info2 n index;
             delete_old_overflow bt st ki
           }
           else Some (st, BTREE_SUCCESS));
        if ret \<noteq> BTREE_SUCCESS then Some (st1, n, ret)
        else do {
          (st2, ptr) \<leftarrow>
            (if big_object_kd bt keylen datalen then do {
               _ \<leftarrow> assert_opt (datalen > 0);
               rem_datalen \<leftarrow> btree_get_bigobj_inleaf bt keylen datalen;
               (st2, ptr) \<leftarrow> allocate_overflow_data bt st1 (drop (unat rem_datalen) data);
               _ \<leftarrow> assert_opt (ptr \<noteq> 0);
               Some (st2, ptr)
             }
             else Some (st1, 0));
          (n', _, _) \<leftarrow> btree_leaf_update_key bt n key data datalen seqno ptr meta index key_exists;
          Some (st2, n', BTREE_SUCCESS)
        }
      })"

definition delete_key_by_index_leaf ::
  "btree_raw \<Rightarrow> overflow_state \<Rightarrow> leaf_node \<Rightarrow> nat \<Rightarrow> (overflow_state \<times> leaf_node \<times> btree_status) option" where
  "delete_key_by_index_leaf bt st n index = do {
     ki \<leftarrow> btree_leaf_get_nth_key_info n index;
     (st1, ret) \<leftarrow> delete_old_overflow bt st ki;
     if ret \<noteq> BTREE_SUCCESS then Some (st1, n, ret)
     else do {
       (n', _) \<leftarrow> btree_leaf_remove_key_index bt n index;
       Some (st1, n', BTREE_SUCCESS)
     }
   }"

end
