(* ===== verification/Btree_Overflow_Correct.thy ===== *)
theory Btree_Overflow_Correct
  imports Btree_Overflow
begin

text \<open>
  The overflow nodes as a client sees them, and what reading, allocating and deleting a chain of them
  does to that view.
\<close>

section \<open>The view of the nodes\<close>

definition ov_view :: "overflow_state \<Rightarrow> u64 \<Rightarrow> overflow_node option" where
  "ov_view st i =
     (let fl = (case flash st i of Inl _ \<Rightarrow> None | Inr n \<Rightarrow> Some n) in
      case l1cache st i of
        None \<Rightarrow> fl
      | Some m \<Rightarrow> if node_deleted m then None else if cache_valid m then Some (mn_node m) else fl)"

text \<open>The nodes \<open>ids\<close>, from \<open>p\<close> on, hold exactly the bytes \<open>bs\<close>.\<close>

fun ov_chain :: "nat \<Rightarrow> (u64 \<Rightarrow> overflow_node option) \<Rightarrow> u64 \<Rightarrow> u64 list \<Rightarrow> mem \<Rightarrow> bool" where
  "ov_chain ov v p [] bs = (p = 0 \<and> bs = [])"
| "ov_chain ov v p (i # ids) bs =
     (p = i \<and> i \<noteq> 0 \<and> bs \<noteq> [] \<and>
      (case v i of
         None \<Rightarrow> False
       | Some n \<Rightarrow> take (min ov (length bs)) (ov_data n) = take ov bs \<and> ov_chain ov v (ov_next n) ids (drop ov bs)))"

lemma ov_chain_cong:
  "(\<And>i. i \<in> set ids \<Longrightarrow> v i = w i) \<Longrightarrow> ov_chain ov v p ids bs = ov_chain ov w p ids bs"
  by (induction ids arbitrary: p bs) (auto split: option.splits)

lemma get_existing_view:
  assumes "ov_view st i = Some n" and "r \<longrightarrow> length (referenced_nodes st) < max_per_thread_nodes_ref st"
  shows "\<exists>st'. get_existing_overflow_node st i r = Some (st', Inr n) \<and> ov_view st' = ov_view st \<and>
     referenced_nodes st' = referenced_nodes st @ (if r then [i] else []) \<and>
     deleted_ovnodes_id st' = deleted_ovnodes_id st \<and>
     deleted_nodes st' = deleted_nodes st \<and> max_per_thread_nodes st' = max_per_thread_nodes st \<and>
     max_per_thread_nodes_ref st' = max_per_thread_nodes_ref st \<and>
     (\<exists>m. l1cache st' i = Some m \<and> mn_node m = n \<and> cache_valid m \<and> \<not> node_deleted m)"
  using assms
  by (auto simp: ov_view_def get_existing_overflow_node_def Let_def ref_l1cache_def assert_opt_def fun_eq_iff
      split: option.splits if_splits sum.splits)

lemma read_loop_chain:
  assumes "ov_chain ov (ov_view st) p ids bs" and "0 < ov"
    and "r \<longrightarrow> length (referenced_nodes st) + length ids \<le> max_per_thread_nodes_ref st"
  shows "\<exists>st'. read_loop ov r st (length bs) p ret
           = Some (st', bs, 0, 0, if ids = [] then ret else BTREE_SUCCESS) \<and> ov_view st' = ov_view st"
  using assms
proof (induction ids arbitrary: st p bs ret)
  case Nil
  then show ?case by (simp add: read_loop.simps)
next
  case (Cons i ids)
  obtain n where n: "ov_view st i = Some n" "take (min ov (length bs)) (ov_data n) = take ov bs"
    and c: "ov_chain ov (ov_view st) (ov_next n) ids (drop ov bs)" and p: "p = i" "i \<noteq> 0" "bs \<noteq> []"
    using Cons.prems(1) by (auto split: option.splits)
  obtain st1 where g: "get_existing_overflow_node st i r = Some (st1, Inr n)" "ov_view st1 = ov_view st"
    "referenced_nodes st1 = referenced_nodes st @ (if r then [i] else [])"
    "max_per_thread_nodes_ref st1 = max_per_thread_nodes_ref st"
    using get_existing_view [OF n(1), of r] Cons.prems(3) by auto
  obtain st2 where r: "read_loop ov r st1 (length (drop ov bs)) (ov_next n) BTREE_SUCCESS
      = Some (st2, drop ov bs, 0, 0, BTREE_SUCCESS)" "ov_view st2 = ov_view st"
    using Cons.IH [of st1 "ov_next n" "drop ov bs" BTREE_SUCCESS] c g Cons.prems(2,3) by auto
  have l: "min ov (length bs) \<le> length (ov_data n)"
    using arg_cong [OF n(2), of length] by simp
  have m: "mem_read (ov_data n) 0 (min ov (length bs)) = Some (take ov bs)"
    using l n(2) by (simp add: mem_read_def)
  have b: "(if ov \<le> length bs then ov else length bs) = min ov (length bs)" by simp
  have d: "length bs - min ov (length bs) = length (drop ov bs)" by simp
  have z: "min ov (length bs) \<noteq> 0" using p(3) Cons.prems(2) by simp
  show ?case
    unfolding read_loop.simps [of ov r st] Let_def b
    using p g(1) m r z by (simp add: d del: length_drop)
qed

section \<open>Deletion\<close>

lemma ov_chain_ids_unique:
  "ov_chain ov v p ids bs \<Longrightarrow> ov_chain ov v p ids' bs' \<Longrightarrow> ids = ids'"
proof (induction ids arbitrary: p bs ids' bs')
  case Nil
  then show ?case by (cases ids') auto
next
  case (Cons i ids)
  then show ?case by (cases ids') (auto split: option.splits)
qed

lemma ov_chain_suffix:
  "ov_chain ov v p (xs @ i # ys) bs \<Longrightarrow> \<exists>bs'. ov_chain ov v i (i # ys) bs'"
  by (induction xs arbitrary: p bs) (auto split: option.splits)

lemma ov_chain_distinct: "ov_chain ov v p ids bs \<Longrightarrow> distinct ids"
proof (induction ids arbitrary: p bs)
  case (Cons i ids)
  have "i \<notin> set ids"
  proof
    assume "i \<in> set ids"
    then obtain xs ys where e: "ids = xs @ i # ys"
      by (meson split_list)
    have c: "ov_chain ov v i (i # ids) bs"
      using Cons.prems by simp
    obtain bs' where "ov_chain ov v i (i # ys) bs'"
      using ov_chain_suffix [of ov v i "i # xs" i ys bs] c e by auto
    then have "i # ids = i # ys"
      using ov_chain_ids_unique c by blast
    then show False using e by simp
  qed
  then show ?case
    using Cons by (auto split: option.splits)
qed simp

definition delete_room :: "overflow_state \<Rightarrow> nat \<Rightarrow> bool" where
  "delete_room st k =
     (length (referenced_nodes st) + k \<le> max_per_thread_nodes_ref st \<and>
      length (deleted_nodes st) + k \<le> max_per_thread_nodes st)"

lemma free_node_view:
  assumes "l1cache st i = Some m" and "length (deleted_nodes st) < max_per_thread_nodes st"
  shows "\<exists>st'. free_node st i = Some st' \<and> ov_view st' = (ov_view st)(i := None) \<and>
     deleted_ovnodes_id st' = deleted_ovnodes_id st \<and> deleted_nodes st' = deleted_nodes st @ [i] \<and> referenced_nodes st' = referenced_nodes st \<and>
     max_per_thread_nodes st' = max_per_thread_nodes st \<and>
     max_per_thread_nodes_ref st' = max_per_thread_nodes_ref st"
  using assms by (auto simp: free_node_def assert_opt_def ov_view_def fun_eq_iff)

lemma delete_loop_chain:
  assumes "ov_chain ov (ov_view st) p ids bs" and "delete_room st (length ids)"
  shows "\<exists>st'. delete_loop st p = Some (st', BTREE_SUCCESS) \<and> deleted_nodes st' = deleted_nodes st @ ids \<and>
     deleted_ovnodes_id st' = deleted_ovnodes_id st \<and> ov_view st' = (\<lambda>i. if i \<in> set ids then None else ov_view st i)"
  using assms
proof (induction ids arbitrary: st p bs)
  case Nil
  then show ?case by (simp add: delete_loop.simps)
next
  case (Cons i ids)
  obtain n where n: "ov_view st i = Some n" and c: "ov_chain ov (ov_view st) (ov_next n) ids (drop ov bs)"
    and p: "p = i" "i \<noteq> 0"
    using Cons.prems(1) by (auto split: option.splits)
  have d: "i \<notin> set ids"
    using ov_chain_distinct [OF Cons.prems(1)] by simp
  obtain st1 m where g: "get_existing_overflow_node st i True = Some (st1, Inr n)" "ov_view st1 = ov_view st"
    "referenced_nodes st1 = referenced_nodes st @ [i]" "deleted_nodes st1 = deleted_nodes st"
    "max_per_thread_nodes st1 = max_per_thread_nodes st"
    "max_per_thread_nodes_ref st1 = max_per_thread_nodes_ref st" "l1cache st1 i = Some m"
    "deleted_ovnodes_id st1 = deleted_ovnodes_id st"
    using get_existing_view [OF n, of True] Cons.prems(2) by (auto simp: delete_room_def)
  obtain st2 where f: "free_node st1 i = Some st2" "ov_view st2 = (ov_view st)(i := None)"
    "deleted_nodes st2 = deleted_nodes st @ [i]" "referenced_nodes st2 = referenced_nodes st @ [i]"
    "max_per_thread_nodes st2 = max_per_thread_nodes st"
    "max_per_thread_nodes_ref st2 = max_per_thread_nodes_ref st"
    "deleted_ovnodes_id st2 = deleted_ovnodes_id st"
    using free_node_view [OF g(7)] g Cons.prems(2) by (auto simp: delete_room_def)
  have c2: "ov_chain ov (ov_view st2) (ov_next n) ids (drop ov bs)"
    by (rule iffD1 [OF ov_chain_cong c]) (use d f(2) in auto)
  have r2: "delete_room st2 (length ids)"
    using Cons.prems(2) f by (simp add: delete_room_def)
  obtain st' where "delete_loop st2 (ov_next n) = Some (st', BTREE_SUCCESS)"
    "deleted_nodes st' = deleted_nodes st2 @ ids" "deleted_ovnodes_id st' = deleted_ovnodes_id st2"
    "ov_view st' = (\<lambda>i. if i \<in> set ids then None else ov_view st2 i)"
    using Cons.IH [OF c2 r2] by blast
  then show ?case
    using p g(1) f by (auto simp: delete_loop.simps [of st] fun_eq_iff)
qed

section \<open>Allocation\<close>

definition new_id :: "overflow_state \<Rightarrow> nat \<Rightarrow> u64" where
  "new_id st j = (logical_id_counter st + word_of_nat j) * n_partitions st + n_partition st"

text \<open>The next \<open>k\<close> ids are usable: distinct, not 0 and not cached; the lists have room for them (each
  allocation references the counter node too), and the counter node can be read.\<close>

definition alloc_ready :: "overflow_state \<Rightarrow> nat \<Rightarrow> bool" where
  "alloc_ready st k =
     (distinct (map (new_id st) [0..<k]) \<and> (\<forall>j < k. new_id st j \<noteq> 0 \<and> l1cache st (new_id st j) = None) \<and>
      length (referenced_nodes st) + 2 * k \<le> max_per_thread_nodes_ref st \<and>
      length (modified_nodes st) + k \<le> max_per_thread_nodes st \<and> meta_counter st \<noteq> None)"

definition cached :: "overflow_state \<Rightarrow> u64 \<Rightarrow> bool" where
  "cached st i = (case l1cache st i of None \<Rightarrow> False | Some m \<Rightarrow> cache_valid m \<and> \<not> node_deleted m)"

definition n_nodes :: "nat \<Rightarrow> nat \<Rightarrow> nat" where
  "n_nodes ov len = (len + ov - 1) div ov"

lemma n_nodes_step: "0 < ov \<Longrightarrow> 0 < len \<Longrightarrow> n_nodes ov len = Suc (n_nodes ov (len - ov))"
proof (cases "ov \<le> len")
  case True
  assume ov: "0 < ov"
  then have "len + ov - 1 = (len - ov + ov - 1) + ov"
    using True by simp
  then show ?thesis
    unfolding n_nodes_def using ov by (metis Suc_eq_plus1 div_add_self2 less_numeral_extra(3))
next
  case False
  assume "0 < ov" "0 < len"
  then have "(len + ov - 1) div ov = 1"
    using False by (intro div_nat_eqI) simp_all
  then show ?thesis
    using False \<open>0 < ov\<close> by (simp add: n_nodes_def)
qed

lemma upt_map_Suc: "map f [0..<Suc k] = f 0 # map (\<lambda>j. f (Suc j)) [0..<k]"
  by (simp add: upt_conv_Cons map_Suc_upt [symmetric] del: upt_Suc)

lemma get_new_node_view:
  assumes "alloc_ready st (Suc k)"
  shows "\<exists>st'. get_new_overflow_node st = Some (st', new_id st 0) \<and> alloc_ready st' k \<and>
     (\<forall>j. new_id st' j = new_id st (Suc j)) \<and> cached st' (new_id st 0) \<and>
     ov_view st' = (ov_view st)(new_id st 0 \<mapsto> \<lparr>ov_next = 0, ov_data = []\<rparr>) \<and>
     (\<forall>i. i \<noteq> new_id st 0 \<longrightarrow> cached st' i = cached st i)"
proof -
  define i where "i = new_id st 0"
  define m where "m = \<lparr>mn_node = \<lparr>ov_next = 0, ov_data = []\<rparr>, cache_valid = True, node_deleted = False, node_dirty = True\<rparr>"
  obtain saved where sv: "meta_counter st = Some saved"
    using assms by (auto simp: alloc_ready_def)
  define mc where "mc = (if logical_id_counter st + 1 - saved \<ge> META_COUNTER_SAVE_INTERVAL
      then logical_id_counter st + 1 else saved)"
  define st' where "st' = st\<lparr>logical_id_counter := logical_id_counter st + 1, meta_counter := Some mc,
      l1cache := (l1cache st)(i \<mapsto> m), referenced_nodes := referenced_nodes st @ [META_COUNTER_LOGICAL_ID, i],
      modified_nodes := modified_nodes st @ [i]\<rparr>"
  have fresh: "l1cache st i = None"
    using assms by (simp add: alloc_ready_def i_def)
  have room: "Suc (length (referenced_nodes st)) < max_per_thread_nodes_ref st"
    "length (modified_nodes st) < max_per_thread_nodes st"
    using assms by (auto simp: alloc_ready_def)
  have ids: "new_id st' j = new_id st (Suc j)" for j
    by (simp add: new_id_def st'_def algebra_simps)
  then have ids': "new_id st' = (\<lambda>j. new_id st (Suc j))"
    by (rule ext)
  have i: "logical_id_counter st * n_partitions st + n_partition st = i"
    by (simp add: i_def new_id_def)
  have g: "get_new_overflow_node st = Some (st', i)"
    using fresh room sv
    by (simp add: get_new_overflow_node_def i savepersistent_counter_def ref_l1cache_def
        modify_l1cache_node_def assert_opt_def st'_def mc_def m_def Let_def)
  have dist: "i \<notin> set (map (\<lambda>j. new_id st (Suc j)) [0..<k])" "distinct (map (\<lambda>j. new_id st (Suc j)) [0..<k])"
    using assms unfolding alloc_ready_def upt_map_Suc i_def by simp_all
  have "alloc_ready st' k"
    unfolding alloc_ready_def ids' using assms dist by (auto simp: alloc_ready_def) (auto simp: st'_def)
  then show ?thesis
    using g ids fresh by (auto simp: i_def [symmetric] st'_def ov_view_def cached_def m_def fun_eq_iff)
qed

lemma update_cached_simps [simp]:
  "logical_id_counter (update_cached st i f) = logical_id_counter st"
  "new_id (update_cached st i f) = new_id st"
  "cached (update_cached st i f) = cached st"
  by (auto simp: update_cached_def new_id_def cached_def fun_eq_iff split: option.splits)

lemma alloc_ready_update_cached [simp]: "alloc_ready (update_cached st i f) k = alloc_ready st k"
proof -
  have "l1cache (update_cached st i f) j = None \<longleftrightarrow> l1cache st j = None" for j
    by (simp add: update_cached_def)
  then show ?thesis
    by (simp add: alloc_ready_def) (simp add: update_cached_def)
qed

lemma update_cached_view:
  "cached st i \<Longrightarrow> ov_view (update_cached st i f) = (ov_view st)(i := map_option f (ov_view st i))"
  by (auto simp: update_cached_def cached_def ov_view_def fun_eq_iff split: option.splits)

lemma alloc_ready_not_cached: "alloc_ready st k \<Longrightarrow> j < k \<Longrightarrow> \<not> cached st (new_id st j)"
  by (simp add: alloc_ready_def cached_def)

lemma allocate_loop_chain:
  assumes "0 < ov" and "data \<noteq> []" and "Suc k = n_nodes ov (length data)" and "alloc_ready st k"
    and "cached st n" and "n \<noteq> 0" and "ov_view st n = Some x" and "ov_next x = 0"
    and "\<forall>l. n_last = Some l \<longrightarrow> cached st l \<and> l \<noteq> n"
  shows "\<exists>st'. allocate_loop ov st data n_last n = Some st' \<and>
     ov_chain ov (ov_view st') n (n # map (new_id st) [0..<k]) data \<and>
     (\<forall>i. i \<notin> set (n # map (new_id st) [0..<k]) \<longrightarrow>
        ov_view st' i = (if n_last = Some i then map_option (ov_next_update (\<lambda>_. n)) (ov_view st i) else ov_view st i))"
  using assms
proof (induction k arbitrary: st data n_last n x)
  case 0
  have len: "length data \<le> ov"
    using 0(1,2,3) n_nodes_step [of ov "length data"] n_nodes_step [of ov "length data - ov"] by (cases "length data \<le> ov") auto
  show ?case
    using 0 len
    by (auto simp: allocate_loop.simps Let_def update_cached_view split: option.splits)
next
  case (Suc k)
  define st1 where "st1 = (case n_last of None \<Rightarrow> st | Some l \<Rightarrow> update_cached st l (ov_next_update (\<lambda>_. n)))"
  define st2 where "st2 = update_cached st1 n (ov_data_update (\<lambda>_. take ov data))"
  have step: "Suc k = n_nodes ov (length (drop ov data))"
    using Suc.prems(1-3) n_nodes_step [of ov "length data"] by simp
  have more: "drop ov data \<noteq> []"
    using step Suc.prems(1) by (auto simp: n_nodes_def)
  have s1: "alloc_ready st1 (Suc k)" "new_id st1 = new_id st" "cached st1 = cached st"
    using Suc.prems(4) by (auto simp: st1_def split: option.splits)
  have v1: "ov_view st1 = (\<lambda>i. if n_last = Some i then map_option (ov_next_update (\<lambda>_. n)) (ov_view st i) else ov_view st i)"
    using Suc.prems(9) by (auto simp: st1_def update_cached_view fun_eq_iff split: option.splits)
  have s2: "alloc_ready st2 (Suc k)" "new_id st2 = new_id st" "cached st2 = cached st"
    using s1 by (simp_all add: st2_def)
  have v2: "ov_view st2 = (ov_view st1)(n \<mapsto> x\<lparr>ov_data := take ov data\<rparr>)"
    using Suc.prems(5,7,9) s1 v1 by (auto simp: st2_def update_cached_view)
  obtain st3 where g: "get_new_overflow_node st2 = Some (st3, new_id st 0)" "alloc_ready st3 k"
    "\<forall>j. new_id st3 j = new_id st (Suc j)" "cached st3 (new_id st 0)"
    "ov_view st3 = (ov_view st2)(new_id st 0 \<mapsto> \<lparr>ov_next = 0, ov_data = []\<rparr>)"
    "\<forall>i. i \<noteq> new_id st 0 \<longrightarrow> cached st3 i = cached st i"
    using get_new_node_view [OF s2(1)] s2 by auto
  have ids: "map (new_id st) [0..<Suc k] = new_id st 0 # map (new_id st3) [0..<k]"
    unfolding upt_map_Suc using g(3) by simp
  have nn: "n \<noteq> new_id st j" if "j < Suc k" for j
    using alloc_ready_not_cached [OF Suc.prems(4) that] Suc.prems(5) by auto
  have ne: "n \<notin> set (new_id st 0 # map (new_id st3) [0..<k])"
    unfolding ids [symmetric] set_map image_iff set_upt using nn by (metis atLeastLessThan_iff)
  have c3: "cached st3 n" using g(6) nn [of 0] Suc.prems(5) by simp
  have nz: "new_id st 0 \<noteq> 0" using Suc.prems(4) by (simp add: alloc_ready_def)
  obtain st' where r: "allocate_loop ov st3 (drop ov data) (Some n) (new_id st 0) = Some st'"
    "ov_chain ov (ov_view st') (new_id st 0) (new_id st 0 # map (new_id st3) [0..<k]) (drop ov data)"
    "\<forall>i. i \<notin> set (new_id st 0 # map (new_id st3) [0..<k]) \<longrightarrow>
        ov_view st' i = (if Some n = Some i then map_option (ov_next_update (\<lambda>_. new_id st 0)) (ov_view st3 i) else ov_view st3 i)"
    using Suc.IH [OF Suc.prems(1) more step g(2,4) nz _ _, of "\<lparr>ov_next = 0, ov_data = []\<rparr>" "Some n"]
      g(5) c3 nn [of 0] by auto
  have a: "allocate_loop ov st data n_last n = Some st'"
    using r(1) g(1) more Suc.prems(1) by (simp add: allocate_loop.simps [of ov st] Let_def st1_def [symmetric] st2_def [symmetric])
  have vn: "ov_view st' n = Some (x\<lparr>ov_data := take ov data, ov_next := new_id st 0\<rparr>)"
    using r(3) ne g(5) v2 nn [of 0] by auto
  show ?case
    unfolding ids using a r(2,3) vn ne Suc.prems(2,6) g(5) v1 v2 by auto
qed

lemma allocate_chain:
  assumes "data \<noteq> []" and "ov = unat (get_data_in_overflownode bt)" and "0 < ov" and "\<not> bt_storm_mode bt"
    and "k = n_nodes ov (length data)" and "alloc_ready st k"
  shows "\<exists>st'. allocate_overflow_data bt st data = Some (st', new_id st 0) \<and>
     ov_chain ov (ov_view st') (new_id st 0) (map (new_id st) [0..<k]) data \<and>
     (\<forall>i. i \<notin> set (map (new_id st) [0..<k]) \<longrightarrow> ov_view st' i = ov_view st i)"
proof -
  obtain k' where k: "k = Suc k'"
    using n_nodes_step [OF assms(3), of "length data"] assms(1,5) by auto
  obtain st1 where g: "get_new_overflow_node st = Some (st1, new_id st 0)" "alloc_ready st1 k'"
    "\<forall>j. new_id st1 j = new_id st (Suc j)" "cached st1 (new_id st 0)"
    "ov_view st1 = (ov_view st)(new_id st 0 \<mapsto> \<lparr>ov_next = 0, ov_data = []\<rparr>)"
    using get_new_node_view assms(6) k by blast
  have ids: "map (new_id st) [0..<k] = new_id st 0 # map (new_id st1) [0..<k']"
    unfolding k upt_map_Suc using g(3) by simp
  have nz: "new_id st 0 \<noteq> 0" using assms(6) k by (simp add: alloc_ready_def)
  show ?thesis
    unfolding ids
    using allocate_loop_chain [OF assms(3,1) _ g(2,4) nz, of "\<lparr>ov_next = 0, ov_data = []\<rparr>" None] g(1,5) assms k
    by (auto simp: allocate_overflow_data_def assert_opt_def)
qed

end
