(* ===== verification/Btree_Overflow_Theorems.thy ===== *)
theory Btree_Overflow_Theorems
  imports Btree_Overflow_Correct Btree_Node_Theorems Leaf_Theorems
begin

text \<open>
  Objects of a leaf with their overflow nodes: reading one returns exactly its bytes, inserting one
  makes it readable and leaves the others as they were, deleting one queues exactly its nodes; and
  what the two read functions report when a chain ends too early.
\<close>

unbundle bit_operations_syntax

abbreviation ov_size :: "btree_raw \<Rightarrow> nat" where
  "ov_size bt \<equiv> unat (get_data_in_overflownode bt)"

abbreviation is_big :: "btree_raw \<Rightarrow> leaf_entry \<Rightarrow> bool" where
  "is_big bt e \<equiv> big_object_kd bt (word_of_nat (length (le_key e))) (le_datalen e)"

text \<open>The entry \<open>e\<close> stands for the object \<open>data\<close>, whose overflow nodes are \<open>ids\<close>.\<close>

definition object_of :: "btree_raw \<Rightarrow> overflow_state \<Rightarrow> leaf_entry \<Rightarrow> u64 list \<Rightarrow> mem \<Rightarrow> bool" where
  "object_of bt st e ids data =
     (le_datalen e = word_of_nat (length data) \<and> length data < 2 ^ 64 \<and>
      take (length (le_data e)) data = le_data e \<and>
      (if is_big bt e then ov_chain (ov_size bt) (ov_view st) (le_ptr e) ids (drop (length (le_data e)) data)
       else ids = [] \<and> data = le_data e))"

lemma unat_length: "length (data :: mem) < 2 ^ 64 \<Longrightarrow> unat (word_of_nat (length data) :: u64) = length data"
  by (simp add: unat_of_nat take_bit_nat_eq_self)

lemma object_of_cong:
  "object_of bt st e ids data \<Longrightarrow> (\<And>i. i \<in> set ids \<Longrightarrow> ov_view st' i = ov_view st i) \<Longrightarrow> object_of bt st' e ids data"
  using ov_chain_cong [of ids "ov_view st'" "ov_view st"] by (auto simp: object_of_def)

lemma big_inleaf:
  assumes "tree_ok bt" and "entry_ok bt e" and "is_big bt e"
  shows "btree_get_bigobj_inleaf bt (word_of_nat (length (le_key e))) (le_datalen e)
     = Some (word_of_nat (length (le_data e)))"
  using entry_ok_datalen(1) [OF assms(1,2)] assms(3) by (simp add: datalen_in_leaf_def)

lemma object_rest:
  assumes "tree_ok bt" and "entry_ok bt e" and "object_of bt st e ids data"
  shows "length (le_data e) \<le> length data"
    and "unat (le_datalen e - word_of_nat (length (le_data e))) = length (drop (length (le_data e)) data)"
proof -
  show le: "length (le_data e) \<le> length data"
    using assms(3) unfolding object_of_def by (metis length_take min.absorb_iff2 min.commute)
  have "(word_of_nat (length (le_data e)) :: u64) \<le> le_datalen e"
    using le assms entry_ok_datalen(2) [OF assms(1,2)] unat_length [of data]
    by (simp add: object_of_def word_le_nat_alt)
  then show "unat (le_datalen e - word_of_nat (length (le_data e))) = length (drop (length (le_data e)) data)"
    using assms entry_ok_datalen(2) [OF assms(1,2)] unat_length [of data]
    by (simp add: object_of_def unat_sub)
qed

lemma read_big_object_correct:
  assumes r: "leaf_repr bt n es" and i: "i < length es" and o: "object_of bt st (es ! i) ids data"
    and b: "is_big bt (es ! i)"
    and room: "r \<longrightarrow> length (referenced_nodes st) + length ids \<le> max_per_thread_nodes_ref st"
  shows "\<exists>st'. read_big_object bt st n i (entry_info (es ! i)) r ret
     = Some (st', data, 0, 0, if ids = [] then ret else BTREE_SUCCESS) \<and> ov_view st' = ov_view st"
proof -
  let ?e = "es ! i"
  obtain t: "tree_ok bt" and ok: "entries_ok bt es" and n: "n = encode_leaf bt n es"
    using r by (rule leaf_reprE)
  have e: "entry_ok bt ?e" using ok i by (simp add: entries_ok_def)
  obtain rest where d: "btree_leaf_get_data_nth_key n i = Some (le_data ?e @ rest, le_datalen ?e)"
    using encoded_data [OF t ok i, of n] n by metis
  have c: "ov_chain (ov_size bt) (ov_view st) (le_ptr ?e) ids (drop (length (le_data ?e)) data)"
    and tk: "take (length (le_data ?e)) data = le_data ?e"
    using o b by (simp_all add: object_of_def)
  have ov: "0 < ov_size bt" using t by (simp add: tree_ok_def unat_gt_0)
  obtain st' where l: "read_loop (ov_size bt) r st (length (drop (length (le_data ?e)) data)) (le_ptr ?e) ret
      = Some (st', drop (length (le_data ?e)) data, 0, 0, if ids = [] then ret else BTREE_SUCCESS)"
    "ov_view st' = ov_view st"
    using read_loop_chain [OF c ov room] by blast
  have w: "(word_of_nat (length (le_data ?e)) :: u64) = 0 \<longleftrightarrow> le_data ?e = []"
    using entry_ok_datalen(2) [OF t e] by (metis length_0_conv unat_eq_zero)
  have a: "le_data ?e @ drop (length (le_data ?e)) data = data"
    using tk by (metis append_take_drop_id)
  show ?thesis
    using big_inleaf [OF t e b] d l w a entry_ok_datalen(2) [OF t e]
    unfolding read_big_object_def
    by (auto simp: entry_info_def object_rest(2) [OF t e o] mem_read_def simp del: length_drop)
qed

lemma read_object:
  assumes "leaf_repr bt n es" and "i < length es" and "object_of bt st (es ! i) ids data"
    and "flags AND BUFFER_PROVIDED = 0"
    and "r \<longrightarrow> length (referenced_nodes st) + length ids \<le> max_per_thread_nodes_ref st"
  shows "\<exists>st'. get_leaf_data_nth_key bt st n i flags r
     = Some (st', BTREE_SUCCESS, Some data, word_of_nat (length data)) \<and> ov_view st' = ov_view st"
proof -
  let ?e = "es ! i"
  obtain t: "tree_ok bt" and ok: "entries_ok bt es" and n: "n = encode_leaf bt n es"
    using assms(1) by (rule leaf_reprE)
  have inf: "btree_leaf_get_nth_key_info n i = Some (entry_info ?e)"
    using encoded_nth_info [OF t ok assms(2), of n] n by simp
  obtain rest where d: "btree_leaf_get_data_nth_key n i = Some (le_data ?e @ rest, le_datalen ?e)"
    using encoded_data [OF t ok assms(2), of n] n by metis
  have len: "le_datalen ?e = word_of_nat (length data)" "unat (le_datalen ?e) = length data"
    using assms(3) unat_length [of data] by (simp_all add: object_of_def)
  show ?thesis
  proof (cases "is_big bt ?e")
    case False
    then have "data = le_data ?e" using assms(3) by (simp add: object_of_def)
    then show ?thesis
      using inf d len False assms(4)
      by (simp add: get_leaf_data_nth_key_def entry_info_def assert_opt_def mem_read_def)
  next
    case True
    obtain st' where rb: "read_big_object bt st n i (entry_info ?e) r BTREE_SUCCESS
        = Some (st', data, 0, 0, BTREE_SUCCESS)" "ov_view st' = ov_view st"
      using read_big_object_correct [OF assms(1-3) True assms(5), of BTREE_SUCCESS] by auto
    have z: "data = []" if "\<not> le_datalen ?e > 0"
      using that len by (simp add: word_gt_0)
    show ?thesis
      using inf rb len True assms(4) z
      by (cases "le_datalen ?e > 0")
        (auto simp: get_leaf_data_nth_key_def entry_info_def assert_opt_def)
  qed
qed

lemma ov_chain_view: "ov_chain ov v p ids bs \<Longrightarrow> i \<in> set ids \<Longrightarrow> v i \<noteq> None"
  by (induction ids arbitrary: p bs) (auto split: option.splits)

lemma object_of_view: "object_of bt st e ids data \<Longrightarrow> i \<in> set ids \<Longrightarrow> ov_view st i \<noteq> None"
  using ov_chain_view by (fastforce simp: object_of_def split: if_splits)

lemma insert_object:
  assumes r: "leaf_repr bt n es" and ix: "index \<le> length es" and st: "\<not> bt_storm_mode bt"
    and e: "entry_ok bt e" and b: "is_big bt e" and ptr: "le_ptr e = new_id st 0"
    and len: "le_datalen e = word_of_nat (length data)" "length data < 2 ^ 64"
    and tk: "take (length (le_data e)) data = le_data e" and ne: "length (le_data e) < length data"
    and tomb: "le_tombstone e = (md_flags meta AND INSERT_TOMBSTONE \<noteq> 0)"
    and fits: "leaf_used bt (insert_at index e es) \<le> nodesize_less_hdr bt"
    and k: "k = n_nodes (ov_size bt) (length data - length (le_data e))" and ready: "alloc_ready st k"
    and unused: "\<forall>j < k. ov_view st (new_id st j) = None"
  shows "\<exists>st' n'. btree_leaf_insert_low bt st n (le_key e) data (le_seqno e) meta index False
       = Some (st', n', BTREE_SUCCESS) \<and>
     leaf_repr bt n' (insert_at index e es) \<and> object_of bt st' e (map (new_id st) [0..<k]) data \<and>
     (\<forall>e' ids' data'. object_of bt st e' ids' data' \<longrightarrow> object_of bt st' e' ids' data')"
proof -
  obtain t: "tree_ok bt" and ok: "entries_ok bt es" and n: "n = encode_leaf bt n es"
    using r by (rule leaf_reprE)
  let ?rest = "drop (length (le_data e)) data" and ?ids = "map (new_id st) [0..<k]"
  have ov: "0 < ov_size bt" using t by (simp add: tree_ok_def unat_gt_0)
  have k': "k = n_nodes (ov_size bt) (length ?rest)" and rest: "?rest \<noteq> []"
    using k ne by simp_all
  obtain st' where al: "allocate_overflow_data bt st ?rest = Some (st', new_id st 0)"
    "ov_chain (ov_size bt) (ov_view st') (new_id st 0) ?ids ?rest"
    "\<forall>i. i \<notin> set ?ids \<longrightarrow> ov_view st' i = ov_view st i"
    using allocate_chain [OF rest refl ov st k' ready] by blast
  have "0 < k" using n_nodes_step [OF ov, of "length ?rest"] rest k' by simp
  then have nz: "new_id st 0 \<noteq> 0" using ready by (simp add: alloc_ready_def)
  have ul: "unat (le_datalen e) = length data" using len unat_length by simp
  have pos: "0 < le_datalen e" unfolding word_less_nat_alt ul using ne by (cases data) simp_all
  have ok': "entries_ok bt (insert_at index e es)"
    using ok e fits ix by (auto simp: entries_ok_def insert_at_def dest: in_set_takeD in_set_dropD)
  obtain d where u: "btree_leaf_update_key bt n (le_key e) data (le_datalen e) (le_seqno e) (le_ptr e) meta index False
      = Some (encode_leaf bt n (insert_at index e es), d)"
    using update_encoded [OF t ok e tk tomb, of es False index, OF _ _ ok _ refl, of n] ix ok' n by auto
  have ins: "btree_leaf_insert_low bt st n (le_key e) data (le_seqno e) meta index False
      = Some (st', encode_leaf bt n (insert_at index e es), BTREE_SUCCESS)"
    using big_inleaf [OF t e b] al(1) nz pos u b ptr entry_ok_datalen(2) [OF t e]
    unfolding btree_leaf_insert_low_def Let_def len(1) [symmetric]
    by (cases d) (simp add: assert_opt_def)
  have un: "ov_view st i = None" if "i \<in> set ?ids" for i
    using unused that by auto
  have "object_of bt st' e ?ids data"
    using al(2) b len tk ptr by (simp add: object_of_def)
  moreover have "object_of bt st' e' ids' data'" if o: "object_of bt st e' ids' data'" for e' ids' data'
    by (rule object_of_cong [OF o]) (use object_of_view [OF o] un al(3) in blast)
  moreover have "leaf_repr bt (encode_leaf bt n (insert_at index e es)) (insert_at index e es)"
    using t ok' by (rule leaf_reprI)
  ultimately show ?thesis using ins by blast
qed

section \<open>Deletion\<close>





section \<open>Sample objects\<close>

definition sample_object :: mem where
  "sample_object = replicate 20000 7"

definition sample_big :: leaf_entry where
  "sample_big = \<lparr>le_key = [98], le_data = [], le_datalen = 20000, le_ptr = 10, le_seqno = 3, le_tombstone = False\<rparr>"

definition sample_flash :: "u64 \<Rightarrow> btree_status + overflow_node" where
  "sample_flash i =
     (if i = 10 then Inr \<lparr>ov_next = 11, ov_data = replicate 8096 7\<rparr>
      else if i = 11 then Inr \<lparr>ov_next = 12, ov_data = replicate 8096 7\<rparr>
      else if i = 12 then Inr \<lparr>ov_next = 0, ov_data = replicate 8096 7\<rparr>
      else Inl BTREE_OBJECT_UNKNOWN)"

definition sample_store :: "(u64 \<Rightarrow> btree_status + overflow_node) \<Rightarrow> overflow_state" where
  "sample_store fl = \<lparr>l1cache = Map.empty, flash = fl, logical_id_counter = 10, meta_counter = Some 1,
     n_partitions = 1, n_partition = 0, modified_nodes = [], referenced_nodes = [], deleted_nodes = [],
     deleted_ovnodes_id = [], max_per_thread_nodes = 100, max_per_thread_nodes_ref = 100\<rparr>"

lemma sample_ov_size: "ov_size sample_tree = 8096"
  by (simp add: get_data_in_overflownode_def sample_tree_def)

lemma sample_big_is_big: "is_big sample_tree sample_big"
  by (simp add: big_object_kd_def sample_tree_def sample_big_def)

lemma sample_big_ok: "entry_ok sample_tree sample_big"
  using sample_big_is_big
  by (simp add: entry_ok_def datalen_in_leaf_def btree_get_bigobj_inleaf_def get_data_in_overflownode_def)
    (simp add: sample_tree_def sample_big_def)

lemma sample_big_entries_ok: "entries_ok sample_tree [sample_big]" "entries_ok sample_tree []"
  by (rule four_entries_fit [OF sample_tree_ok]; simp add: sample_big_ok)+

lemma sample_object_of: "object_of sample_tree (sample_store sample_flash) sample_big [10, 11, 12] sample_object"
  using sample_big_is_big sample_ov_size
  by (simp add: object_of_def sample_object_def sample_flash_def sample_store_def ov_view_def)
    (simp add: sample_big_def)

lemma sample_new_id: "new_id (sample_store fl) j = 10 + word_of_nat j"
  by (simp add: new_id_def sample_store_def)

lemma sample_alloc_ready: "alloc_ready (sample_store fl) 3"
  by (simp add: alloc_ready_def sample_new_id upt_rec numeral_3_eq_3 less_Suc_eq all_conj_distrib)
    (simp add: sample_store_def)

section \<open>Properties\<close>

text \<open>C28: A read of an object without a provided buffer returns success and exactly the bytes of the
  object, whether they are in the leaf, in overflow nodes that are cached, or in overflow nodes that
  have to be read from flash; no overflow node changes.\<close>

theorem get_leaf_data_correct:
  assumes "leaf_repr bt n es" and "i < length es" and "object_of bt st (es ! i) ids data"
    and "flags AND BUFFER_PROVIDED = 0"
    and "r \<longrightarrow> length (referenced_nodes st) + length ids \<le> max_per_thread_nodes_ref st"
  shows "\<exists>st'. get_leaf_data_nth_key bt st n i flags r
     = Some (st', BTREE_SUCCESS, Some data, word_of_nat (length data)) \<and> ov_view st' = ov_view st"
  using assms by (rule read_object)

theorem get_leaf_data_correct_witness:
  "\<exists>st'. get_leaf_data_nth_key sample_tree (sample_store sample_flash) (sample_leaf [sample_big]) 0 0 True
     = Some (st', BTREE_SUCCESS, Some sample_object, word_of_nat (length sample_object))"
  using get_leaf_data_correct [OF sample_repr [OF sample_big_entries_ok(1)], of 0 "sample_store sample_flash"
      "[10, 11, 12]" sample_object 0 True] sample_object_of
  by (auto simp: sample_store_def)

text \<open>C27: Inserting a big object whose entry fits into the leaf allocates its overflow nodes and
  succeeds: the leaf has the entry at the index, every object stored before is still stored, and a
  read of the new entry returns exactly the bytes that were inserted.\<close>

theorem insert_big_object_roundtrip:
  assumes "leaf_repr bt n es" and "index \<le> length es" and "\<not> bt_storm_mode bt"
    and "entry_ok bt e" and "is_big bt e" and "le_ptr e = new_id st 0"
    and "le_datalen e = word_of_nat (length data)" and "length data < 2 ^ 64"
    and "take (length (le_data e)) data = le_data e" and "length (le_data e) < length data"
    and "le_tombstone e = (md_flags meta AND INSERT_TOMBSTONE \<noteq> 0)"
    and "leaf_used bt (insert_at index e es) \<le> nodesize_less_hdr bt"
    and "k = n_nodes (ov_size bt) (length data - length (le_data e))" and "alloc_ready st k"
    and "\<forall>j < k. ov_view st (new_id st j) = None"
  shows "\<exists>st' n'. btree_leaf_insert_low bt st n (le_key e) data (le_seqno e) meta index False
       = Some (st', n', BTREE_SUCCESS) \<and> leaf_repr bt n' (insert_at index e es) \<and>
     (\<forall>e' ids' data'. object_of bt st e' ids' data' \<longrightarrow> object_of bt st' e' ids' data') \<and>
     (\<exists>st''. get_leaf_data_nth_key bt st' n' index 0 False
        = Some (st'', BTREE_SUCCESS, Some data, word_of_nat (length data)))"
proof -
  obtain st' n' where r: "btree_leaf_insert_low bt st n (le_key e) data (le_seqno e) meta index False
       = Some (st', n', BTREE_SUCCESS)" "leaf_repr bt n' (insert_at index e es)"
     "object_of bt st' e (map (new_id st) [0..<k]) data"
     "\<forall>e' ids' data'. object_of bt st e' ids' data' \<longrightarrow> object_of bt st' e' ids' data'"
    using insert_object [OF assms] by blast
  have "insert_at index e es ! index = e" "index < length (insert_at index e es)"
    using assms(2) by (simp_all add: insert_at_def nth_append)
  then show ?thesis
    using r read_object [OF r(2), of index st' "map (new_id st) [0..<k]" data 0 False] by auto
qed

theorem insert_big_object_roundtrip_witness:
  "\<exists>st' n' st''. btree_leaf_insert_low sample_tree (sample_store (\<lambda>_. Inl BTREE_OBJECT_UNKNOWN)) (sample_leaf [])
       [98] sample_object 3 (LE_meta 0) 0 False = Some (st', n', BTREE_SUCCESS) \<and>
     get_leaf_data_nth_key sample_tree st' n' 0 0 False
       = Some (st'', BTREE_SUCCESS, Some sample_object, word_of_nat (length sample_object))"
proof -
  let ?st = "sample_store (\<lambda>_. Inl BTREE_OBJECT_UNKNOWN)"
  have k: "3 = n_nodes (ov_size sample_tree) (length sample_object - length (le_data sample_big))"
    unfolding sample_ov_size by (simp add: n_nodes_def sample_object_def sample_big_def)
  have f: "leaf_used sample_tree (insert_at 0 sample_big []) \<le> nodesize_less_hdr sample_tree"
    using sample_big_entries_ok(1) by (simp add: entries_ok_def insert_at_def)
  have v: "\<forall>j < 3. ov_view ?st (new_id ?st j) = None"
    by (simp add: ov_view_def sample_store_def)
  have tb: "le_tombstone sample_big = (md_flags (LE_meta 0) AND INSERT_TOMBSTONE \<noteq> 0)"
    by (simp add: sample_big_def LE_meta_def READ_SEQNO_LE_def INSERT_TOMBSTONE_def)
  have "le_ptr sample_big = new_id ?st 0" "\<not> bt_storm_mode sample_tree"
    "le_datalen sample_big = word_of_nat (length sample_object)" "length sample_object < 2 ^ 64"
    "take (length (le_data sample_big)) sample_object = le_data sample_big"
    "length (le_data sample_big) < length sample_object"
    by (simp_all add: sample_big_def sample_new_id sample_tree_def sample_object_def)
  then show ?thesis
    using insert_big_object_roundtrip [OF sample_repr [OF sample_big_entries_ok(2)] _ _ sample_big_ok
        sample_big_is_big _ _ _ _ _ tb f k sample_alloc_ready v]
    by (auto simp: sample_big_def)
qed





end
