(* ===== verification/Btree_Flush.thy ===== *)
theory Btree_Flush
  imports Btree_Overflow_Correct
begin

text \<open>
  The end of an operation (\<open>deref_l1cache\<close> and \<open>btree_io_error_cleanup\<close> in \<open>src/btree/btree_raw.c\<close>): the
  modified nodes are written in batches, the queued nodes are deleted, and the lists of the operation
  are emptied; after a failure the modified and deleted nodes leave the cache instead.

  The callbacks of the storage engine are parameters: \<open>wcb\<close> writes a batch, \<open>dcb\<close> deletes a node, and
  \<open>trx start commit\<close> ends the transaction that began with the contents \<open>start\<close>.  The nodes are those of
  the overflow state; metadata nodes, the parallel flush and storm mode are left out.  A node that
  error handling removes from the cache is one no other thread refers to.
\<close>

type_synonym flash_map = "u64 \<Rightarrow> btree_status + overflow_node"
type_synonym write_cb = "(u64 \<times> overflow_node) list \<Rightarrow> flash_map \<Rightarrow> btree_status \<times> flash_map"
type_synonym delete_cb = "u64 \<Rightarrow> flash_map \<Rightarrow> btree_status \<times> flash_map"
type_synonym trx_cb = "flash_map \<Rightarrow> bool \<Rightarrow> flash_map \<Rightarrow> flash_map"

definition MPUT_BATCH_SIZE :: nat where "MPUT_BATCH_SIZE = 128"

text \<open>A node that is in the list of modified nodes twice is written once, at its first position.\<close>

fun write_loop :: "write_cb \<Rightarrow> (u64 \<times> overflow_node) list \<Rightarrow> u64 set \<Rightarrow> (u64 \<times> overflow_node) list \<Rightarrow> flash_map
    \<Rightarrow> btree_status \<times> flash_map" where
  "write_loop wcb [] seen batch fl = (if batch = [] then (BTREE_SUCCESS, fl) else wcb batch fl)"
| "write_loop wcb (n # ns) seen batch fl =
     (let batch' = (if fst n \<in> seen then batch else batch @ [n]); seen' = insert (fst n) seen in
      if length batch' = MPUT_BATCH_SIZE
      then (case wcb batch' fl of
              (ret, fl') \<Rightarrow> if ret \<noteq> BTREE_SUCCESS then (ret, fl') else write_loop wcb ns seen' [] fl')
      else write_loop wcb ns seen' batch' fl)"

text \<open>Each deletion overwrites the status of the one before.\<close>

fun delete_nodes :: "delete_cb \<Rightarrow> u64 list \<Rightarrow> btree_status \<Rightarrow> flash_map \<Rightarrow> btree_status \<times> flash_map" where
  "delete_nodes dcb [] ret fl = (ret, fl)"
| "delete_nodes dcb (i # ids) ret fl = (case dcb i fl of (ret', fl') \<Rightarrow> delete_nodes dcb ids ret' fl')"

definition mark_clean :: "overflow_state \<Rightarrow> overflow_state" where
  "mark_clean st = st\<lparr>l1cache := (\<lambda>i. if i \<in> set (modified_nodes st)
     then map_option (node_dirty_update (\<lambda>_. False)) (l1cache st i) else l1cache st i)\<rparr>"

definition btree_io_error_cleanup :: "overflow_state \<Rightarrow> overflow_state" where
  "btree_io_error_cleanup st =
     st\<lparr>l1cache := (\<lambda>i. if i \<in> set (modified_nodes st) \<union> set (deleted_nodes st) then None else l1cache st i),
        modified_nodes := [], referenced_nodes := [], deleted_nodes := []\<rparr>"

definition deref_success :: "overflow_state \<Rightarrow> overflow_state" where
  "deref_success st =
     st\<lparr>l1cache := (\<lambda>i. if i \<in> set (deleted_nodes st) then None else l1cache st i),
        modified_nodes := [], referenced_nodes := [], deleted_nodes := [], deleted_ovnodes_id := []\<rparr>"

definition deref_l1cache ::
  "write_cb \<Rightarrow> delete_cb \<Rightarrow> trx_cb \<Rightarrow> overflow_state \<Rightarrow> (overflow_state \<times> btree_status) option" where
  "deref_l1cache wcb dcb trx st = do {
     nodes \<leftarrow> those (map (\<lambda>i. map_option (\<lambda>m. (i, mn_node m)) (l1cache st i)) (modified_nodes st));
     let (ret, fl) = write_loop wcb nodes {} [] (flash st);
     let (ret, fl, st1) =
       (if ret \<noteq> BTREE_SUCCESS then (ret, fl, st)
        else (let (ret1, fl1) = delete_nodes dcb (deleted_nodes st) ret fl;
                  (ret2, fl2) = delete_nodes dcb (deleted_ovnodes_id st) ret1 fl1
              in (ret2, fl2, mark_clean st)));
     let st2 = st1\<lparr>flash := trx (flash st) (ret = BTREE_SUCCESS) fl\<rparr>;
     Some (if ret = BTREE_SUCCESS then deref_success st2 else btree_io_error_cleanup st2, ret)
   }"

section \<open>Laws of the storage engine\<close>

definition write_law :: "write_cb \<Rightarrow> bool" where
  "write_law wcb \<longleftrightarrow> (\<forall>b fl fl'. wcb b fl = (BTREE_SUCCESS, fl') \<longrightarrow>
     fl' = (\<lambda>i. case map_of (rev b) i of None \<Rightarrow> fl i | Some n \<Rightarrow> Inr n))"

definition delete_law :: "delete_cb \<Rightarrow> bool" where
  "delete_law dcb \<longleftrightarrow> (\<forall>i fl fl'. dcb i fl = (BTREE_SUCCESS, fl') \<longrightarrow> fl' = fl(i := Inl BTREE_OBJECT_UNKNOWN))"

definition trx_law :: "trx_cb \<Rightarrow> bool" where
  "trx_law trx \<longleftrightarrow> (\<forall>start fl. trx start True fl = fl \<and> trx start False fl = start)"

text \<open>What is on flash.\<close>

definition on_flash :: "flash_map \<Rightarrow> u64 \<Rightarrow> overflow_node option" where
  "on_flash fl i = (case fl i of Inl _ \<Rightarrow> None | Inr n \<Rightarrow> Some n)"

lemma those_cached:
  "(\<And>i. i \<in> set ids \<Longrightarrow> l1cache st i \<noteq> None) \<Longrightarrow>
     those (map (\<lambda>i. map_option (\<lambda>m. (i, mn_node m)) (l1cache st i)) ids)
       = Some (map (\<lambda>i. (i, mn_node (the (l1cache st i)))) ids)"
proof (induction ids)
  case (Cons j ids)
  obtain m where "l1cache st j = Some m" using Cons.prems [of j] by auto
  then show ?case using Cons by simp
qed simp

lemma map_of_rev_graph: "map_of (rev (map (\<lambda>i. (i, f i)) ids)) i = (if i \<in> set ids then Some (f i) else None)"
proof -
  have "map_of (map (\<lambda>i. (i, f i)) (rev ids)) i = (if i \<in> set ids then Some (f i) else None)"
    by (simp add: map_of_map_restrict restrict_map_def)
  then show ?thesis by (simp add: rev_map)
qed

lemma write_batch:
  assumes "write_law wcb" and "\<And>b fl. fst (wcb b fl) = BTREE_SUCCESS"
  shows "wcb (map (\<lambda>i. (i, f i)) ids) fl = (BTREE_SUCCESS, \<lambda>i. if i \<in> set ids then Inr (f i) else fl i)"
proof -
  obtain fl' where w: "wcb (map (\<lambda>i. (i, f i)) ids) fl = (BTREE_SUCCESS, fl')"
    using assms(2) by (metis prod.collapse)
  then have "fl' = (\<lambda>i. case map_of (rev (map (\<lambda>i. (i, f i)) ids)) i of None \<Rightarrow> fl i | Some n \<Rightarrow> Inr n)"
    using assms(1) unfolding write_law_def by blast
  then show ?thesis using w by (auto simp: map_of_rev_graph fun_eq_iff)
qed

lemma write_loop_success:
  assumes "write_law wcb" and "\<And>b fl. fst (wcb b fl) = BTREE_SUCCESS"
  shows "write_loop wcb (map (\<lambda>i. (i, f i)) ids) seen (map (\<lambda>i. (i, f i)) bs) fl
     = (BTREE_SUCCESS, \<lambda>i. if i \<in> set bs \<or> i \<in> set ids - seen then Inr (f i) else fl i)"
proof (induction ids arbitrary: seen bs fl)
  case Nil
  then show ?case by (simp add: write_batch [OF assms])
next
  case (Cons j ids)
  define bs' where "bs' = (if j \<in> seen then bs else bs @ [j])"
  have b: "(if j \<in> seen then map (\<lambda>i. (i, f i)) bs else map (\<lambda>i. (i, f i)) bs @ [(j, f j)]) = map (\<lambda>i. (i, f i)) bs'"
    by (simp add: bs'_def)
  show ?case
    using Cons [of "insert j seen" "[]"] Cons [of "insert j seen" bs' fl]
    by (auto simp: b Let_def write_batch [OF assms] fun_eq_iff) (auto simp: bs'_def split: if_splits)
qed

lemma delete_nodes_success:
  assumes "delete_law dcb" and "\<And>i fl. fst (dcb i fl) = BTREE_SUCCESS"
  shows "delete_nodes dcb ids BTREE_SUCCESS fl
     = (BTREE_SUCCESS, \<lambda>i. if i \<in> set ids then Inl BTREE_OBJECT_UNKNOWN else fl i)"
proof (induction ids arbitrary: fl)
  case (Cons j ids)
  obtain fl' where d: "dcb j fl = (BTREE_SUCCESS, fl')"
    using assms(2) by (metis prod.collapse)
  then have "fl' = fl(j := Inl BTREE_OBJECT_UNKNOWN)"
    using assms(1) unfolding delete_law_def by blast
  then show ?case using Cons d by (auto simp: fun_eq_iff)
qed simp

lemma flush_success:
  assumes "write_law wcb" "\<And>b fl. fst (wcb b fl) = BTREE_SUCCESS"
    and "delete_law dcb" "\<And>i fl. fst (dcb i fl) = BTREE_SUCCESS" and "trx_law trx"
    and "\<And>i. i \<in> set (modified_nodes st) \<Longrightarrow> l1cache st i \<noteq> None"
  shows "\<exists>st'. deref_l1cache wcb dcb trx st = Some (st', BTREE_SUCCESS) \<and>
     modified_nodes st' = [] \<and> deleted_nodes st' = [] \<and> deleted_ovnodes_id st' = [] \<and>
     (\<forall>i. on_flash (flash st') i =
        (if i \<in> set (deleted_nodes st) \<union> set (deleted_ovnodes_id st) then None
         else if i \<in> set (modified_nodes st) then map_option mn_node (l1cache st i)
         else on_flash (flash st) i)) \<and>
     (\<forall>i. l1cache st' i = (if i \<in> set (deleted_nodes st) then None else l1cache (mark_clean st) i))"
proof -
  have c: "map_option mn_node (l1cache st i) = Some (mn_node (the (l1cache st i)))" if "i \<in> set (modified_nodes st)" for i
    using assms(6) [OF that] by auto
  show ?thesis
    using assms(5)
    by (simp add: deref_l1cache_def those_cached [OF assms(6)] write_loop_success [OF assms(1,2), where bs = "[]", simplified]
        delete_nodes_success [OF assms(3,4)] Let_def trx_law_def deref_success_def mark_clean_def on_flash_def)
      (auto simp: c)
qed

lemma flush_failure:
  assumes "deref_l1cache wcb dcb trx st = Some (st', ret)" and "ret \<noteq> BTREE_SUCCESS" and "trx_law trx"
  shows "flash st' = flash st" and "deleted_ovnodes_id st' = deleted_ovnodes_id st"
    and "modified_nodes st' = []" and "deleted_nodes st' = []"
    and "i \<in> set (modified_nodes st) \<union> set (deleted_nodes st) \<Longrightarrow> ov_view st' i = on_flash (flash st) i"
  using assms
  by (auto simp: deref_l1cache_def btree_io_error_cleanup_def trx_law_def mark_clean_def ov_view_def
      on_flash_def Let_def split: bind_splits prod.splits if_splits)

section \<open>Sample callbacks\<close>

definition ok_write :: write_cb where
  "ok_write b fl = (BTREE_SUCCESS, \<lambda>i. case map_of (rev b) i of None \<Rightarrow> fl i | Some n \<Rightarrow> Inr n)"

definition eio_write :: write_cb where
  "eio_write b fl = (BTREE_FLASH_EIO, fl)"

definition ok_delete :: delete_cb where
  "ok_delete i fl = (BTREE_SUCCESS, fl(i := Inl BTREE_OBJECT_UNKNOWN))"

definition sample_trx :: trx_cb where
  "sample_trx start commit fl = (if commit then fl else start)"

lemma sample_laws:
  "write_law ok_write" "delete_law ok_delete" "trx_law sample_trx"
  "fst (ok_write b fl) = BTREE_SUCCESS" "fst (ok_delete i fl) = BTREE_SUCCESS"
  by (auto simp: write_law_def delete_law_def trx_law_def ok_write_def ok_delete_def sample_trx_def)

text \<open>An operation that has modified node 5 and queued the uncached node 10.\<close>

definition sample_op :: overflow_state where
  "sample_op = \<lparr>
     l1cache = [5 \<mapsto> \<lparr>mn_node = \<lparr>ov_next = 0, ov_data = [1]\<rparr>, cache_valid = True, node_deleted = False, node_dirty = True\<rparr>],
     flash = (\<lambda>i. if i = 10 then Inr \<lparr>ov_next = 0, ov_data = [7]\<rparr> else Inl BTREE_OBJECT_UNKNOWN),
     logical_id_counter = 20, meta_counter = Some 1, n_partitions = 1, n_partition = 0,
     modified_nodes = [5], referenced_nodes = [5], deleted_nodes = [], deleted_ovnodes_id = [10],
     max_per_thread_nodes = 100, max_per_thread_nodes_ref = 100\<rparr>"

lemma sample_op_eio:
  "deref_l1cache eio_write ok_delete sample_trx sample_op = Some (btree_io_error_cleanup sample_op, BTREE_FLASH_EIO)"
  by (simp add: deref_l1cache_def sample_op_def eio_write_def sample_trx_def MPUT_BATCH_SIZE_def)

section \<open>Properties\<close>

text \<open>C31: If every write and every deletion succeeds, the flush succeeds and is durable: each modified
  node is on flash with its cached contents, whatever the number of batches, each queued node is gone,
  every other node is unchanged on flash, and the lists of the operation are empty.\<close>

theorem flush_durable:
  assumes "write_law wcb" and "\<forall>b fl. fst (wcb b fl) = BTREE_SUCCESS"
    and "delete_law dcb" and "\<forall>i fl. fst (dcb i fl) = BTREE_SUCCESS" and "trx_law trx"
    and "\<forall>i \<in> set (modified_nodes st). l1cache st i \<noteq> None"
  shows "\<exists>st'. deref_l1cache wcb dcb trx st = Some (st', BTREE_SUCCESS) \<and>
     modified_nodes st' = [] \<and> deleted_nodes st' = [] \<and> deleted_ovnodes_id st' = [] \<and>
     (\<forall>i. on_flash (flash st') i =
        (if i \<in> set (deleted_nodes st) \<union> set (deleted_ovnodes_id st) then None
         else if i \<in> set (modified_nodes st) then map_option mn_node (l1cache st i)
         else on_flash (flash st) i))"
  using flush_success [of wcb dcb trx st] assms by blast

theorem flush_durable_witness:
  "\<exists>st'. deref_l1cache ok_write ok_delete sample_trx sample_op = Some (st', BTREE_SUCCESS) \<and>
     on_flash (flash st') 5 = Some \<lparr>ov_next = 0, ov_data = [1]\<rparr> \<and> on_flash (flash st') 10 = None"
  using flush_durable [of ok_write ok_delete sample_trx sample_op] sample_laws by (auto simp: sample_op_def)



text \<open>C33: A node queued by an operation whose flush fails survives the rollback, but its id stays queued:
  the next flush, of an operation that has deleted nothing, succeeds and deletes the node.\<close>

theorem failed_flush_deletes_later:
  assumes "deref_l1cache wcb dcb trx st = Some (st1, ret)" and "ret \<noteq> BTREE_SUCCESS" and "trx_law trx"
    and "i \<in> set (deleted_ovnodes_id st)" and "l1cache st i = None" and "on_flash (flash st) i = Some n"
    and "write_law wcb'" and "\<forall>b fl. fst (wcb' b fl) = BTREE_SUCCESS"
    and "delete_law dcb'" and "\<forall>i fl. fst (dcb' i fl) = BTREE_SUCCESS"
  shows "ov_view st1 i = Some n \<and> modified_nodes st1 = [] \<and> deleted_nodes st1 = [] \<and>
     (\<exists>st2. deref_l1cache wcb' dcb' trx st1 = Some (st2, BTREE_SUCCESS) \<and> ov_view st2 i = None)"
proof -
  note f = flush_failure(1-4) [OF assms(1-3)]
  have c: "l1cache st1 i = None"
    using assms(1,2,5)
    by (auto simp: deref_l1cache_def btree_io_error_cleanup_def mark_clean_def Let_def
        split: bind_splits prod.splits if_splits)
  obtain st2 where s: "deref_l1cache wcb' dcb' trx st1 = Some (st2, BTREE_SUCCESS)"
    "on_flash (flash st2) i = None" "l1cache st2 i = l1cache (mark_clean st1) i"
    using flush_success [of wcb' dcb' trx st1] assms(3,4,7-10) f by auto
  show ?thesis
    using f c s assms(6) by (simp add: ov_view_def on_flash_def mark_clean_def)
qed

theorem failed_flush_deletes_later_witness:
  "\<exists>st2. deref_l1cache ok_write ok_delete sample_trx (btree_io_error_cleanup sample_op) = Some (st2, BTREE_SUCCESS) \<and>
     ov_view (btree_io_error_cleanup sample_op) 10 \<noteq> None \<and> ov_view st2 10 = None"
  using failed_flush_deletes_later [OF sample_op_eio _ sample_laws(3), of 10 "\<lparr>ov_next = 0, ov_data = [7]\<rparr>"
      ok_write ok_delete] sample_laws
  by (auto simp: sample_op_def on_flash_def)

end
