(* ===== verification/Btree_Hash.thy ===== *)
theory Btree_Hash
  imports ZS_Prelude
begin

text \<open>
  The hash of node ids (\<open>src/btree/btree_hash.c\<close>).  A key is its list of bytes; the two loops of the code,
  for aligned and unaligned keys, read the same little-endian words.
\<close>

unbundle bit_operations_syntax

section \<open>Mixing\<close>

text \<open>The macro \<open>mix64\<close> is four rounds of three lines, which differ in the shifts only.\<close>

definition mix_round :: "nat \<Rightarrow> nat \<Rightarrow> nat \<Rightarrow> u64 \<times> u64 \<times> u64 \<Rightarrow> u64 \<times> u64 \<times> u64" where
  "mix_round r l s = (\<lambda>(a, b, c).
     let a = (a - b - c) XOR drop_bit r c;
         b = (b - c - a) XOR push_bit l a;
         c = (c - a - b) XOR drop_bit s b
     in (a, b, c))"

definition mix64 :: "u64 \<times> u64 \<times> u64 \<Rightarrow> u64 \<times> u64 \<times> u64" where
  "mix64 x = mix_round 12 18 22 (mix_round 35 49 11 (mix_round 38 23 5 (mix_round 43 9 8 x)))"

text \<open>The inverse undoes the lines from the last to the first.\<close>

definition unmix_round :: "nat \<Rightarrow> nat \<Rightarrow> nat \<Rightarrow> u64 \<times> u64 \<times> u64 \<Rightarrow> u64 \<times> u64 \<times> u64" where
  "unmix_round r l s = (\<lambda>(a, b, c).
     let c = (c XOR drop_bit s b) + b + a;
         b = (b XOR push_bit l a) + a + c;
         a = (a XOR drop_bit r c) + c + b
     in (a, b, c))"

definition unmix64 :: "u64 \<times> u64 \<times> u64 \<Rightarrow> u64 \<times> u64 \<times> u64" where
  "unmix64 x = unmix_round 43 9 8 (unmix_round 38 23 5 (unmix_round 35 49 11 (unmix_round 12 18 22 x)))"

section \<open>Hash of a key\<close>

text \<open>Bytes \<open>from\<close>, \<open>from + 1\<close>, ... of the key, shifted by \<open>shift\<close>, \<open>shift + 8\<close>, ... and added up.\<close>

fun sum_bytes :: "nat \<Rightarrow> mem \<Rightarrow> u64" where
  "sum_bytes shift [] = 0"
| "sum_bytes shift (k # ks) = push_bit shift (ucast k) + sum_bytes (shift + 8) ks"

function hash_loop :: "mem \<Rightarrow> u64 \<times> u64 \<times> u64 \<Rightarrow> mem \<times> u64 \<times> u64 \<times> u64" where
  "hash_loop k (a, b, c) =
     (if length k \<ge> 24
      then hash_loop (drop 24 k)
             (mix64 (a + sum_bytes 0 (take 8 k), b + sum_bytes 0 (take 8 (drop 8 k)),
                     c + sum_bytes 0 (take 8 (drop 16 k))))
      else (k, a, b, c))"
  by pat_completeness auto
termination
  by (relation "measure (\<lambda>(k, _). length k)") auto

declare hash_loop.simps [simp del]

text \<open>The last 23 bytes; the first byte of \<open>c\<close> is the length.\<close>

definition btree_hash_int :: "mem \<Rightarrow> u64 \<Rightarrow> u64" where
  "btree_hash_int key level =
     (case hash_loop key (level, level, 0x9e3779b97f4a7c13) of
        (k, a, b, c) \<Rightarrow>
          snd (snd (mix64 (a + sum_bytes 0 (take 8 k), b + sum_bytes 0 (take 8 (drop 8 k)),
                           c + word_of_nat (length key) + sum_bytes 8 (drop 16 k)))))"

definition btree_hash :: "mem \<Rightarrow> u64 \<Rightarrow> u64 \<Rightarrow> u64" where
  "btree_hash key level cguid = btree_hash_int key level + cguid"

section \<open>Partition and bucket of a node\<close>

text \<open>The bytes of the id, as the caller's pointer shows them.\<close>

definition id_bytes :: "u64 \<Rightarrow> mem" where
  "id_bytes i = le_bytes 8 (unat i)"

definition map_bucket :: "nat \<Rightarrow> u64 \<Rightarrow> u64 \<Rightarrow> nat" where
  "map_bucket nbuckets key cguid = unat (btree_hash (id_bytes key) 0 cguid) mod nbuckets"

definition pmap_part :: "nat \<Rightarrow> u64 \<Rightarrow> u64 \<Rightarrow> nat" where
  "pmap_part nparts key cguid = unat (btree_hash (id_bytes key) 0 cguid) mod nparts"

section \<open>Properties\<close>

lemma xor_cancel: "(x XOR y) XOR y = (x :: u64)"
  by (simp add: xor.assoc)

lemma unmix_mix_round: "unmix_round r l s (mix_round r l s x) = x"
  unfolding mix_round_def unmix_round_def Let_def by (cases x) (simp only: prod.case xor_cancel diff_add_cancel)

lemma mix_unmix_round: "mix_round r l s (unmix_round r l s x) = x"
  unfolding mix_round_def unmix_round_def Let_def by (cases x) (simp only: prod.case xor_cancel add_diff_cancel)

text \<open>As its comment says, \<open>mix64\<close> mixes three words reversibly: it is a bijection, and undoing its
  lines in the opposite order is the inverse on both sides.\<close>

lemma mix64_reversible: "unmix64 (mix64 x) = x \<and> mix64 (unmix64 x) = x \<and> bij mix64"
proof -
  have l: "unmix64 (mix64 x) = x" and r: "mix64 (unmix64 x) = x" for x
    unfolding mix64_def unmix64_def unmix_mix_round mix_unmix_round by (rule refl)+
  show ?thesis
    using l r o_bij [of unmix64 mix64] by (simp add: fun_eq_iff)
qed

text \<open>C40: The partition of the cache and the bucket inside the partition come from the same hash, so in
  one partition only buckets with one remainder modulo the greatest common divisor of the two table
  sizes are ever used: at most the number of buckets divided by that divisor.\<close>

theorem pmap_buckets_used:
  assumes "0 < nbuckets" and "0 < nparts"
  shows "(\<forall>key cguid. map_bucket nbuckets key cguid mod gcd nparts nbuckets
            = pmap_part nparts key cguid mod gcd nparts nbuckets) \<and>
     card {map_bucket nbuckets key cguid | key cguid. pmap_part nparts key cguid = p}
       \<le> nbuckets div gcd nparts nbuckets"
proof -
  let ?g = "gcd nparts nbuckets"
  let ?B = "{map_bucket nbuckets key cguid | key cguid. pmap_part nparts key cguid = p}"
  have eq: "map_bucket nbuckets key cguid mod ?g = pmap_part nparts key cguid mod ?g" for key cguid
    by (simp add: map_bucket_def pmap_part_def mod_mod_cancel)
  have g: "0 < ?g" using assms by simp
  have "?B \<subseteq> (\<lambda>q. ?g * q + p mod ?g) ` {..<nbuckets div ?g}"
  proof
    fix b assume "b \<in> ?B"
    then obtain key cguid where b: "b = map_bucket nbuckets key cguid" "pmap_part nparts key cguid = p"
      by blast
    have "b < nbuckets" using b(1) assms(1) by (simp add: map_bucket_def)
    moreover have "?g * (nbuckets div ?g) = nbuckets" by simp
    ultimately have "b div ?g < nbuckets div ?g"
      using g less_mult_imp_div_less [of b "nbuckets div ?g" ?g] by (simp add: mult.commute)
    moreover have "b = ?g * (b div ?g) + p mod ?g"
      using eq [of key cguid] b mult_div_mod_eq [of ?g b] by simp
    ultimately show "b \<in> (\<lambda>q. ?g * q + p mod ?g) ` {..<nbuckets div ?g}" by blast
  qed
  then have "card ?B \<le> nbuckets div ?g"
    using surj_card_le [OF finite_lessThan] by fastforce
  then show ?thesis using eq by blast
qed

theorem pmap_buckets_used_witness:
  "card {map_bucket 320 key cguid | key cguid. pmap_part 256 key cguid = 0} \<le> 5"
proof -
  have "gcd (256 :: nat) 320 = 64" by (simp add: gcd_non_0_nat)
  then show ?thesis using pmap_buckets_used [of 320 256 0] by simp
qed

end
