(* ===== verification/Btree_Map.thy ===== *)
theory Btree_Map
  imports Btree_Hash "HOL-Library.Monad_Syntax"
begin

text \<open>
  The map of the node cache (\<open>src/btree/btree_map.c\<close>): a hash table with chained buckets, whose entries
  are also on a doubly linked list over which a clock hand looks for entries to replace.

  Entries live at addresses of a store and point to each other, as in the code; \<^term>\<open>None\<close> is the null
  pointer, and the result \<^term>\<open>None\<close> of an operation is a failed \<open>map_assert\<close>, an access through the null
  pointer, or a loop that does not end.  Entries are never returned to the system before the map is
  destroyed, so every address handed out stays readable; \<open>malloc\<close> returns new addresses in increasing
  order.  Keys are node ids of 8 bytes, all the code admits.  The calls of \<open>replacement_callback\<close>, which
  is always set for the node cache, are logged.  Operations run under the lock of the map and are
  modelled one at a time; counters do not wrap.
\<close>

unbundle bit_operations_syntax

type_synonym addr = nat

section \<open>State\<close>

record map_entry =
  me_ref :: bool
  me_deleted :: bool
  me_rawobj :: bool
  refcnt :: int
  me_datalen :: u64
  me_cguid :: u64
  me_key :: u64
  contents :: u64
  me_next :: "addr option"
  next_lru :: "addr option"
  prev_lru :: "addr option"
  me_bucket :: nat

record map_state =
  nbuckets :: nat
  max_entries :: nat
  n_entries :: nat
  buckets :: "nat \<Rightarrow> addr option"
  lru_head :: "addr option"
  lru_tail :: "addr option"
  clock_hand :: "addr option"
  NEntries :: nat
  NUsedEntries :: nat
  FreeEntries :: "addr option"
  EntryBlocks :: "addr list"
  extra_pme :: nat
  store :: "addr \<Rightarrow> map_entry"
  next_addr :: addr
  replaced :: "(u64 \<times> u64 \<times> u64) list"

definition N_ENTRIES_TO_MALLOC :: nat where "N_ENTRIES_TO_MALLOC = 100"
definition META_LOGICAL_ID_MASK :: u64 where "META_LOGICAL_ID_MASK = 0x8000000000000000"

definition map_assert :: "bool \<Rightarrow> unit option" where
  "map_assert b = (if b then Some () else None)"

text \<open>What \<open>bzero\<close> leaves.\<close>

definition zero_entry :: map_entry where
  "zero_entry = \<lparr>me_ref = False, me_deleted = False, me_rawobj = False, refcnt = 0, me_datalen = 0, me_cguid = 0,
     me_key = 0, contents = 0, me_next = None, next_lru = None, prev_lru = None, me_bucket = 0\<rparr>"

definition upd :: "addr \<Rightarrow> (map_entry \<Rightarrow> map_entry) \<Rightarrow> map_state \<Rightarrow> map_state" where
  "upd a f pm = pm\<lparr>store := (store pm)(a := f (store pm a))\<rparr>"

section \<open>Entries\<close>

definition get_entry :: "map_state \<Rightarrow> (map_state \<times> addr) option" where
  "get_entry pm =
     (let pm1 = (if FreeEntries pm = None
                 then let e = next_addr pm in
                   pm\<lparr>store := (\<lambda>a. if e \<le> a \<and> a < e + N_ENTRIES_TO_MALLOC
                                   then zero_entry\<lparr>me_next := if a = e then None else Some (a - 1)\<rparr>
                                   else store pm a),
                      EntryBlocks := e # EntryBlocks pm,
                      FreeEntries := Some (e + N_ENTRIES_TO_MALLOC - 1),
                      NEntries := NEntries pm + N_ENTRIES_TO_MALLOC,
                      next_addr := e + N_ENTRIES_TO_MALLOC\<rparr>
                 else pm)
      in do {
        e \<leftarrow> FreeEntries pm1;
        Some (pm1\<lparr>FreeEntries := me_next (store pm1 e), NUsedEntries := NUsedEntries pm1 + 1\<rparr>, e)
      })"

definition free_entry :: "map_state \<Rightarrow> addr \<Rightarrow> map_state" where
  "free_entry pm e =
     (upd e (\<lambda>m. m\<lparr>me_next := FreeEntries pm, me_deleted := False, contents := 0, refcnt := 0, me_datalen := 0,
                  next_lru := None, prev_lru := None, me_key := 0, me_cguid := 0\<rparr>) pm)
       \<lparr>FreeEntries := Some e, NUsedEntries := NUsedEntries pm - 1\<rparr>"

definition create_pme :: "map_state \<Rightarrow> u64 \<Rightarrow> u64 \<Rightarrow> u64 \<Rightarrow> bool \<Rightarrow> u64 \<Rightarrow> (map_state \<times> addr) option" where
  "create_pme pm key pdata datalen rawobj cguid = do {
     (pm1, pme) \<leftarrow> get_entry pm;
     Some (upd pme (\<lambda>m. m\<lparr>me_key := key, refcnt := 0, me_deleted := False, contents := pdata, me_datalen := datalen,
                         me_rawobj := rawobj, me_cguid := cguid, me_next := None, me_ref := False\<rparr>) pm1, pme)
   }"

definition free_pme :: "map_state \<Rightarrow> addr \<Rightarrow> map_state" where
  "free_pme pm pme = free_entry pm pme"

definition callback :: "map_state \<Rightarrow> addr \<Rightarrow> map_state" where
  "callback pm pme =
     pm\<lparr>replaced := replaced pm @ [(me_key (store pm pme), contents (store pm pme), me_datalen (store pm pme))]\<rparr>"

section \<open>The list of all entries\<close>

definition insert_lru :: "map_state \<Rightarrow> addr \<Rightarrow> map_state" where
  "insert_lru pm pme =
     (let pm1 = upd pme (next_lru_update (\<lambda>_. lru_head pm)) pm;
          pm2 = (case lru_head pm1 of None \<Rightarrow> pm1 | Some h \<Rightarrow> upd h (prev_lru_update (\<lambda>_. Some pme)) pm1);
          pm3 = upd pme (prev_lru_update (\<lambda>_. None)) pm2;
          pm4 = pm3\<lparr>lru_head := Some pme\<rparr>
      in if lru_tail pm4 = None then pm4\<lparr>lru_tail := Some pme\<rparr> else pm4)"

definition remove_lru :: "map_state \<Rightarrow> addr \<Rightarrow> map_state option" where
  "remove_lru pm pme =
     (let pm1 = (if clock_hand pm = Some pme then pm\<lparr>clock_hand := next_lru (store pm pme)\<rparr> else pm) in
      do {
        pm2 \<leftarrow> (case next_lru (store pm1 pme) of
                 None \<Rightarrow> do {
                   _ \<leftarrow> map_assert (lru_tail pm1 = Some pme);
                   Some (pm1\<lparr>lru_tail := prev_lru (store pm1 pme)\<rparr>)
                 }
               | Some n \<Rightarrow> Some (upd n (prev_lru_update (\<lambda>_. prev_lru (store pm1 pme))) pm1));
        (case prev_lru (store pm2 pme) of
           None \<Rightarrow> do {
             _ \<leftarrow> map_assert (lru_head pm2 = Some pme);
             Some (pm2\<lparr>lru_head := next_lru (store pm2 pme)\<rparr>)
           }
         | Some p \<Rightarrow> Some (upd p (next_lru_update (\<lambda>_. next_lru (store pm2 pme))) pm2))
      })"

definition update_lru :: "map_state \<Rightarrow> addr \<Rightarrow> map_state" where
  "update_lru pm pme = upd pme (me_ref_update (\<lambda>_. True)) pm"

section \<open>Buckets\<close>

text \<open>
  The loops over a bucket: the first entry that satisfies the test, with the entry before it
  (\<^term>\<open>None\<close> for the head), which together are what the code keeps in \<open>ppme\<close>.
\<close>

partial_function (option) bucket_walk ::
  "(addr \<Rightarrow> bool) \<Rightarrow> (addr \<Rightarrow> addr option) \<Rightarrow> addr option \<Rightarrow> addr option \<Rightarrow> (addr option \<times> addr) option option" where
  "bucket_walk test nxt prev p =
     (if p = None then Some None
      else if test (the p) then Some (Some (prev, the p))
      else bucket_walk test nxt p (nxt (the p)))"

definition set_ppme :: "map_state \<Rightarrow> nat \<Rightarrow> addr option \<Rightarrow> addr option \<Rightarrow> map_state" where
  "set_ppme pm b prev x =
     (case prev of
        None \<Rightarrow> pm\<lparr>buckets := (buckets pm)(b := x)\<rparr>
      | Some p \<Rightarrow> upd p (me_next_update (\<lambda>_. x)) pm)"

definition same_key :: "map_state \<Rightarrow> u64 \<Rightarrow> u64 \<Rightarrow> bool \<Rightarrow> addr \<Rightarrow> bool" where
  "same_key pm key cguid rawobj a \<longleftrightarrow>
     me_key (store pm a) = key \<and> me_cguid (store pm a) = cguid \<and> me_rawobj (store pm a) = rawobj"

definition find_pme :: "map_state \<Rightarrow> u64 \<Rightarrow> bool \<Rightarrow> u64 \<Rightarrow> (addr option \<times> nat) option" where
  "find_pme pm key rawobj cguid =
     (let h = map_bucket (nbuckets pm) key cguid in
      do {
        _ \<leftarrow> map_assert (nbuckets pm \<noteq> 0);
        r \<leftarrow> bucket_walk (same_key pm key cguid rawobj) (\<lambda>a. me_next (store pm a)) None (buckets pm h);
        Some (map_option snd r, h)
      })"

section \<open>Replacement\<close>

partial_function (option) clock_scan :: "addr \<Rightarrow> map_state \<Rightarrow> addr \<Rightarrow> (map_state \<times> addr option) option" where
  "clock_scan start_pme pm pme =
     (if me_ref (store pm pme) \<or> refcnt (store pm pme) \<noteq> 0
      then let pm1 = upd pme (me_ref_update (\<lambda>_. False)) pm in
        do {
          pme' \<leftarrow> (case next_lru (store pm1 pme) of None \<Rightarrow> lru_head pm1 | Some n \<Rightarrow> Some n);
          if pme' = start_pme then Some (pm1, None) else clock_scan start_pme pm1 pme'
        }
      else Some (pm, Some pme))"

definition try_replace_lru :: "map_state \<Rightarrow> (map_state \<times> bool) option" where
  "try_replace_lru pm = do {
     pme \<leftarrow> (case clock_hand pm of None \<Rightarrow> lru_head pm | Some a \<Rightarrow> Some a);
     (pm1, victim) \<leftarrow> clock_scan pme pm pme;
     (case victim of
        None \<Rightarrow> Some (pm1, False)
      | Some v \<Rightarrow> do {
          let pm2 = pm1\<lparr>clock_hand := next_lru (store pm1 v)\<rparr>;
          let b = me_bucket (store pm2 v);
          r \<leftarrow> bucket_walk (\<lambda>a. a = v) (\<lambda>a. me_next (store pm2 a)) None (buckets pm2 b);
          (prev, _) \<leftarrow> r;
          let pm3 = set_ppme pm2 b prev (me_next (store pm2 v));
          pm4 \<leftarrow> remove_lru pm3 v;
          let pm5 = callback (pm4\<lparr>n_entries := n_entries pm4 - 1\<rparr>) v;
          Some (free_pme pm5 v, True)
        })
   }"

text \<open>The loop of \<open>replace_lru\<close>, which gives back the entries above the limit.\<close>

function replace_extra :: "nat \<Rightarrow> map_state \<Rightarrow> map_state option" where
  "replace_extra n pm =
     (if n = 0 then Some (pm\<lparr>extra_pme := n\<rparr>)
      else (case try_replace_lru pm of
              None \<Rightarrow> None
            | Some (pm1, r) \<Rightarrow> if r then replace_extra (n - 1) pm1 else Some (pm1\<lparr>extra_pme := n\<rparr>)))"
  by pat_completeness auto
termination
  by (relation "measure fst") auto

declare replace_extra.simps [simp del]

definition replace_lru :: "map_state \<Rightarrow> map_state option" where
  "replace_lru pm = do {
     (pm1, r) \<leftarrow> try_replace_lru pm;
     if \<not> r then Some (pm1\<lparr>extra_pme := extra_pme pm1 + 1\<rparr>) else replace_extra (extra_pme pm1) pm1
   }"

section \<open>Operations\<close>

definition MapInit :: "nat \<Rightarrow> nat \<Rightarrow> map_state" where
  "MapInit nb limit = \<lparr>nbuckets = nb, max_entries = limit, n_entries = 0, buckets = (\<lambda>_. None), lru_head = None,
     lru_tail = None, clock_hand = None, NEntries = 0, NUsedEntries = 0, FreeEntries = None, EntryBlocks = [],
     extra_pme = 0, store = (\<lambda>_. zero_entry), next_addr = 0, replaced = []\<rparr>"

definition MapNEntries :: "map_state \<Rightarrow> nat" where
  "MapNEntries pm = n_entries pm"

text \<open>The lines \<open>MapCreate\<close> and \<open>MapSet\<close> share: a new entry in bucket \<open>h\<close>.\<close>

definition new_pme :: "map_state \<Rightarrow> nat \<Rightarrow> u64 \<Rightarrow> u64 \<Rightarrow> u64 \<Rightarrow> u64 \<Rightarrow> bool \<Rightarrow> (map_state \<times> addr) option" where
  "new_pme pm h key pdata datalen cguid rawobj = do {
     (pm1, pme) \<leftarrow> create_pme pm key pdata datalen rawobj cguid;
     let pm2 = upd pme (\<lambda>m. m\<lparr>refcnt := 1, me_bucket := h, me_next := buckets pm1 h\<rparr>) pm1;
     let pm3 = pm2\<lparr>buckets := (buckets pm2)(h := Some pme), n_entries := n_entries pm2 + 1\<rparr>;
     let pm4 = insert_lru pm3 pme;
     pm5 \<leftarrow> (if max_entries pm4 > 0 \<and> n_entries pm4 > max_entries pm4 then replace_lru pm4 else Some pm4);
     Some (pm5, pme)
   }"

definition MapCreate :: "map_state \<Rightarrow> u64 \<Rightarrow> u64 \<Rightarrow> u64 \<Rightarrow> u64 \<Rightarrow> bool \<Rightarrow> (map_state \<times> addr option) option" where
  "MapCreate pm key pdata datalen cguid rawobj = do {
     (r, h) \<leftarrow> find_pme pm key rawobj cguid;
     (case r of
        Some _ \<Rightarrow> Some (pm, None)
      | None \<Rightarrow> do {
          (pm1, pme) \<leftarrow> new_pme pm h key pdata datalen cguid rawobj;
          Some (pm1, Some pme)
        })
   }"

definition MapUpdate :: "map_state \<Rightarrow> u64 \<Rightarrow> u64 \<Rightarrow> u64 \<Rightarrow> u64 \<Rightarrow> bool \<Rightarrow> (map_state \<times> addr option) option" where
  "MapUpdate pm key pdata datalen cguid rawobj = do {
     (r, h) \<leftarrow> find_pme pm key rawobj cguid;
     Some (case r of
        None \<Rightarrow> (pm, None)
      | Some a \<Rightarrow>
          (let pm1 = (if max_entries pm \<noteq> 0 then update_lru pm a else pm)
           in (upd a (\<lambda>m. m\<lparr>contents := pdata, me_datalen := datalen\<rparr>) (callback pm1 a), Some a)))
   }"

text \<open>Old contents and length come with the entry.  The callback gets no key here.\<close>

definition MapSet ::
  "map_state \<Rightarrow> u64 \<Rightarrow> u64 \<Rightarrow> u64 \<Rightarrow> u64 \<Rightarrow> bool \<Rightarrow> (map_state \<times> addr \<times> u64 \<times> u64) option" where
  "MapSet pm key pdata datalen cguid rawobj = do {
     (r, h) \<leftarrow> find_pme pm key rawobj cguid;
     (case r of
        Some a \<Rightarrow>
          (let old = store pm a;
               pm1 = pm\<lparr>replaced := replaced pm @ [(0, contents old, me_datalen old)]\<rparr>;
               pm2 = upd a (\<lambda>m. m\<lparr>contents := pdata, me_datalen := datalen\<rparr>) pm1;
               pm3 = (if max_entries pm2 \<noteq> 0 then update_lru pm2 a else pm2)
           in Some (pm3, a, contents old, me_datalen old))
      | None \<Rightarrow> do {
          (pm1, pme) \<leftarrow> new_pme pm h key pdata datalen cguid rawobj;
          Some (pm1, pme, 0, 0)
        })
   }"

definition MapGet :: "map_state \<Rightarrow> u64 \<Rightarrow> u64 \<Rightarrow> bool \<Rightarrow> (map_state \<times> (u64 \<times> u64) option) option" where
  "MapGet pm key cguid rawobj = do {
     (r, h) \<leftarrow> find_pme pm key rawobj cguid;
     (case r of
        None \<Rightarrow> Some (pm, None)
      | Some a \<Rightarrow> do {
          _ \<leftarrow> map_assert (key AND META_LOGICAL_ID_MASK \<noteq> 0 \<or> refcnt (store pm a) < 10000);
          let pm1 = upd a (\<lambda>m. m\<lparr>refcnt := refcnt m + 1\<rparr>) pm;
          Some (if max_entries pm1 \<noteq> 0 then update_lru pm1 a else pm1,
                Some (contents (store pm a), me_datalen (store pm a)))
        })
   }"

definition MapGetRefcnt :: "map_state \<Rightarrow> u64 \<Rightarrow> u64 \<Rightarrow> bool \<Rightarrow> int option" where
  "MapGetRefcnt pm key cguid rawobj = do {
     (r, h) \<leftarrow> find_pme pm key rawobj cguid;
     a \<leftarrow> r;
     Some (refcnt (store pm a))
   }"

definition MapIncrRefcnt :: "map_state \<Rightarrow> u64 \<Rightarrow> u64 \<Rightarrow> bool \<Rightarrow> (map_state \<times> bool) option" where
  "MapIncrRefcnt pm key cguid rawobj = do {
     (r, h) \<leftarrow> find_pme pm key rawobj cguid;
     Some (case r of
        None \<Rightarrow> (pm, False)
      | Some a \<Rightarrow> (upd a (\<lambda>m. m\<lparr>refcnt := refcnt m + 1\<rparr>) pm, True))
   }"

text \<open>The lines that take an entry out of bucket \<open>h\<close> and of the list, report it and free it.\<close>

definition drop_pme :: "map_state \<Rightarrow> nat \<Rightarrow> addr option \<Rightarrow> addr \<Rightarrow> map_state option" where
  "drop_pme pm h prev pme = do {
     pm1 \<leftarrow> remove_lru pm pme;
     let pm2 = pm1\<lparr>n_entries := n_entries pm1 - 1\<rparr>;
     let pm3 = set_ppme pm2 h prev (me_next (store pm2 pme));
     Some (free_pme (callback pm3 pme) pme)
   }"

text \<open>
  \<open>MapRelease\<close> and \<open>MapReleaseAll\<close> look for a deleted entry again to remove it; they compare the key of
  the entry with \<open>key_ptr\<close>, the address of the caller's key, and not with the key.
\<close>

definition release_deleted :: "map_state \<Rightarrow> u64 \<Rightarrow> u64 \<Rightarrow> u64 \<Rightarrow> bool \<Rightarrow> map_state option" where
  "release_deleted pm key key_ptr cguid rawobj =
     (let h = map_bucket (nbuckets pm) key cguid in
      do {
        r \<leftarrow> bucket_walk (same_key pm key_ptr cguid rawobj) (\<lambda>a. me_next (store pm a)) None (buckets pm h);
        (case r of
           None \<Rightarrow> Some pm
         | Some (prev, a) \<Rightarrow>
             if refcnt (store pm a) = 0 \<and> me_deleted (store pm a) then drop_pme pm h prev a else Some pm)
      })"

definition release_with ::
  "(int \<Rightarrow> int) \<Rightarrow> map_state \<Rightarrow> u64 \<Rightarrow> u64 \<Rightarrow> u64 \<Rightarrow> bool \<Rightarrow> (map_state \<times> bool) option" where
  "release_with f pm key key_ptr cguid rawobj = do {
     (r, h) \<leftarrow> find_pme pm key rawobj cguid;
     (case r of
        None \<Rightarrow> Some (pm, False)
      | Some a \<Rightarrow> do {
          let pm1 = upd a (refcnt_update f) pm;
          pm2 \<leftarrow> (if refcnt (store pm1 a) = 0 \<and> me_deleted (store pm1 a)
                 then release_deleted pm1 key key_ptr cguid rawobj else Some pm1);
          Some (pm2, True)
        })
   }"

definition MapRelease :: "map_state \<Rightarrow> u64 \<Rightarrow> u64 \<Rightarrow> u64 \<Rightarrow> bool \<Rightarrow> (map_state \<times> bool) option" where
  "MapRelease = release_with (\<lambda>n. n - 1)"

definition MapReleaseAll :: "map_state \<Rightarrow> u64 \<Rightarrow> u64 \<Rightarrow> u64 \<Rightarrow> bool \<Rightarrow> (map_state \<times> bool) option" where
  "MapReleaseAll = release_with (\<lambda>_. 0)"

text \<open>The result is true if the object does not exist, the 1 of the code.\<close>

definition MapDelete :: "map_state \<Rightarrow> u64 \<Rightarrow> u64 \<Rightarrow> bool \<Rightarrow> (map_state \<times> bool) option" where
  "MapDelete pm key cguid robj =
     (let h = map_bucket (nbuckets pm) key cguid in
      do {
        _ \<leftarrow> map_assert (nbuckets pm \<noteq> 0);
        r \<leftarrow> bucket_walk (same_key pm key cguid robj) (\<lambda>a. me_next (store pm a)) None (buckets pm h);
        (case r of
           None \<Rightarrow> Some (pm, True)
         | Some (prev, a) \<Rightarrow> do {
             let pm1 = upd a (\<lambda>m. m\<lparr>refcnt := refcnt m - 1\<rparr>) pm;
             pm2 \<leftarrow> (if refcnt (store pm1 a) = 0 then drop_pme pm1 h prev a
                    else Some (upd a (me_deleted_update (\<lambda>_. True)) pm1));
             Some (pm2, False)
           })
      })"

section \<open>Removal of many entries\<close>

text \<open>\<open>MapClean\<close> visits all entries of all blocks; an entry in use has non-null contents.\<close>

fun clean_loop :: "u64 \<Rightarrow> addr list \<Rightarrow> map_state \<Rightarrow> map_state option" where
  "clean_loop cguid [] pm = Some pm"
| "clean_loop cguid (e # es) pm =
     (if contents (store pm e) \<noteq> 0 \<and> me_cguid (store pm e) = cguid
      then do {
        pm1 \<leftarrow> remove_lru pm e;
        let pm2 = callback (pm1\<lparr>n_entries := n_entries pm1 - 1\<rparr>) e;
        let b = me_bucket (store pm2 e);
        r \<leftarrow> bucket_walk (\<lambda>a. a = e) (\<lambda>a. me_next (store pm2 a)) None (buckets pm2 b);
        (prev, _) \<leftarrow> r;
        clean_loop cguid es (free_entry (set_ppme pm2 b prev (me_next (store pm2 e))) e)
      }
      else clean_loop cguid es pm)"

definition MapClean :: "map_state \<Rightarrow> u64 \<Rightarrow> map_state option" where
  "MapClean pm cguid =
     clean_loop cguid (concat (map (\<lambda>b. [b..<b + N_ENTRIES_TO_MALLOC]) (EntryBlocks pm))) pm"

partial_function (option) clear_loop :: "map_state \<Rightarrow> addr option \<Rightarrow> map_state option" where
  "clear_loop pm p =
     (if p = None then Some pm
      else let nxt = next_lru (store pm (the p));
               pm1 = pm\<lparr>buckets := (buckets pm)(me_bucket (store pm (the p)) := None)\<rparr>
           in clear_loop (free_pme pm1 (the p)) nxt)"

definition MapClear :: "map_state \<Rightarrow> map_state option" where
  "MapClear pm = do {
     pm1 \<leftarrow> clear_loop pm (lru_head pm);
     Some (pm1\<lparr>n_entries := 0, lru_head := None, lru_tail := None\<rparr>)
   }"

end
