(* ===== verification/Btree_Map_Lists.thy ===== *)
theory Btree_Map_Lists
  imports Btree_Map
begin

text \<open>
  The linked structures of the node cache map as lists: paths along one pointer field, and what the
  pointer operations do to them.  Each field of the store is a function of its own, so that an update
  of one field leaves every list along another field as it is.
\<close>

section \<open>Paths\<close>

primrec lpath :: "(addr \<Rightarrow> addr option) \<Rightarrow> addr option \<Rightarrow> addr list \<Rightarrow> addr option \<Rightarrow> bool" where
  "lpath nx p [] q \<longleftrightarrow> p = q"
| "lpath nx p (a # as) q \<longleftrightarrow> p = Some a \<and> lpath nx (nx a) as q"

abbreviation llist :: "(addr \<Rightarrow> addr option) \<Rightarrow> addr option \<Rightarrow> addr list \<Rightarrow> bool" where
  "llist nx p xs \<equiv> lpath nx p xs None"

lemma lpath_append [simp]: "lpath nx p (xs @ ys) q \<longleftrightarrow> (\<exists>r. lpath nx p xs r \<and> lpath nx r ys q)"
  by (induction xs arbitrary: p) auto

lemma lpath_upd [simp]: "a \<notin> set xs \<Longrightarrow> lpath (nx(a := v)) p xs q = lpath nx p xs q"
  by (induction xs arbitrary: p) auto

lemma lpath_cong: "(\<And>a. a \<in> set xs \<Longrightarrow> nx a = ny a) \<Longrightarrow> lpath nx p xs q = lpath ny p xs q"
  by (induction xs arbitrary: p) auto

lemma llist_unique: "llist nx p xs \<Longrightarrow> llist nx p ys \<Longrightarrow> xs = ys"
proof (induction xs arbitrary: p ys)
  case Nil
  then show ?case by (cases ys) auto
next
  case (Cons a xs)
  then show ?case by (cases ys) auto
qed

lemma llist_distinct: "llist nx p xs \<Longrightarrow> distinct xs"
proof (induction xs arbitrary: p)
  case (Cons a xs)
  have "a \<notin> set xs"
  proof
    assume "a \<in> set xs"
    then obtain us vs where e: "xs = us @ a # vs" by (meson split_list)
    then have "llist nx (Some a) (a # vs)" using Cons.prems by auto
    then have "a # vs = a # xs" using Cons.prems llist_unique by (metis lpath.simps(2))
    then show False using e by simp
  qed
  then show ?case using Cons by auto
qed simp

text \<open>The last pointer of a path is redirected.\<close>

lemma lpath_redirect:
  assumes "lpath nx p (us @ [l]) q" and "l \<notin> set us"
  shows "lpath (nx(l := r)) p (us @ [l]) r"
  using assms by auto

lemma llist_remove:
  assumes "llist nx p (us @ a # vs)"
  shows "us = [] \<Longrightarrow> llist nx (nx a) vs"
    and "us \<noteq> [] \<Longrightarrow> llist (nx(last us := nx a)) p (us @ vs)"
proof -
  have d: "distinct (us @ a # vs)" by (rule llist_distinct [OF assms])
  show "us = [] \<Longrightarrow> llist nx (nx a) vs" using assms by simp
  assume "us \<noteq> []"
  then obtain ws l where us: "us = ws @ [l]" by (metis append_butlast_last_id)
  have "lpath nx p (ws @ [l]) (Some a)" "llist nx (nx a) vs" using assms us by auto
  moreover have "l \<notin> set ws" "l \<notin> set vs" using d us by auto
  ultimately show "llist (nx(last us := nx a)) p (us @ vs)"
    using lpath_redirect [of nx p ws l "Some a" "nx a"] us by auto
qed

lemma llist_head: "llist nx p xs \<Longrightarrow> p = (if xs = [] then None else Some (hd xs))"
  by (cases xs) auto

lemma llist_next:
  assumes "llist nx p (us @ a # vs)"
  shows "nx a = (if vs = [] then None else Some (hd vs))"
  using assms by (auto dest: llist_head)

section \<open>Walking a bucket\<close>

lemma bucket_walk_None:
  "llist nx p xs \<Longrightarrow> \<forall>a\<in>set xs. \<not> test a \<Longrightarrow> bucket_walk test nx prev p = Some None"
  by (induction xs arbitrary: p prev) (auto simp: bucket_walk.simps)

lemma bucket_walk_Some:
  "llist nx p (us @ a # vs) \<Longrightarrow> \<forall>u\<in>set us. \<not> test u \<Longrightarrow> test a \<Longrightarrow>
     bucket_walk test nx prev p = Some (Some (if us = [] then prev else Some (last us), a))"
proof (induction us arbitrary: p prev)
  case Nil
  then show ?case by (simp add: bucket_walk.simps)
next
  case (Cons u us)
  then show ?case by (auto simp: bucket_walk.simps [of _ _ _ "Some u"])
qed

section \<open>Fields\<close>

abbreviation nxt :: "map_state \<Rightarrow> addr \<Rightarrow> addr option" where "nxt pm \<equiv> \<lambda>a. me_next (store pm a)"
abbreviation nlru :: "map_state \<Rightarrow> addr \<Rightarrow> addr option" where "nlru pm \<equiv> \<lambda>a. next_lru (store pm a)"
abbreviation plru :: "map_state \<Rightarrow> addr \<Rightarrow> addr option" where "plru pm \<equiv> \<lambda>a. prev_lru (store pm a)"

text \<open>Everything about an entry but its pointers.\<close>

definition info :: "map_entry \<Rightarrow> bool \<times> bool \<times> bool \<times> int \<times> u64 \<times> u64 \<times> u64 \<times> u64 \<times> nat" where
  "info m = (me_ref m, me_deleted m, me_rawobj m, refcnt m, me_datalen m, me_cguid m, me_key m, contents m, me_bucket m)"

lemma infoD:
  "info m = info m' \<Longrightarrow> me_ref m = me_ref m' \<and> me_deleted m = me_deleted m' \<and> me_rawobj m = me_rawobj m' \<and>
     refcnt m = refcnt m' \<and> me_datalen m = me_datalen m' \<and> me_cguid m = me_cguid m' \<and> me_key m = me_key m' \<and>
     contents m = contents m' \<and> me_bucket m = me_bucket m'"
  by (simp add: info_def)

section \<open>The list of all entries\<close>

definition lru_list :: "map_state \<Rightarrow> addr list \<Rightarrow> bool" where
  "lru_list pm xs \<longleftrightarrow> llist (nlru pm) (lru_head pm) xs \<and> llist (plru pm) (lru_tail pm) (rev xs)"

lemma lru_list_distinct: "lru_list pm xs \<Longrightarrow> distinct xs"
  using llist_distinct by (auto simp: lru_list_def)

text \<open>What \<open>remove_lru\<close> and \<open>insert_lru\<close> leave alone.\<close>

definition same_but_lru :: "map_state \<Rightarrow> map_state \<Rightarrow> bool" where
  "same_but_lru pm pm' \<longleftrightarrow>
     nxt pm' = nxt pm \<and> (\<forall>a. info (store pm' a) = info (store pm a)) \<and> nbuckets pm' = nbuckets pm \<and>
     max_entries pm' = max_entries pm \<and> n_entries pm' = n_entries pm \<and> buckets pm' = buckets pm \<and>
     NUsedEntries pm' = NUsedEntries pm \<and> FreeEntries pm' = FreeEntries pm \<and> EntryBlocks pm' = EntryBlocks pm \<and>
     extra_pme pm' = extra_pme pm \<and> next_addr pm' = next_addr pm \<and> replaced pm' = replaced pm"

lemma insert_lru_list:
  assumes "lru_list pm xs" and "a \<notin> set xs"
  shows "lru_list (insert_lru pm a) (a # xs) \<and> same_but_lru pm (insert_lru pm a) \<and>
     clock_hand (insert_lru pm a) = clock_hand pm"
proof (cases xs)
  case Nil
  then show ?thesis
    using assms by (auto simp: lru_list_def insert_lru_def upd_def Let_def same_but_lru_def info_def)
next
  case (Cons h ys)
  have d: "distinct xs" by (rule lru_list_distinct [OF assms(1)])
  have h: "lru_head pm = Some h" "h \<noteq> a" "a \<notin> set ys" "h \<notin> set ys"
    using assms Cons d by (auto simp: lru_list_def)
  have t: "lru_tail pm \<noteq> None"
    using assms(1) Cons llist_head [of "plru pm" "lru_tail pm" "rev xs"] by (auto simp: lru_list_def)
  have n: "nlru (insert_lru pm a) = (nlru pm)(a := Some h)" "plru (insert_lru pm a) = (plru pm)(h := Some a, a := None)"
    "lru_head (insert_lru pm a) = Some a" "lru_tail (insert_lru pm a) = lru_tail pm"
    using h t by (auto simp: insert_lru_def upd_def Let_def fun_eq_iff)
  have "llist (plru pm) (lru_tail pm) (rev ys @ [h])" using assms(1) Cons by (simp add: lru_list_def)
  then have "llist ((plru pm)(h := Some a, a := None)) (lru_tail pm) (rev ys @ [h, a])"
    using h by auto
  then have "lru_list (insert_lru pm a) (a # xs)"
    unfolding lru_list_def n using assms Cons h by (auto simp: lru_list_def)
  moreover have "same_but_lru pm (insert_lru pm a) \<and> clock_hand (insert_lru pm a) = clock_hand pm"
    using h t by (auto simp: insert_lru_def upd_def Let_def same_but_lru_def info_def fun_eq_iff)
  ultimately show ?thesis by blast
qed

lemma remove_lru_list:
  assumes "lru_list pm (us @ a # vs)"
  shows "\<exists>pm'. remove_lru pm a = Some pm' \<and> lru_list pm' (us @ vs) \<and> same_but_lru pm pm' \<and>
     clock_hand pm' = (if clock_hand pm = Some a then nlru pm a else clock_hand pm)"
proof -
  have L: "llist (nlru pm) (lru_head pm) (us @ a # vs)" and R: "llist (plru pm) (lru_tail pm) (rev vs @ a # rev us)"
    using assms by (simp_all add: lru_list_def)
  have d: "distinct (us @ a # vs)" by (rule lru_list_distinct [OF assms])
  have n: "nlru pm a = (if vs = [] then None else Some (hd vs))" by (rule llist_next [OF L])
  have p: "plru pm a = (if us = [] then None else Some (last us))"
    using llist_next [OF R] by (simp add: hd_rev)
  have h: "us = [] \<Longrightarrow> lru_head pm = Some a" and t: "vs = [] \<Longrightarrow> lru_tail pm = Some a"
    using L R by simp_all
  have hv: "vs \<noteq> [] \<Longrightarrow> hd vs \<noteq> a" and lu: "us \<noteq> [] \<Longrightarrow> last us \<noteq> a"
    using d by (cases vs; force) (use d in \<open>metis disjoint_insert(1) distinct_append last_in_set list.set_intros(1) disjoint_iff\<close>)
  define pm' where "pm' = (let pm1 = (if clock_hand pm = Some a then pm\<lparr>clock_hand := nlru pm a\<rparr> else pm);
       pm2 = (if vs = [] then pm1\<lparr>lru_tail := plru pm a\<rparr> else upd (hd vs) (prev_lru_update (\<lambda>_. plru pm a)) pm1)
     in if us = [] then pm2\<lparr>lru_head := nlru pm a\<rparr> else upd (last us) (next_lru_update (\<lambda>_. nlru pm a)) pm2)"
  have r: "remove_lru pm a = Some pm'"
    using n p h t hv lu unfolding remove_lru_def pm'_def
    by (cases "us = []"; cases "vs = []") (simp_all add: Let_def map_assert_def upd_def)
  have f: "nlru pm' = (if us = [] then nlru pm else (nlru pm)(last us := nlru pm a))"
    "plru pm' = (if vs = [] then plru pm else (plru pm)(hd vs := plru pm a))"
    "lru_head pm' = (if us = [] then nlru pm a else lru_head pm)"
    "lru_tail pm' = (if vs = [] then plru pm a else lru_tail pm)"
    "clock_hand pm' = (if clock_hand pm = Some a then nlru pm a else clock_hand pm)"
    by (auto simp: pm'_def Let_def upd_def fun_eq_iff)
  have "llist (nlru pm') (lru_head pm') (us @ vs)"
    using llist_remove [OF L] unfolding f by (cases "us = []") simp_all
  moreover have "llist (plru pm') (lru_tail pm') (rev vs @ rev us)"
    using llist_remove [OF R] unfolding f by (cases "vs = []") (simp_all add: last_rev)
  moreover have "same_but_lru pm pm'"
    by (auto simp: pm'_def Let_def upd_def same_but_lru_def info_def fun_eq_iff)
  ultimately show ?thesis using r f(5) by (simp add: lru_list_def)
qed

section \<open>Buckets\<close>

lemma set_ppme_list:
  assumes "llist (nxt pm) (buckets pm h) (us @ a # vs)" and "prev = (if us = [] then None else Some (last us))"
  shows "llist (nxt (set_ppme pm h prev (nxt pm a))) (buckets (set_ppme pm h prev (nxt pm a)) h) (us @ vs)"
    and "h' \<noteq> h \<Longrightarrow> set xs \<inter> set us = {} \<Longrightarrow> llist (nxt pm) (buckets pm h') xs \<Longrightarrow>
      llist (nxt (set_ppme pm h prev (nxt pm a))) (buckets (set_ppme pm h prev (nxt pm a)) h') xs"
    and "set xs \<inter> set us = {} \<Longrightarrow> llist (nxt pm) p xs \<Longrightarrow> llist (nxt (set_ppme pm h prev (nxt pm a))) p xs"
proof -
  have f: "nxt (set_ppme pm h prev (nxt pm a)) = (if us = [] then nxt pm else (nxt pm)(last us := nxt pm a))"
    "buckets (set_ppme pm h prev (nxt pm a)) = (if us = [] then (buckets pm)(h := nxt pm a) else buckets pm)"
    using assms(2) by (auto simp: set_ppme_def upd_def fun_eq_iff)
  show "llist (nxt (set_ppme pm h prev (nxt pm a))) (buckets (set_ppme pm h prev (nxt pm a)) h) (us @ vs)"
    using llist_remove [OF assms(1)] unfolding f by (cases "us = []") simp_all
  have l: "us \<noteq> [] \<Longrightarrow> set xs \<inter> set us = {} \<Longrightarrow> last us \<notin> set xs"
    using last_in_set by blast
  show "h' \<noteq> h \<Longrightarrow> set xs \<inter> set us = {} \<Longrightarrow> llist (nxt pm) (buckets pm h') xs \<Longrightarrow>
      llist (nxt (set_ppme pm h prev (nxt pm a))) (buckets (set_ppme pm h prev (nxt pm a)) h') xs"
    "set xs \<inter> set us = {} \<Longrightarrow> llist (nxt pm) p xs \<Longrightarrow> llist (nxt (set_ppme pm h prev (nxt pm a))) p xs"
    unfolding f using l by simp_all
qed

text \<open>What \<open>set_ppme\<close> leaves alone.\<close>

lemma set_ppme_same:
  "nlru (set_ppme pm h prev x) = nlru pm" "plru (set_ppme pm h prev x) = plru pm"
  "info (store (set_ppme pm h prev x) b) = info (store pm b)"
  "lru_head (set_ppme pm h prev x) = lru_head pm" "lru_tail (set_ppme pm h prev x) = lru_tail pm"
  "clock_hand (set_ppme pm h prev x) = clock_hand pm" "n_entries (set_ppme pm h prev x) = n_entries pm"
  "nbuckets (set_ppme pm h prev x) = nbuckets pm" "max_entries (set_ppme pm h prev x) = max_entries pm"
  "FreeEntries (set_ppme pm h prev x) = FreeEntries pm" "NUsedEntries (set_ppme pm h prev x) = NUsedEntries pm"
  "EntryBlocks (set_ppme pm h prev x) = EntryBlocks pm" "extra_pme (set_ppme pm h prev x) = extra_pme pm"
  "next_addr (set_ppme pm h prev x) = next_addr pm" "replaced (set_ppme pm h prev x) = replaced pm"
  by (auto simp: set_ppme_def upd_def info_def fun_eq_iff split: option.splits)

end
