(* ===== verification/Btree_Map_Correct.thy ===== *)
theory Btree_Map_Correct
  imports Btree_Map_Lists
begin

text \<open>
  The invariant of the node cache map, and what each operation does to it: entries join and leave the
  bucket lists, the list of all entries and the free list together.
\<close>

section \<open>The invariant\<close>

text \<open>The lists of a map: all entries, the entries of each bucket, the free entries.\<close>

definition map_lists :: "map_state \<Rightarrow> addr list \<Rightarrow> (nat \<Rightarrow> addr list) \<Rightarrow> addr list \<Rightarrow> bool" where
  "map_lists pm lru bk fr \<longleftrightarrow>
     lru_list pm lru \<and> (\<forall>h. llist (nxt pm) (buckets pm h) (bk h)) \<and> llist (nxt pm) (FreeEntries pm) fr"

definition entry_key :: "map_state \<Rightarrow> addr \<Rightarrow> u64 \<times> u64 \<times> bool" where
  "entry_key pm a = (me_key (store pm a), me_cguid (store pm a), me_rawobj (store pm a))"

definition block_addrs :: "map_state \<Rightarrow> addr set" where
  "block_addrs pm = (\<Union>b\<in>set (EntryBlocks pm). {b..<b + N_ENTRIES_TO_MALLOC})"

definition map_static :: "map_state \<Rightarrow> addr list \<Rightarrow> (nat \<Rightarrow> addr list) \<Rightarrow> addr list \<Rightarrow> bool" where
  "map_static pm lru bk fr \<longleftrightarrow>
     0 < nbuckets pm \<and>
     (\<forall>h a. a \<in> set (bk h) \<longleftrightarrow> a \<in> set lru \<and> me_bucket (store pm a) = h) \<and>
     (\<forall>a\<in>set lru. me_bucket (store pm a) = map_bucket (nbuckets pm) (me_key (store pm a)) (me_cguid (store pm a))) \<and>
     inj_on (entry_key pm) (set lru) \<and> set fr \<inter> set lru = {} \<and> (\<forall>a\<in>set fr. contents (store pm a) = 0) \<and>
     n_entries pm = length lru \<and> NUsedEntries pm = length lru \<and>
     (\<forall>a. clock_hand pm = Some a \<longrightarrow> a \<in> set lru) \<and>
     set lru \<union> set fr = block_addrs pm \<and> (\<forall>a\<in>block_addrs pm. a < next_addr pm)"

definition map_wf :: "map_state \<Rightarrow> addr list \<Rightarrow> (nat \<Rightarrow> addr list) \<Rightarrow> addr list \<Rightarrow> bool" where
  "map_wf pm lru bk fr \<longleftrightarrow> map_lists pm lru bk fr \<and> map_static pm lru bk fr"

definition map_ok :: "map_state \<Rightarrow> bool" where
  "map_ok pm \<longleftrightarrow> (\<exists>lru bk fr. map_wf pm lru bk fr)"

lemma map_wfD:
  assumes "map_wf pm lru bk fr"
  shows "0 < nbuckets pm" and "lru_list pm lru" and "llist (nxt pm) (buckets pm h) (bk h)"
    and "llist (nxt pm) (FreeEntries pm) fr"
    and "a \<in> set (bk h) \<longleftrightarrow> a \<in> set lru \<and> me_bucket (store pm a) = h"
    and "a \<in> set lru \<Longrightarrow> me_bucket (store pm a) = map_bucket (nbuckets pm) (me_key (store pm a)) (me_cguid (store pm a))"
    and "inj_on (entry_key pm) (set lru)" and "set fr \<inter> set lru = {}"
    and "a \<in> set fr \<Longrightarrow> contents (store pm a) = 0"
    and "n_entries pm = length lru" and "NUsedEntries pm = length lru"
    and "clock_hand pm = Some a \<Longrightarrow> a \<in> set lru" and "set lru \<union> set fr = block_addrs pm"
    and "a \<in> block_addrs pm \<Longrightarrow> a < next_addr pm"
  using assms unfolding map_wf_def map_lists_def map_static_def by blast+

lemma map_ok_init: "0 < nb \<Longrightarrow> map_wf (MapInit nb limit) [] (\<lambda>_. []) []"
  by (simp add: map_wf_def map_lists_def map_static_def lru_list_def MapInit_def block_addrs_def)

section \<open>Lookup\<close>

text \<open>What a client knows of an entry: contents, length, reference count and deletion mark.\<close>

definition payload :: "map_entry \<Rightarrow> u64 \<times> u64 \<times> int \<times> bool" where
  "payload m = (contents m, me_datalen m, refcnt m, me_deleted m)"

definition map_lookup :: "map_state \<Rightarrow> u64 \<times> u64 \<times> bool \<Rightarrow> (u64 \<times> u64 \<times> int \<times> bool) option" where
  "map_lookup pm = (\<lambda>(key, cguid, rawobj).
     case find_pme pm key rawobj cguid of Some (Some a, _) \<Rightarrow> Some (payload (store pm a)) | _ \<Rightarrow> None)"

lemma same_key_iff: "same_key pm key cguid rawobj a \<longleftrightarrow> entry_key pm a = (key, cguid, rawobj)"
  by (simp add: same_key_def entry_key_def)

lemma wf_bucket:
  assumes "map_wf pm lru bk fr" and "a \<in> set lru"
  shows "a \<in> set (bk (map_bucket (nbuckets pm) (me_key (store pm a)) (me_cguid (store pm a))))"
  using map_wfD(5,6) [OF assms(1)] assms(2) by simp

lemma walk_absent:
  assumes wf: "map_wf pm lru bk fr" and "\<forall>a\<in>set lru. entry_key pm a \<noteq> (key, cguid, rawobj)"
  shows "bucket_walk (same_key pm key cguid rawobj) (nxt pm) None (buckets pm h) = Some None"
proof (rule bucket_walk_None)
  show "llist (nxt pm) (buckets pm h) (bk h)" by (rule map_wfD(3) [OF wf])
  show "\<forall>a\<in>set (bk h). \<not> same_key pm key cguid rawobj a"
    using map_wfD(5) [OF wf] assms(2) by (simp add: same_key_iff)
qed

lemma walk_present:
  assumes wf: "map_wf pm lru bk fr" and a: "a \<in> set lru" "entry_key pm a = (key, cguid, rawobj)"
    and h: "h = map_bucket (nbuckets pm) key cguid"
  obtains us vs where "bk h = us @ a # vs"
    and "bucket_walk (same_key pm key cguid rawobj) (nxt pm) None (buckets pm h)
       = Some (Some (if us = [] then None else Some (last us), a))"
proof -
  have L: "llist (nxt pm) (buckets pm h) (bk h)" by (rule map_wfD(3) [OF wf])
  have "a \<in> set (bk h)" using wf_bucket [OF wf a(1)] a(2) h by (auto simp: entry_key_def)
  then obtain us vs where s: "bk h = us @ a # vs" by (meson split_list)
  have d: "distinct (us @ a # vs)" using llist_distinct [OF L] s by simp
  have "\<not> same_key pm key cguid rawobj u" if u: "u \<in> set us" for u
  proof
    assume "same_key pm key cguid rawobj u"
    moreover have "u \<in> set lru" using map_wfD(5) [OF wf, of u h] u s by simp
    ultimately have "u = a"
      using inj_onD [OF map_wfD(7) [OF wf]] a by (simp add: same_key_iff)
    then show False using d u by auto
  qed
  then have "bucket_walk (same_key pm key cguid rawobj) (nxt pm) None (buckets pm h)
       = Some (Some (if us = [] then None else Some (last us), a))"
    using bucket_walk_Some [of "nxt pm" _ us a vs] L s a(2) by (auto simp: same_key_iff)
  then show ?thesis using that s by blast
qed

lemma find_absent:
  assumes "map_wf pm lru bk fr" and "\<forall>a\<in>set lru. entry_key pm a \<noteq> (key, cguid, rawobj)"
  shows "find_pme pm key rawobj cguid = Some (None, map_bucket (nbuckets pm) key cguid)"
  using walk_absent [OF assms] map_wfD(1) [OF assms(1)] by (simp add: find_pme_def map_assert_def)

lemma find_present:
  assumes "map_wf pm lru bk fr" and "a \<in> set lru" and "entry_key pm a = (key, cguid, rawobj)"
  shows "find_pme pm key rawobj cguid = Some (Some a, map_bucket (nbuckets pm) key cguid)"
proof -
  obtain us where "bucket_walk (same_key pm key cguid rawobj) (nxt pm) None (buckets pm (map_bucket (nbuckets pm) key cguid))
       = Some (Some (if us = [] then None else Some (last us), a))"
    using walk_present [OF assms refl] by blast
  then show ?thesis
    using map_wfD(1) [OF assms(1)] by (simp add: find_pme_def map_assert_def)
qed

lemma find_cases:
  assumes "map_wf pm lru bk fr"
  obtains (absent) "\<forall>a\<in>set lru. entry_key pm a \<noteq> (key, cguid, rawobj)"
      "find_pme pm key rawobj cguid = Some (None, map_bucket (nbuckets pm) key cguid)"
  | (present) a where "a \<in> set lru" "entry_key pm a = (key, cguid, rawobj)"
      "find_pme pm key rawobj cguid = Some (Some a, map_bucket (nbuckets pm) key cguid)"
  using find_absent [OF assms] find_present [OF assms] by blast

lemma lookup_present:
  "map_wf pm lru bk fr \<Longrightarrow> a \<in> set lru \<Longrightarrow> entry_key pm a = k \<Longrightarrow> map_lookup pm k = Some (payload (store pm a))"
  by (cases k) (auto simp: map_lookup_def find_present)

lemma lookup_absent:
  "map_wf pm lru bk fr \<Longrightarrow> \<forall>a\<in>set lru. entry_key pm a \<noteq> k \<Longrightarrow> map_lookup pm k = None"
  by (cases k) (auto simp: map_lookup_def find_absent)

lemma lookup_SomeD:
  assumes "map_wf pm lru bk fr" and "map_lookup pm k = Some x"
  obtains a where "a \<in> set lru" and "entry_key pm a = k" and "x = payload (store pm a)"
proof (cases "\<exists>a\<in>set lru. entry_key pm a = k")
  case True
  then show ?thesis using that lookup_present [OF assms(1)] assms(2) by fastforce
next
  case False
  then show ?thesis using lookup_absent [OF assms(1), of k] assms(2) by simp
qed

section \<open>Updates of the data of an entry\<close>

definition keeps_links :: "(map_entry \<Rightarrow> map_entry) \<Rightarrow> bool" where
  "keeps_links f \<longleftrightarrow> (\<forall>m. me_next (f m) = me_next m \<and> next_lru (f m) = next_lru m \<and> prev_lru (f m) = prev_lru m \<and>
     me_bucket (f m) = me_bucket m \<and> me_key (f m) = me_key m \<and> me_cguid (f m) = me_cguid m \<and> me_rawobj (f m) = me_rawobj m)"

lemma keeps_linksD:
  assumes "keeps_links f"
  shows "nxt (upd a f pm) = nxt pm" "nlru (upd a f pm) = nlru pm" "plru (upd a f pm) = plru pm"
    "entry_key (upd a f pm) = entry_key pm" "me_bucket (store (upd a f pm) b) = me_bucket (store pm b)"
    "me_key (store (upd a f pm) b) = me_key (store pm b)" "me_cguid (store (upd a f pm) b) = me_cguid (store pm b)"
  using assms by (auto simp: keeps_links_def upd_def entry_key_def fun_eq_iff)

lemma upd_same [simp]:
  "nbuckets (upd a f pm) = nbuckets pm" "max_entries (upd a f pm) = max_entries pm" "n_entries (upd a f pm) = n_entries pm"
  "buckets (upd a f pm) = buckets pm" "lru_head (upd a f pm) = lru_head pm" "lru_tail (upd a f pm) = lru_tail pm"
  "clock_hand (upd a f pm) = clock_hand pm" "NUsedEntries (upd a f pm) = NUsedEntries pm"
  "FreeEntries (upd a f pm) = FreeEntries pm" "EntryBlocks (upd a f pm) = EntryBlocks pm"
  "extra_pme (upd a f pm) = extra_pme pm" "next_addr (upd a f pm) = next_addr pm" "replaced (upd a f pm) = replaced pm"
  "block_addrs (upd a f pm) = block_addrs pm"
  by (simp_all add: upd_def block_addrs_def)

lemma store_upd: "store (upd a f pm) b = (if b = a then f (store pm a) else store pm b)"
  by (simp add: upd_def)

lemma wf_data:
  assumes wf: "map_wf pm lru bk fr" and f: "keeps_links f" and a: "a \<in> set lru"
  shows "map_wf (upd a f pm) lru bk fr"
proof -
  have "a \<notin> set fr" using map_wfD(8) [OF wf] a by blast
  then have "\<forall>b\<in>set fr. contents (store (upd a f pm) b) = 0"
    using map_wfD(9) [OF wf] by (auto simp: store_upd)
  then show ?thesis
    using wf unfolding map_wf_def map_lists_def map_static_def lru_list_def keeps_linksD [OF f] upd_same by blast
qed

lemma wf_irrelevant [simp]:
  "map_wf (pm\<lparr>replaced := r\<rparr>) lru bk fr = map_wf pm lru bk fr"
  "map_wf (pm\<lparr>extra_pme := x\<rparr>) lru bk fr = map_wf pm lru bk fr"
  by (simp_all add: map_wf_def map_lists_def map_static_def lru_list_def block_addrs_def entry_key_def fun_eq_iff inj_on_def)

section \<open>Removal of an entry\<close>

lemma lists_remove_lru:
  assumes "map_lists pm (us @ a # vs) bk fr"
  shows "\<exists>pm'. remove_lru pm a = Some pm' \<and> map_lists pm' (us @ vs) bk fr \<and> same_but_lru pm pm' \<and>
     clock_hand pm' = (if clock_hand pm = Some a then nlru pm a else clock_hand pm)"
proof -
  obtain pm' where "remove_lru pm a = Some pm'" "lru_list pm' (us @ vs)" "same_but_lru pm pm'"
     "clock_hand pm' = (if clock_hand pm = Some a then nlru pm a else clock_hand pm)"
    using remove_lru_list assms unfolding map_lists_def by blast
  then show ?thesis using assms by (simp add: map_lists_def same_but_lru_def)
qed

lemma lists_set_ppme:
  assumes "map_lists pm lru bk fr" and b: "bk h = us @ a # vs" and p: "prev = (if us = [] then None else Some (last us))"
    and dis: "\<And>h'. h' \<noteq> h \<Longrightarrow> set (bk h') \<inter> set (bk h) = {}" and fr: "set fr \<inter> set (bk h) = {}"
  shows "map_lists (set_ppme pm h prev (nxt pm a)) lru (bk(h := us @ vs)) fr"
proof -
  have L: "llist (nxt pm) (buckets pm h') (bk h')" for h' using assms(1) by (simp add: map_lists_def)
  have l: "llist (nxt pm) (buckets pm h) (us @ a # vs)" using L [of h] b by simp
  note s = set_ppme_list [OF l p]
  have "set (bk h') \<inter> set us = {}" if "h' \<noteq> h" for h' using dis [OF that] b by auto
  moreover have "set fr \<inter> set us = {}" using fr b by auto
  ultimately show ?thesis
    using assms(1) s L by (simp add: map_lists_def lru_list_def set_ppme_same)
qed

lemma lists_free:
  assumes "map_lists pm lru bk fr" and "a \<notin> set lru" and "\<And>h. a \<notin> set (bk h)" and "a \<notin> set fr"
  shows "map_lists (free_entry pm a) lru bk (a # fr)"
proof -
  have "nxt (free_entry pm a) = (nxt pm)(a := FreeEntries pm)" "nlru (free_entry pm a) = (nlru pm)(a := None)"
    "plru (free_entry pm a) = (plru pm)(a := None)" "FreeEntries (free_entry pm a) = Some a"
    "buckets (free_entry pm a) = buckets pm" "lru_head (free_entry pm a) = lru_head pm"
    "lru_tail (free_entry pm a) = lru_tail pm"
    by (auto simp: free_entry_def upd_def fun_eq_iff)
  then show ?thesis
    using assms by (simp add: map_lists_def lru_list_def)
qed

lemma static_remove:
  assumes wf: "map_wf pm lru bk fr" and l: "lru = us @ a # vs" and b: "bk h = bs @ a # cs"
    and info: "\<And>b. b \<noteq> a \<Longrightarrow> info (store pm' b) = info (store pm b)" and z: "contents (store pm' a) = 0"
    and same: "nbuckets pm' = nbuckets pm" "n_entries pm' = n_entries pm - 1" "NUsedEntries pm' = NUsedEntries pm - 1"
      "EntryBlocks pm' = EntryBlocks pm" "next_addr pm' = next_addr pm"
    and clock: "\<And>c. clock_hand pm' = Some c \<Longrightarrow> c \<in> set (us @ vs)"
  shows "map_static pm' (us @ vs) (bk(h := bs @ cs)) (a # fr)"
proof -
  have d: "distinct (us @ a # vs)" using lru_list_distinct [OF map_wfD(2) [OF wf]] l by simp
  have db: "distinct (bs @ a # cs)" using llist_distinct [OF map_wfD(3) [OF wf, of h]] b by simp
  have h: "me_bucket (store pm a) = h" using map_wfD(5) [OF wf, of a h] b by simp
  have i: "me_bucket (store pm' c) = me_bucket (store pm c)" "entry_key pm' c = entry_key pm c"
    "me_key (store pm' c) = me_key (store pm c)" "me_cguid (store pm' c) = me_cguid (store pm c)"
    "contents (store pm' c) = contents (store pm c)" if "c \<noteq> a" for c
    using infoD [OF info [OF that]] by (simp_all add: entry_key_def)
  have na: "a \<notin> set (us @ vs)" using d by simp
  have mem: "c \<in> set ((bk(h := bs @ cs)) h') \<longleftrightarrow> c \<in> set (us @ vs) \<and> me_bucket (store pm' c) = h'" for c h'
  proof (cases "c = a")
    case True
    then show ?thesis using na db map_wfD(5) [OF wf, of a h'] h by auto
  next
    case False
    then have "c \<in> set ((bk(h := bs @ cs)) h') \<longleftrightarrow> c \<in> set (bk h')" using b by auto
    then show ?thesis using False map_wfD(5) [OF wf, of c h'] i(1) [OF False] l by auto
  qed
  have inj: "inj_on (entry_key pm') (set (us @ vs))"
  proof (rule inj_onI)
    fix x y assume x: "x \<in> set (us @ vs)" "y \<in> set (us @ vs)" "entry_key pm' x = entry_key pm' y"
    then have "x \<noteq> a" "y \<noteq> a" using na by auto
    then have "entry_key pm x = entry_key pm y" using x(3) i(2) by simp
    then show "x = y" using inj_onD [OF map_wfD(7) [OF wf]] x(1,2) l by auto
  qed
  have bu: "me_bucket (store pm' c) = map_bucket (nbuckets pm') (me_key (store pm' c)) (me_cguid (store pm' c))"
    if "c \<in> set (us @ vs)" for c
  proof -
    have "c \<noteq> a" using that na by auto
    then show ?thesis using map_wfD(6) [OF wf, of c] that l i same(1) by auto
  qed
  have blocks: "block_addrs pm' = block_addrs pm" by (simp add: block_addrs_def same)
  have "set (a # fr) \<inter> set (us @ vs) = {}" using map_wfD(8) [OF wf] l na by auto
  moreover have "contents (store pm' c) = 0" if "c \<in> set (a # fr)" for c
    using that z i(5) map_wfD(9) [OF wf] by (cases "c = a") auto
  moreover have "set (us @ vs) \<union> set (a # fr) = block_addrs pm'"
    using map_wfD(13) [OF wf] l blocks by auto
  ultimately show ?thesis
    unfolding map_static_def
    using mem inj bu clock same map_wfD(1,10,11,14) [OF wf] l blocks by simp
qed

text \<open>What the removal of the entry \<open>a\<close> leaves of the rest.\<close>

definition without :: "map_state \<Rightarrow> addr \<Rightarrow> map_state \<Rightarrow> bool" where
  "without pm a pm' \<longleftrightarrow> (\<forall>b. b \<noteq> a \<longrightarrow> info (store pm' b) = info (store pm b)) \<and> nbuckets pm' = nbuckets pm \<and>
     max_entries pm' = max_entries pm \<and> extra_pme pm' = extra_pme pm \<and> n_entries pm' = n_entries pm - 1"

lemma bucket_facts:
  assumes wf: "map_wf pm lru bk fr" and a: "a \<in> set (bk h)"
  shows "h' \<noteq> h \<Longrightarrow> set (bk h') \<inter> set (bk h) = {}" and "set fr \<inter> set (bk h) = {}"
    and "a \<notin> set fr" and "a \<in> set lru" and "a \<in> set (bk h') \<Longrightarrow> h' = h"
  using map_wfD(5,8) [OF wf] a by auto

lemma free_entry_same:
  "info (store (free_entry pm a) b) = (if b = a then info (store (free_entry pm a) a) else info (store pm b))"
  "contents (store (free_entry pm a) a) = 0" "nbuckets (free_entry pm a) = nbuckets pm"
  "max_entries (free_entry pm a) = max_entries pm" "extra_pme (free_entry pm a) = extra_pme pm"
  "n_entries (free_entry pm a) = n_entries pm" "NUsedEntries (free_entry pm a) = NUsedEntries pm - 1"
  "EntryBlocks (free_entry pm a) = EntryBlocks pm" "next_addr (free_entry pm a) = next_addr pm"
  "clock_hand (free_entry pm a) = clock_hand pm"
  by (simp_all add: free_entry_def upd_def)

text \<open>After the entry has left both lists, in either order, freeing it completes the removal.\<close>

lemma free_unlinked:
  assumes wf: "map_wf pm (us @ a # vs) bk fr" and b: "bk h = bs @ a # cs"
    and l: "map_lists pm1 (us @ vs) (bk(h := bs @ cs)) fr"
    and same: "\<And>b. info (store pm1 b) = info (store pm b)" "nbuckets pm1 = nbuckets pm" "max_entries pm1 = max_entries pm"
      "extra_pme pm1 = extra_pme pm" "n_entries pm1 = n_entries pm - 1" "NUsedEntries pm1 = NUsedEntries pm"
      "EntryBlocks pm1 = EntryBlocks pm" "next_addr pm1 = next_addr pm"
    and clock: "\<And>c. clock_hand pm1 = Some c \<Longrightarrow> c \<in> set (us @ vs)"
  shows "map_wf (free_entry pm1 a) (us @ vs) (bk(h := bs @ cs)) (a # fr) \<and> without pm a (free_entry pm1 a)"
proof -
  have a: "a \<in> set (bk h)" using b by simp
  note f = bucket_facts [OF wf a]
  have d: "distinct (us @ a # vs)" by (rule lru_list_distinct [OF map_wfD(2) [OF wf]])
  have db: "distinct (bs @ a # cs)" using llist_distinct [OF map_wfD(3) [OF wf, of h]] b by simp
  have "a \<notin> set ((bk(h := bs @ cs)) h')" for h' using f(5) db by auto
  then have "map_lists (free_entry pm1 a) (us @ vs) (bk(h := bs @ cs)) (a # fr)"
    using lists_free [OF l] d f(3) by simp
  moreover have "map_static (free_entry pm1 a) (us @ vs) (bk(h := bs @ cs)) (a # fr)"
    by (rule static_remove [OF wf refl b]) (use same clock in \<open>simp_all add: free_entry_same(2-) free_entry_same(1) [of pm1 a]\<close>)
  ultimately show ?thesis
    using same by (simp add: map_wf_def without_def free_entry_same(2-) free_entry_same(1) [of pm1 a])
qed

lemma lists_irrelevant [simp]:
  "map_lists (pm\<lparr>n_entries := n\<rparr>) lru bk fr = map_lists pm lru bk fr"
  "map_lists (pm\<lparr>clock_hand := c\<rparr>) lru bk fr = map_lists pm lru bk fr"
  "map_lists (pm\<lparr>replaced := r\<rparr>) lru bk fr = map_lists pm lru bk fr"
  by (simp_all add: map_lists_def lru_list_def)

lemma same_but_lruD:
  assumes "same_but_lru pm pm'"
  shows "nxt pm' = nxt pm" "info (store pm' a) = info (store pm a)" "nbuckets pm' = nbuckets pm"
    "max_entries pm' = max_entries pm" "n_entries pm' = n_entries pm" "buckets pm' = buckets pm"
    "NUsedEntries pm' = NUsedEntries pm" "FreeEntries pm' = FreeEntries pm" "EntryBlocks pm' = EntryBlocks pm"
    "extra_pme pm' = extra_pme pm" "next_addr pm' = next_addr pm" "replaced pm' = replaced pm"
  using assms by (simp_all add: same_but_lru_def)

lemma next_lru_in_rest:
  assumes "map_wf pm (us @ a # vs) bk fr" and "nlru pm a = Some c"
  shows "c \<in> set vs"
  using llist_next [of "nlru pm" "lru_head pm" us a vs] map_wfD(2) [OF assms(1)] assms(2)
  by (auto simp: lru_list_def split: if_splits)

lemma remove_clock:
  assumes wf: "map_wf pm (us @ a # vs) bk fr"
    and "clock_hand pm' = (if clock_hand pm = Some a then nlru pm a else clock_hand pm)" and "clock_hand pm' = Some c"
  shows "c \<in> set (us @ vs)"
  using assms(2,3) map_wfD(12) [OF wf, of c] next_lru_in_rest [OF wf, of c] by (auto split: if_splits)

lemma drop_pme_wf:
  assumes wf: "map_wf pm (us @ a # vs) bk fr" and b: "bk h = bs @ a # cs"
    and prev: "prev = (if bs = [] then None else Some (last bs))"
  shows "\<exists>pm'. drop_pme pm h prev a = Some pm' \<and> map_wf pm' (us @ vs) (bk(h := bs @ cs)) (a # fr) \<and> without pm a pm'"
proof -
  have a: "a \<in> set (bk h)" using b by simp
  note f = bucket_facts [OF wf a]
  have L: "map_lists pm (us @ a # vs) bk fr" using wf by (simp add: map_wf_def)
  obtain pm1 where r: "remove_lru pm a = Some pm1" "map_lists pm1 (us @ vs) bk fr" "same_but_lru pm pm1"
     "clock_hand pm1 = (if clock_hand pm = Some a then nlru pm a else clock_hand pm)"
    using lists_remove_lru [OF L] by blast
  define pm2 where "pm2 = pm1\<lparr>n_entries := n_entries pm1 - 1\<rparr>"
  define pm3 where "pm3 = callback (set_ppme pm2 h prev (nxt pm2 a)) a"
  have m2: "map_lists pm2 (us @ vs) bk fr" using r(2) by (simp add: pm2_def)
  have "map_lists (set_ppme pm2 h prev (nxt pm2 a)) (us @ vs) (bk(h := bs @ cs)) fr"
    by (rule lists_set_ppme [OF m2 b prev]) (use f(1,2) in auto)
  then have l3: "map_lists pm3 (us @ vs) (bk(h := bs @ cs)) fr"
    by (simp add: pm3_def callback_def)
  have "map_wf (free_entry pm3 a) (us @ vs) (bk(h := bs @ cs)) (a # fr) \<and> without pm a (free_entry pm3 a)"
    by (rule free_unlinked [OF wf b l3])
      (use same_but_lruD [OF r(3)] remove_clock [OF wf r(4)] in \<open>simp_all add: pm3_def pm2_def callback_def set_ppme_same\<close>)
  then show ?thesis
    using r(1) by (simp add: drop_pme_def free_pme_def pm3_def pm2_def)
qed

lemma walk_addr:
  assumes wf: "map_wf pm lru bk fr" and a: "a \<in> set lru" and h: "h = me_bucket (store pm a)"
  obtains bs cs where "bk h = bs @ a # cs"
    and "bucket_walk (\<lambda>x. x = a) (nxt pm) None (buckets pm h) = Some (Some (if bs = [] then None else Some (last bs), a))"
proof -
  have L: "llist (nxt pm) (buckets pm h) (bk h)" by (rule map_wfD(3) [OF wf])
  have "a \<in> set (bk h)" using map_wfD(5) [OF wf, of a h] a h by simp
  then obtain bs cs where s: "bk h = bs @ a # cs" by (meson split_list)
  have "\<forall>u\<in>set bs. u \<noteq> a" using llist_distinct [OF L] s by auto
  then show ?thesis using that [OF s] bucket_walk_Some [of "nxt pm" _ bs a cs "\<lambda>x. x = a" None] L s by simp
qed

end
