(* ===== verification/Btree_Map_Replace.thy ===== *)
theory Btree_Map_Replace
  imports Btree_Map_Correct
begin

text \<open>
  Replacement and creation: the scan of the clock hand ends after at most one round, only entries
  nobody refers to are replaced, and a new entry joins all lists.
\<close>

section \<open>The clock\<close>

definition cleared :: "map_state \<Rightarrow> map_state \<Rightarrow> bool" where
  "cleared pm pm' \<longleftrightarrow> (\<exists>R. (\<forall>a. R a \<longrightarrow> me_ref (store pm a)) \<and> pm' = pm\<lparr>store := \<lambda>a. (store pm a)\<lparr>me_ref := R a\<rparr>\<rparr>)"

lemma cleared_refl: "cleared pm pm"
  unfolding cleared_def by (rule exI [of _ "\<lambda>a. me_ref (store pm a)"]) simp

lemma cleared_trans:
  assumes "cleared pm pm'" and "cleared pm' pm''"
  shows "cleared pm pm''"
proof -
  obtain R R' where "\<forall>a. R a \<longrightarrow> me_ref (store pm a)" "pm' = pm\<lparr>store := \<lambda>a. (store pm a)\<lparr>me_ref := R a\<rparr>\<rparr>"
    "\<forall>a. R' a \<longrightarrow> me_ref (store pm' a)" "pm'' = pm'\<lparr>store := \<lambda>a. (store pm' a)\<lparr>me_ref := R' a\<rparr>\<rparr>"
    using assms unfolding cleared_def by blast
  then show ?thesis unfolding cleared_def by (intro exI [of _ R']) simp
qed

lemma cleared_upd: "cleared pm (upd a (me_ref_update (\<lambda>_. False)) pm)"
  unfolding cleared_def upd_def
  by (rule exI [of _ "\<lambda>b. if b = a then False else me_ref (store pm b)"]) (auto simp: fun_eq_iff)

lemma cleared_wf: "cleared pm pm' \<Longrightarrow> map_wf pm' lru bk fr = map_wf pm lru bk fr"
  unfolding cleared_def
  by (elim exE conjE) (simp add: map_wf_def map_lists_def map_static_def lru_list_def block_addrs_def entry_key_def inj_on_def)

lemma clear_next:
  assumes "nlru pm = f" and "lru_head pm = hp"
  shows "(case next_lru (store (upd p (me_ref_update (\<lambda>_. False)) pm) p) of
            None \<Rightarrow> lru_head (upd p (me_ref_update (\<lambda>_. False)) pm) | Some n \<Rightarrow> Some n)
     = (case f p of None \<Rightarrow> hp | Some n \<Rightarrow> Some n)"
proof -
  have "next_lru (store (upd p (me_ref_update (\<lambda>_. False)) pm) p) = f p"
    using assms(1) by (auto simp: store_upd)
  moreover have "lru_head (upd p (me_ref_update (\<lambda>_. False)) pm) = hp" using assms(2) by simp
  ultimately show ?thesis by presburger
qed

text \<open>The scan visits the entries of \<open>ord\<close>, each followed by the next one and the last by the start.  It
  ends after at most one round, with an entry that is neither referenced nor recently used, or
  without one if there is none.\<close>

lemma clock_scan_ends:
  assumes "\<And>xs x y ys. s # rest = xs @ x # y # ys \<Longrightarrow> (case f x of None \<Rightarrow> hp | Some n \<Rightarrow> Some n) = Some y"
    and "(case f (last (s # rest)) of None \<Rightarrow> hp | Some n \<Rightarrow> Some n) = Some s"
    and "distinct (s # rest)" and "s # rest = pre @ p # todo" and "nlru pm = f" and "lru_head pm = hp"
  shows "\<exists>pm' v. clock_scan s pm p = Some (pm', v) \<and> cleared pm pm' \<and>
     (\<forall>a. v = Some a \<longrightarrow> a \<in> set (p # todo) \<and> refcnt (store pm a) = 0 \<and> \<not> me_ref (store pm a)) \<and>
     (v = None \<longrightarrow> (\<forall>a\<in>set (p # todo). (me_ref (store pm a) \<or> refcnt (store pm a) \<noteq> 0) \<and> \<not> me_ref (store pm' a)))"
  using assms(4-6)
proof (induction todo arbitrary: pre p pm)
  case Nil
  let ?pm1 = "upd p (me_ref_update (\<lambda>_. False)) pm"
  have "p = last (s # rest)" using Nil(1) by simp
  then have "(case nlru ?pm1 p of None \<Rightarrow> lru_head ?pm1 | Some n \<Rightarrow> Some n) = Some s"
    unfolding clear_next [OF Nil(2,3)] using assms(2) by simp
  moreover have "\<not> me_ref (store ?pm1 p)" by (simp add: store_upd)
  ultimately show ?case
    using cleared_refl [of pm] cleared_upd [of pm p]
    by (cases "me_ref (store pm p) \<or> refcnt (store pm p) \<noteq> 0") (auto simp: clock_scan.simps [of s pm p] Let_def)
next
  case (Cons q todo)
  let ?pm1 = "upd p (me_ref_update (\<lambda>_. False)) pm"
  show ?case
  proof (cases "me_ref (store pm p) \<or> refcnt (store pm p) \<noteq> 0")
    case False
    then show ?thesis using cleared_refl [of pm] by (auto simp: clock_scan.simps [of s pm p])
  next
    case True
    have n: "(case nlru ?pm1 p of None \<Rightarrow> lru_head ?pm1 | Some n \<Rightarrow> Some n) = Some q"
      unfolding clear_next [OF Cons.prems(2,3)] by (rule assms(1) [OF Cons.prems(1)])
    have q: "q \<noteq> s" "p \<notin> set (q # todo)"
      using assms(3) Cons.prems(1) by (cases pre; auto)+
    have "nlru ?pm1 = f" using Cons.prems(2) by (auto simp: store_upd fun_eq_iff)
    then obtain pm' v where r: "clock_scan s ?pm1 q = Some (pm', v)" "cleared ?pm1 pm'"
      "\<forall>a. v = Some a \<longrightarrow> a \<in> set (q # todo) \<and> refcnt (store ?pm1 a) = 0 \<and> \<not> me_ref (store ?pm1 a)"
      "v = None \<longrightarrow> (\<forall>a\<in>set (q # todo). (me_ref (store ?pm1 a) \<or> refcnt (store ?pm1 a) \<noteq> 0) \<and> \<not> me_ref (store pm' a))"
      using Cons.IH [of "pre @ [p]" q ?pm1] Cons.prems by auto
    have same: "store ?pm1 a = store pm a" if "a \<in> set (q # todo)" for a
      using that q(2) by (auto simp: store_upd)
    have "clock_scan s pm p = Some (pm', v)"
      using True n q(1) r(1) by (simp add: clock_scan.simps [of s pm p] Let_def)
    moreover have "\<not> me_ref (store pm' p)" using r(2) by (auto simp: cleared_def store_upd)
    ultimately show ?thesis
      using r(3,4) same True cleared_trans [OF cleared_upd r(2)] by auto
  qed
qed

lemma clock_order:
  assumes L: "llist nx p (us @ s # vs)"
  shows "s # vs @ us = xs @ x # y # ys \<Longrightarrow> (case nx x of None \<Rightarrow> p | Some n \<Rightarrow> Some n) = Some y"
    and "(case nx (last (s # vs @ us)) of None \<Rightarrow> p | Some n \<Rightarrow> Some n) = Some s"
proof -
  have adj: "nx a = Some b" if "us @ s # vs = as @ a # b # bs" for a b as bs
    using llist_next [of nx p as a "b # bs"] L that by simp
  have end0: "nx a = None" if "us @ s # vs = as @ [a]" for a as
    using llist_next [of nx p as a "[]"] L that by simp
  have hd0: "p = Some b" if "us = b # bs" for b bs using L that by simp
  show "(case nx (last (s # vs @ us)) of None \<Rightarrow> p | Some n \<Rightarrow> Some n) = Some s"
  proof (cases us rule: rev_cases)
    case Nil
    have "nx (last (s # vs)) = None"
      by (rule end0 [of "butlast (s # vs)"]) (simp add: Nil append_butlast_last_id del: last.simps butlast.simps)
    then show ?thesis using L Nil by simp
  next
    case (snoc ws w)
    then show ?thesis using adj [of ws w s vs] by simp
  qed
  assume e: "s # vs @ us = xs @ x # y # ys"
  then have "(s # vs) @ us = (xs @ [x]) @ y # ys" by simp
  then consider ws where "s # vs = (xs @ [x]) @ ws" "ws @ us = y # ys" | ws where "(s # vs) @ ws = xs @ [x]" "us = ws @ y # ys"
    using append_eq_append_conv2 [of "s # vs" us "xs @ [x]" "y # ys"] by blast
  then show "(case nx x of None \<Rightarrow> p | Some n \<Rightarrow> Some n) = Some y"
  proof cases
    case 1
    show ?thesis
    proof (cases ws)
      case Nil
      then show ?thesis using 1 end0 [of "us @ xs" x] hd0 [of y ys] by simp
    next
      case (Cons w ws')
      then show ?thesis using 1 adj [of "us @ xs" x y ws'] by simp
    qed
  next
    case 2
    show ?thesis
    proof (cases ws rule: rev_cases)
      case Nil
      then show ?thesis using 2 end0 [of "us @ xs" x] hd0 [of y ys] by simp
    next
      case (snoc ws' w)
      then have "w = x" using 2(1) by (metis append_assoc last_snoc)
      then show ?thesis using 2 snoc adj [of ws' x y "ys @ s # vs"] by simp
    qed
  qed
qed

definition same_data :: "map_state \<Rightarrow> map_state \<Rightarrow> addr \<Rightarrow> bool" where
  "same_data pm pm' b \<longleftrightarrow> entry_key pm' b = entry_key pm b \<and> payload (store pm' b) = payload (store pm b)"

lemma cleared_data: "cleared pm pm' \<Longrightarrow> same_data pm pm' b"
  by (auto simp: cleared_def same_data_def entry_key_def payload_def)

lemma info_data: "info (store pm' b) = info (store pm b) \<Longrightarrow> same_data pm pm' b"
  using infoD [of "store pm' b" "store pm b"] by (simp add: same_data_def entry_key_def payload_def)

lemma wf_clock:
  assumes "map_wf pm (us @ v # vs) bk fr"
  shows "map_wf (pm\<lparr>clock_hand := nlru pm v\<rparr>) (us @ v # vs) bk fr"
  using assms next_lru_in_rest [OF assms]
  by (simp add: map_wf_def map_static_def block_addrs_def entry_key_def inj_on_def)

lemma evict_wf:
  assumes wf: "map_wf pm (us @ v # vs) bk fr" and h: "h = me_bucket (store pm v)"
    and clock: "\<And>c. clock_hand pm = Some c \<Longrightarrow> c \<noteq> v"
  shows "\<exists>prev pm4 bk'. bucket_walk (\<lambda>a. a = v) (nxt pm) None (buckets pm h) = Some (Some (prev, v)) \<and>
     remove_lru (set_ppme pm h prev (nxt pm v)) v = Some pm4 \<and>
     map_wf (free_pme (callback (pm4\<lparr>n_entries := n_entries pm4 - 1\<rparr>) v) v) (us @ vs) bk' (v # fr) \<and>
     without pm v (free_pme (callback (pm4\<lparr>n_entries := n_entries pm4 - 1\<rparr>) v) v)"
proof -
  obtain bs cs where b: "bk h = bs @ v # cs"
    and w: "bucket_walk (\<lambda>a. a = v) (nxt pm) None (buckets pm h) = Some (Some (if bs = [] then None else Some (last bs), v))"
    using walk_addr [OF wf _ h] by auto
  define prev where "prev = (if bs = [] then None else Some (last bs))"
  have a: "v \<in> set (bk h)" using b by simp
  note f = bucket_facts [OF wf a]
  have L: "map_lists pm (us @ v # vs) bk fr" using wf by (simp add: map_wf_def)
  let ?pm3 = "set_ppme pm h prev (nxt pm v)"
  have l3: "map_lists ?pm3 (us @ v # vs) (bk(h := bs @ cs)) fr"
    by (rule lists_set_ppme [OF L b prev_def]) (use f(1,2) in auto)
  obtain pm4 where r: "remove_lru ?pm3 v = Some pm4" "map_lists pm4 (us @ vs) (bk(h := bs @ cs)) fr" "same_but_lru ?pm3 pm4"
     "clock_hand pm4 = (if clock_hand ?pm3 = Some v then nlru ?pm3 v else clock_hand ?pm3)"
    using lists_remove_lru [OF l3] by blast
  have r4: "clock_hand pm4 = clock_hand pm" using r(4) clock by (auto simp: set_ppme_same)
  define pm5 where "pm5 = callback (pm4\<lparr>n_entries := n_entries pm4 - 1\<rparr>) v"
  have l5: "map_lists pm5 (us @ vs) (bk(h := bs @ cs)) fr" using r(2) by (simp add: pm5_def callback_def)
  have "map_wf (free_entry pm5 v) (us @ vs) (bk(h := bs @ cs)) (v # fr) \<and> without pm v (free_entry pm5 v)"
  proof (rule free_unlinked [OF wf b l5])
    show "c \<in> set (us @ vs)" if "clock_hand pm5 = Some c" for c
      using that r4 clock map_wfD(12) [OF wf, of c] by (auto simp: pm5_def callback_def)
  qed (use same_but_lruD [OF r(3)] in \<open>simp_all add: pm5_def callback_def set_ppme_same\<close>)
  then show ?thesis using w r(1) unfolding free_pme_def pm5_def prev_def by blast
qed

lemma try_replace_wf:
  assumes wf: "map_wf pm lru bk fr" and ne: "lru \<noteq> []"
  shows "\<exists>pm' r. try_replace_lru pm = Some (pm', r) \<and> extra_pme pm' = extra_pme pm \<and> max_entries pm' = max_entries pm \<and>
     nbuckets pm' = nbuckets pm \<and>
     (\<not> r \<longrightarrow> cleared pm pm' \<and> (\<forall>a\<in>set lru. (me_ref (store pm a) \<or> refcnt (store pm a) \<noteq> 0) \<and> \<not> me_ref (store pm' a))) \<and>
     (r \<longrightarrow> (\<exists>us a vs bk'. lru = us @ a # vs \<and> map_wf pm' (us @ vs) bk' (a # fr) \<and> refcnt (store pm a) = 0 \<and>
        (\<forall>b. b \<noteq> a \<longrightarrow> same_data pm pm' b)))"
proof -
  have LL: "llist (nlru pm) (lru_head pm) lru" using map_wfD(2) [OF wf] by (simp add: lru_list_def)
  obtain s where s: "(case clock_hand pm of None \<Rightarrow> lru_head pm | Some a \<Rightarrow> Some a) = Some s" "s \<in> set lru"
    using LL ne map_wfD(12) [OF wf] llist_head [OF LL] by (cases "clock_hand pm") auto
  obtain us vs where l: "lru = us @ s # vs" using s(2) by (meson split_list)
  have d: "distinct (s # vs @ us)" using lru_list_distinct [OF map_wfD(2) [OF wf]] l by auto
  note o = clock_order [OF LL [unfolded l]]
  have "\<exists>pm1 v. clock_scan s pm s = Some (pm1, v) \<and> cleared pm pm1 \<and>
     (\<forall>a. v = Some a \<longrightarrow> a \<in> set (s # vs @ us) \<and> refcnt (store pm a) = 0 \<and> \<not> me_ref (store pm a)) \<and>
     (v = None \<longrightarrow> (\<forall>a\<in>set (s # vs @ us). (me_ref (store pm a) \<or> refcnt (store pm a) \<noteq> 0) \<and> \<not> me_ref (store pm1 a)))"
  proof (rule clock_scan_ends [where f = "nlru pm" and hp = "lru_head pm" and rest = "vs @ us" and pre = "[]"])
    show "(case nlru pm x of None \<Rightarrow> lru_head pm | Some n \<Rightarrow> Some n) = Some y"
      if "s # vs @ us = xs @ x # y # ys" for xs x y ys
      by (rule o(1) [OF that])
  qed (rule o(2), rule d, simp_all)
  then obtain pm1 v where c: "clock_scan s pm s = Some (pm1, v)" "cleared pm pm1"
     "\<forall>a. v = Some a \<longrightarrow> a \<in> set (s # vs @ us) \<and> refcnt (store pm a) = 0 \<and> \<not> me_ref (store pm a)"
     "v = None \<longrightarrow> (\<forall>a\<in>set (s # vs @ us). (me_ref (store pm a) \<or> refcnt (store pm a) \<noteq> 0) \<and> \<not> me_ref (store pm1 a))"
    by blast
  have same1: "extra_pme pm1 = extra_pme pm" "max_entries pm1 = max_entries pm" "nbuckets pm1 = nbuckets pm"
    using c(2) by (auto simp: cleared_def)
  show ?thesis
  proof (cases v)
    case None
    then show ?thesis using s(1) c l same1 by (auto simp: try_replace_lru_def)
  next
    case (Some a)
    then have a: "a \<in> set lru" "refcnt (store pm a) = 0" using c(3) l by auto
    obtain xs ys where la: "lru = xs @ a # ys" using a(1) by (meson split_list)
    have wf1: "map_wf pm1 (xs @ a # ys) bk fr" using wf cleared_wf [OF c(2)] la by simp
    define pm2 where "pm2 = pm1\<lparr>clock_hand := nlru pm1 a\<rparr>"
    have wf2: "map_wf pm2 (xs @ a # ys) bk fr" unfolding pm2_def by (rule wf_clock [OF wf1])
    have "a \<notin> set ys" using lru_list_distinct [OF map_wfD(2) [OF wf1]] by simp
    then have ck: "clock_hand pm2 = Some q \<Longrightarrow> q \<noteq> a" for q
      using next_lru_in_rest [OF wf1, of q] by (auto simp: pm2_def)
    obtain prev pm4 bk' where e: "bucket_walk (\<lambda>x. x = a) (nxt pm2) None (buckets pm2 (me_bucket (store pm2 a))) = Some (Some (prev, a))"
      "remove_lru (set_ppme pm2 (me_bucket (store pm2 a)) prev (nxt pm2 a)) a = Some pm4"
      "map_wf (free_pme (callback (pm4\<lparr>n_entries := n_entries pm4 - 1\<rparr>) a) a) (xs @ ys) bk' (a # fr)"
      "without pm2 a (free_pme (callback (pm4\<lparr>n_entries := n_entries pm4 - 1\<rparr>) a) a)"
      using evict_wf [OF wf2 refl ck] by blast
    define pm' where "pm' = free_pme (callback (pm4\<lparr>n_entries := n_entries pm4 - 1\<rparr>) a) a"
    have t: "try_replace_lru pm = Some (pm', True)"
      using s(1) c(1) Some e(1,2) unfolding try_replace_lru_def pm'_def pm2_def by (simp add: Let_def)
    have "same_data pm pm' b" if "b \<noteq> a" for b
    proof -
      have "info (store pm' b) = info (store pm1 b)" using e(4) that by (simp add: without_def pm'_def pm2_def)
      then show ?thesis using info_data [of pm' b pm1] cleared_data [OF c(2), of b] by (simp add: same_data_def)
    qed
    moreover have "extra_pme pm' = extra_pme pm" "max_entries pm' = max_entries pm" "nbuckets pm' = nbuckets pm"
      using e(4) same1 by (simp_all add: without_def pm'_def pm2_def)
    ultimately show ?thesis using t la a(2) e(3) unfolding pm'_def [symmetric] by blast
  qed
qed

section \<open>Replacement\<close>

text \<open>The entries \<open>lru'\<close> are those of \<open>lru\<close> but for some that nobody refers to.\<close>

definition shrunk :: "map_state \<Rightarrow> addr list \<Rightarrow> map_state \<Rightarrow> addr list \<Rightarrow> bool" where
  "shrunk pm lru pm' lru' \<longleftrightarrow> set lru' \<subseteq> set lru \<and> (\<forall>a\<in>set lru'. same_data pm pm' a) \<and>
     (\<forall>a\<in>set lru - set lru'. refcnt (store pm a) = 0) \<and> max_entries pm' = max_entries pm \<and> nbuckets pm' = nbuckets pm"

lemma same_data_refcnt: "same_data pm pm' a \<Longrightarrow> refcnt (store pm' a) = refcnt (store pm a)"
  by (simp add: same_data_def payload_def)

lemma shrunk_trans:
  assumes "shrunk pm lru pm' lru'" and "shrunk pm' lru' pm'' lru''"
  shows "shrunk pm lru pm'' lru''"
  unfolding shrunk_def
proof (intro conjI ballI)
  show "set lru'' \<subseteq> set lru" using assms by (auto simp: shrunk_def)
  show "same_data pm pm'' a" if "a \<in> set lru''" for a
    using assms that by (auto simp: shrunk_def same_data_def)
  show "refcnt (store pm a) = 0" if "a \<in> set lru - set lru''" for a
    using assms that same_data_refcnt [of pm pm' a] by (cases "a \<in> set lru'") (auto simp: shrunk_def)
qed (use assms in \<open>simp_all add: shrunk_def\<close>)

lemma try_replace_shrunk:
  assumes wf: "map_wf pm lru bk fr" and ne: "lru \<noteq> []"
  shows "\<exists>pm' r lru' bk' fr'. try_replace_lru pm = Some (pm', r) \<and> map_wf pm' lru' bk' fr' \<and> shrunk pm lru pm' lru' \<and>
     extra_pme pm' = extra_pme pm \<and> length lru = length lru' + (if r then 1 else 0)"
proof -
  obtain pm' r where t: "try_replace_lru pm = Some (pm', r)" "extra_pme pm' = extra_pme pm"
     "max_entries pm' = max_entries pm" "nbuckets pm' = nbuckets pm"
     "\<not> r \<longrightarrow> cleared pm pm'"
     "r \<longrightarrow> (\<exists>us a vs bk'. lru = us @ a # vs \<and> map_wf pm' (us @ vs) bk' (a # fr) \<and> refcnt (store pm a) = 0 \<and>
        (\<forall>b. b \<noteq> a \<longrightarrow> same_data pm pm' b))"
    using try_replace_wf [OF wf ne] by blast
  show ?thesis
  proof (cases r)
    case False
    then have c: "cleared pm pm'" using t(5) by blast
    have "shrunk pm lru pm' lru" using cleared_data [OF c] t(3,4) by (simp add: shrunk_def)
    moreover have "map_wf pm' lru bk fr" using cleared_wf [OF c] wf by simp
    moreover have "length lru = length lru + (if r then 1 else 0)" using False by simp
    ultimately show ?thesis using t(1,2) by blast
  next
    case True
    then obtain us a vs bk' where e: "lru = us @ a # vs" "map_wf pm' (us @ vs) bk' (a # fr)" "refcnt (store pm a) = 0"
        "\<forall>b. b \<noteq> a \<longrightarrow> same_data pm pm' b"
      using t(6) by blast
    have "a \<notin> set (us @ vs)" using lru_list_distinct [OF map_wfD(2) [OF wf]] e(1) by simp
    then have "shrunk pm lru pm' (us @ vs)" using e t(3,4) by (auto simp: shrunk_def)
    moreover have "length lru = length (us @ vs) + (if r then 1 else 0)" using True e(1) by simp
    ultimately show ?thesis using t(1,2) e(2) by blast
  qed
qed

text \<open>An entry that somebody refers to keeps the list from becoming empty.\<close>

lemma shrunk_keeps: "shrunk pm lru pm' lru' \<Longrightarrow> a \<in> set lru \<Longrightarrow> refcnt (store pm a) \<noteq> 0 \<Longrightarrow> a \<in> set lru'"
  by (auto simp: shrunk_def)

lemma replace_extra_shrunk:
  assumes "map_wf pm lru bk fr" and "x \<in> set lru" and "refcnt (store pm x) \<noteq> 0"
  shows "\<exists>pm' lru' bk' fr'. replace_extra n pm = Some pm' \<and> map_wf pm' lru' bk' fr' \<and> shrunk pm lru pm' lru' \<and>
     extra_pme pm' \<le> n \<and> length lru' + n = length lru + extra_pme pm'"
  using assms
proof (induction n arbitrary: pm lru bk fr)
  case 0
  have "shrunk pm lru (pm\<lparr>extra_pme := 0\<rparr>) lru" by (simp add: shrunk_def same_data_def entry_key_def)
  then show ?case using 0(1)
    by (intro exI [of _ "pm\<lparr>extra_pme := 0\<rparr>"] exI [of _ lru] exI [of _ bk] exI [of _ fr])
      (simp add: replace_extra.simps [of 0])
next
  case (Suc n)
  have ne: "lru \<noteq> []" using Suc.prems(2) by auto
  obtain pm1 r lru1 bk1 fr1 where t: "try_replace_lru pm = Some (pm1, r)" "map_wf pm1 lru1 bk1 fr1"
     "shrunk pm lru pm1 lru1" "length lru = length lru1 + (if r then 1 else 0)"
    using try_replace_shrunk [OF Suc.prems(1) ne] by blast
  show ?case
  proof (cases r)
    case False
    have "shrunk pm lru (pm1\<lparr>extra_pme := Suc n\<rparr>) lru1"
      using t(3) by (simp add: shrunk_def same_data_def entry_key_def)
    then show ?thesis using False t
      by (intro exI [of _ "pm1\<lparr>extra_pme := Suc n\<rparr>"] exI [of _ lru1] exI [of _ bk1] exI [of _ fr1])
        (simp add: replace_extra.simps [of "Suc n"])
  next
    case True
    have x: "x \<in> set lru1" by (rule shrunk_keeps [OF t(3) Suc.prems(2,3)])
    then have "refcnt (store pm1 x) \<noteq> 0"
      using t(3) Suc.prems(3) same_data_refcnt by (fastforce simp: shrunk_def)
    then obtain pm' lru' bk' fr' where r: "replace_extra n pm1 = Some pm'" "map_wf pm' lru' bk' fr'"
       "shrunk pm1 lru1 pm' lru'" "extra_pme pm' \<le> n" "length lru' + n = length lru1 + extra_pme pm'"
      using Suc.IH [OF t(2) x] by blast
    have "replace_extra (Suc n) pm = Some pm'" using t(1) True r(1) by (simp add: replace_extra.simps [of "Suc n"])
    moreover have "length lru' + Suc n = length lru + extra_pme pm'" using t(4) True r(5) by simp
    ultimately show ?thesis using r(2,4) shrunk_trans [OF t(3) r(3)] le_SucI by blast
  qed
qed

lemma replace_lru_shrunk:
  assumes wf: "map_wf pm lru bk fr" and x: "x \<in> set lru" "refcnt (store pm x) \<noteq> 0"
  shows "\<exists>pm' lru' bk' fr'. replace_lru pm = Some pm' \<and> map_wf pm' lru' bk' fr' \<and> shrunk pm lru pm' lru' \<and>
     length lru' + extra_pme pm + 1 = length lru + extra_pme pm'"
proof -
  have ne: "lru \<noteq> []" using x by auto
  obtain pm1 r lru1 bk1 fr1 where t: "try_replace_lru pm = Some (pm1, r)" "map_wf pm1 lru1 bk1 fr1"
     "shrunk pm lru pm1 lru1" "extra_pme pm1 = extra_pme pm" "length lru = length lru1 + (if r then 1 else 0)"
    using try_replace_shrunk [OF wf ne] by blast
  show ?thesis
  proof (cases r)
    case False
    have "shrunk pm lru (pm1\<lparr>extra_pme := extra_pme pm1 + 1\<rparr>) lru1"
      using t(3) by (simp add: shrunk_def same_data_def entry_key_def)
    moreover have "map_wf (pm1\<lparr>extra_pme := extra_pme pm1 + 1\<rparr>) lru1 bk1 fr1" using t(2) by simp
    moreover have "replace_lru pm = Some (pm1\<lparr>extra_pme := extra_pme pm1 + 1\<rparr>)"
      using t(1) False by (simp add: replace_lru_def)
    ultimately show ?thesis using t(4,5) False
      by (intro exI [of _ "pm1\<lparr>extra_pme := extra_pme pm1 + 1\<rparr>"] exI [of _ lru1] exI [of _ bk1] exI [of _ fr1]) simp
  next
    case True
    have x1: "x \<in> set lru1" by (rule shrunk_keeps [OF t(3) x])
    then have "refcnt (store pm1 x) \<noteq> 0"
      using t(3) x(2) same_data_refcnt by (fastforce simp: shrunk_def)
    then obtain pm' lru' bk' fr' where r: "replace_extra (extra_pme pm1) pm1 = Some pm'" "map_wf pm' lru' bk' fr'"
       "shrunk pm1 lru1 pm' lru'" "length lru' + extra_pme pm1 = length lru1 + extra_pme pm'"
      using replace_extra_shrunk [OF t(2) x1] by blast
    have "replace_lru pm = Some pm'" using t(1) True r(1) by (simp add: replace_lru_def)
    then show ?thesis using r(2,4) shrunk_trans [OF t(3) r(3)] t(4,5) True
      by (intro exI [of _ pm'] exI [of _ lru'] exI [of _ bk'] exI [of _ fr']) simp
  qed
qed

section \<open>A new entry\<close>

lemma fresh_block:
  "llist (\<lambda>a. if a = e then None else Some (a - 1)) (Some (e + k)) (rev [e..<e + Suc k])"
  by (induction k) auto

lemma get_entry_wf:
  assumes wf: "map_wf pm lru bk fr"
  shows "\<exists>pm1 a fr'. get_entry pm = Some (pm1, a) \<and> a \<notin> set lru \<and> a \<notin> set fr' \<and> set fr' \<inter> set lru = {} \<and>
     map_lists pm1 lru bk fr' \<and> (\<forall>b\<in>set lru. store pm1 b = store pm b) \<and> (\<forall>b\<in>set fr'. contents (store pm1 b) = 0) \<and>
     nbuckets pm1 = nbuckets pm \<and> max_entries pm1 = max_entries pm \<and> n_entries pm1 = n_entries pm \<and>
     buckets pm1 = buckets pm \<and> clock_hand pm1 = clock_hand pm \<and> extra_pme pm1 = extra_pme pm \<and>
     NUsedEntries pm1 = NUsedEntries pm + 1 \<and>
     insert a (set lru \<union> set fr') = block_addrs pm1 \<and> (\<forall>b\<in>block_addrs pm1. b < next_addr pm1)"
proof (cases fr)
  case (Cons a fr')
  have F: "FreeEntries pm = Some a" "llist (nxt pm) (nxt pm a) fr'" using map_wfD(4) [OF wf] Cons by simp_all
  have d: "distinct (a # fr')" using llist_distinct [OF map_wfD(4) [OF wf]] Cons by simp
  show ?thesis
    by (intro exI [of _ "pm\<lparr>FreeEntries := nxt pm a, NUsedEntries := NUsedEntries pm + 1\<rparr>"] exI [of _ a] exI [of _ fr'])
      (use F d map_wfD(8,9,13,14) [OF wf] Cons map_wfD(2,3) [OF wf] in
        \<open>auto simp: get_entry_def map_lists_def lru_list_def block_addrs_def\<close>)
next
  case Nil
  have F: "FreeEntries pm = None" using map_wfD(4) [OF wf] Nil by simp
  define e where "e = next_addr pm"
  have N: "N_ENTRIES_TO_MALLOC = Suc 99" by (simp add: N_ENTRIES_TO_MALLOC_def)
  define st where "st = (\<lambda>a. if e \<le> a \<and> a < e + N_ENTRIES_TO_MALLOC
      then zero_entry\<lparr>me_next := if a = e then None else Some (a - 1)\<rparr> else store pm a)"
  have old: "st b = store pm b" if "b \<in> set lru" for b
  proof -
    have "b < e" using map_wfD(14) [OF wf, of b] map_wfD(13) [OF wf] that by (auto simp: e_def)
    then show ?thesis by (simp add: st_def)
  qed
  define pm1 where "pm1 = pm\<lparr>store := st, EntryBlocks := e # EntryBlocks pm, NEntries := NEntries pm + N_ENTRIES_TO_MALLOC,
      next_addr := e + N_ENTRIES_TO_MALLOC, FreeEntries := me_next (st (e + 99)), NUsedEntries := NUsedEntries pm + 1\<rparr>"
  have g: "get_entry pm = Some (pm1, e + 99)"
    using F by (simp add: get_entry_def pm1_def e_def [symmetric] st_def N Let_def)
  let ?fr = "rev [e..<e + 99]"
  have lp: "lpath (\<lambda>a. me_next (st a)) p xs q = lpath (\<lambda>a. if a = e then None else Some (a - 1)) p xs q"
    if "set xs \<subseteq> {e..<e + N_ENTRIES_TO_MALLOC}" for p xs q
    by (rule lpath_cong) (use that in \<open>auto simp: st_def\<close>)
  have free: "llist (\<lambda>a. me_next (st a)) (me_next (st (e + 99))) ?fr"
  proof -
    have "llist (\<lambda>a. me_next (st a)) (Some (e + 98)) (rev [e..<e + Suc 98])"
      by (subst lp) (use fresh_block [of e 98] in \<open>auto simp: N\<close>)
    moreover have "me_next (st (e + 99)) = Some (e + 98)" by (simp add: st_def N)
    ultimately show ?thesis by (simp add: eval_nat_numeral del: upt_Suc)
  qed
  have lists: "map_lists pm1 lru bk ?fr"
  proof -
    have eq: "lpath (\<lambda>a. f (st a)) p xs q = lpath (\<lambda>a. f (store pm a)) p xs q" if "set xs \<subseteq> set lru" for f p xs q
      by (rule lpath_cong) (use that old in auto)
    have "set (bk h) \<subseteq> set lru" for h using map_wfD(5) [OF wf] by auto
    then show ?thesis
      using map_wfD(2,3) [OF wf] free by (simp add: map_lists_def lru_list_def pm1_def eq)
  qed
  have ba: "block_addrs pm1 = {e..<e + N_ENTRIES_TO_MALLOC} \<union> block_addrs pm" by (auto simp: block_addrs_def pm1_def)
  have below: "b < e" if "b \<in> set lru \<or> b \<in> block_addrs pm" for b
    using that map_wfD(13,14) [OF wf] by (auto simp: e_def)
  have blk: "{e..<e + N_ENTRIES_TO_MALLOC} = insert (e + 99) (set ?fr)" by (auto simp: N)
  have "insert (e + 99) (set lru \<union> set ?fr) = block_addrs pm1"
    unfolding ba blk using map_wfD(13) [OF wf] Nil by auto
  moreover have "e + 99 \<notin> set lru" "set ?fr \<inter> set lru = {}" using below by fastforce+
  moreover have "\<forall>b\<in>set ?fr. contents (store pm1 b) = 0" by (auto simp: pm1_def st_def N zero_entry_def)
  moreover have "\<forall>b\<in>block_addrs pm1. b < next_addr pm1" unfolding ba using below by (fastforce simp: pm1_def)
  moreover have "\<forall>b\<in>set lru. store pm1 b = store pm b" using old by (simp add: pm1_def)
  ultimately show ?thesis
    using g lists by (intro exI [of _ pm1] exI [of _ "e + 99"] exI [of _ ?fr]) (simp add: pm1_def)
qed

lemma linked_wf:
  assumes wf: "map_wf pm lru bk fr" and new: "\<forall>b\<in>set lru. entry_key pm b \<noteq> (key, cguid, rawobj)"
    and h: "h = map_bucket (nbuckets pm) key cguid"
  shows "\<exists>pm1 a fr'. create_pme pm key pdata datalen rawobj cguid = Some (pm1, a) \<and> a \<notin> set lru \<and>
     (let pm2 = upd a (\<lambda>m. m\<lparr>refcnt := 1, me_bucket := h, me_next := buckets pm1 h\<rparr>) pm1;
          pm4 = insert_lru (pm2\<lparr>buckets := (buckets pm2)(h := Some a), n_entries := n_entries pm2 + 1\<rparr>) a
      in map_wf pm4 (a # lru) (bk(h := a # bk h)) fr' \<and> (\<forall>b\<in>set lru. same_data pm pm4 b) \<and>
         entry_key pm4 a = (key, cguid, rawobj) \<and> payload (store pm4 a) = (pdata, datalen, 1, False) \<and>
         max_entries pm4 = max_entries pm \<and> extra_pme pm4 = extra_pme pm \<and> nbuckets pm4 = nbuckets pm)"
proof -
  obtain pm0 a fr' where g: "get_entry pm = Some (pm0, a)" "a \<notin> set lru" "a \<notin> set fr'" "set fr' \<inter> set lru = {}"
     "map_lists pm0 lru bk fr'" "\<forall>b\<in>set lru. store pm0 b = store pm b" "\<forall>b\<in>set fr'. contents (store pm0 b) = 0"
     "nbuckets pm0 = nbuckets pm" "max_entries pm0 = max_entries pm" "n_entries pm0 = n_entries pm"
     "buckets pm0 = buckets pm" "clock_hand pm0 = clock_hand pm" "extra_pme pm0 = extra_pme pm"
     "NUsedEntries pm0 = NUsedEntries pm + 1"
     "insert a (set lru \<union> set fr') = block_addrs pm0" "\<forall>b\<in>block_addrs pm0. b < next_addr pm0"
    using get_entry_wf [OF wf] by blast
  define pm1 where "pm1 = upd a (\<lambda>m. m\<lparr>me_key := key, refcnt := 0, me_deleted := False, contents := pdata,
      me_datalen := datalen, me_rawobj := rawobj, me_cguid := cguid, me_next := None, me_ref := False\<rparr>) pm0"
  define pm2 where "pm2 = upd a (\<lambda>m. m\<lparr>refcnt := 1, me_bucket := h, me_next := buckets pm1 h\<rparr>) pm1"
  define pm3 where "pm3 = pm2\<lparr>buckets := (buckets pm2)(h := Some a), n_entries := n_entries pm2 + 1\<rparr>"
  define pm4 where "pm4 = insert_lru pm3 a"
  have c: "create_pme pm key pdata datalen rawobj cguid = Some (pm1, a)"
    using g(1) by (simp add: create_pme_def pm1_def)
  have bkl: "set (bk h') \<subseteq> set lru" for h' using map_wfD(5) [OF wf] by auto
  have f3: "nxt pm3 = (nxt pm0)(a := buckets pm0 h)" "nlru pm3 = nlru pm0" "plru pm3 = plru pm0"
    "buckets pm3 = (buckets pm0)(h := Some a)" "lru_head pm3 = lru_head pm0" "lru_tail pm3 = lru_tail pm0"
    "FreeEntries pm3 = FreeEntries pm0" "\<And>b. b \<noteq> a \<Longrightarrow> store pm3 b = store pm0 b"
    "clock_hand pm3 = clock_hand pm0" "nbuckets pm3 = nbuckets pm0" "n_entries pm3 = n_entries pm0 + 1"
    "NUsedEntries pm3 = NUsedEntries pm0" "EntryBlocks pm3 = EntryBlocks pm0" "next_addr pm3 = next_addr pm0"
    "max_entries pm3 = max_entries pm0" "extra_pme pm3 = extra_pme pm0"
    by (auto simp: pm3_def pm2_def pm1_def upd_def fun_eq_iff)
  have i3: "entry_key pm3 a = (key, cguid, rawobj)" "payload (store pm3 a) = (pdata, datalen, 1, False)"
    "me_bucket (store pm3 a) = h"
    by (simp_all add: pm3_def pm2_def pm1_def upd_def entry_key_def payload_def)
  have an: "a \<notin> set (bk h')" for h' using bkl g(2) by blast
  have ml3: "lru_list pm3 lru" "\<And>h'. llist (nxt pm3) (buckets pm3 h') ((bk(h := a # bk h)) h')" "llist (nxt pm3) (FreeEntries pm3) fr'"
    using g(3,5) an unfolding f3 by (auto simp: map_lists_def lru_list_def f3)
  obtain il: "lru_list pm4 (a # lru)" and s4: "same_but_lru pm3 pm4" and ck: "clock_hand pm4 = clock_hand pm3"
    using insert_lru_list [OF ml3(1) g(2)] unfolding pm4_def by blast
  note s = same_but_lruD [OF s4]
  have data: "entry_key pm4 b = entry_key pm3 b" "payload (store pm4 b) = payload (store pm3 b)"
    "me_bucket (store pm4 b) = me_bucket (store pm3 b)" "contents (store pm4 b) = contents (store pm3 b)"
    "me_key (store pm4 b) = me_key (store pm3 b)" "me_cguid (store pm4 b) = me_cguid (store pm3 b)" for b
    using infoD [OF s(2) [of b]] by (simp_all add: entry_key_def payload_def)
  have old: "entry_key pm4 b = entry_key pm b" "payload (store pm4 b) = payload (store pm b)"
    "me_bucket (store pm4 b) = me_bucket (store pm b)" "me_key (store pm4 b) = me_key (store pm b)"
    "me_cguid (store pm4 b) = me_cguid (store pm b)" if "b \<in> set lru" for b
  proof -
    have "store pm3 b = store pm b" using f3(8) [of b] g(2,6) that by auto
    then show "entry_key pm4 b = entry_key pm b" "payload (store pm4 b) = payload (store pm b)"
      "me_bucket (store pm4 b) = me_bucket (store pm b)" "me_key (store pm4 b) = me_key (store pm b)"
      "me_cguid (store pm4 b) = me_cguid (store pm b)"
      unfolding data by (simp_all add: entry_key_def)
  qed
  have lists: "map_lists pm4 (a # lru) (bk(h := a # bk h)) fr'"
    unfolding map_lists_def s(1,6,8) using il ml3(2,3) by blast
  have key: "me_key (store pm4 a) = key" "me_cguid (store pm4 a) = cguid" "entry_key pm4 a = (key, cguid, rawobj)"
    using i3(1) data(1,5,6) [of a] by (simp_all add: entry_key_def)
  have static: "map_static pm4 (a # lru) (bk(h := a # bk h)) fr'"
    unfolding map_static_def
  proof (intro conjI)
    show "\<forall>h' b. b \<in> set ((bk(h := a # bk h)) h') \<longleftrightarrow> b \<in> set (a # lru) \<and> me_bucket (store pm4 b) = h'"
    proof (intro allI)
      fix h' b
      show "b \<in> set ((bk(h := a # bk h)) h') \<longleftrightarrow> b \<in> set (a # lru) \<and> me_bucket (store pm4 b) = h'"
        using an i3(3) data(3) [of a] old(3) [of b] map_wfD(5) [OF wf, of b h'] g(2) by (cases "b = a") auto
    qed
    show "\<forall>b\<in>set (a # lru). me_bucket (store pm4 b) = map_bucket (nbuckets pm4) (me_key (store pm4 b)) (me_cguid (store pm4 b))"
      using i3(3) data(3) [of a] key h old map_wfD(6) [OF wf] s(3) f3(10) g(8) by auto
    have "inj_on (entry_key pm4) (set lru)" using map_wfD(7) [OF wf] old(1) by (simp add: inj_on_def)
    moreover have "entry_key pm4 a \<notin> entry_key pm4 ` set lru" using new old(1) key(3) by auto
    ultimately show "inj_on (entry_key pm4) (set (a # lru))" using g(2) by simp
    show "\<forall>b\<in>set fr'. contents (store pm4 b) = 0" using data(4) f3(8) g(3,7) by (metis (full_types))
    have ba: "block_addrs pm4 = block_addrs pm0" by (simp add: block_addrs_def s(9) f3(13))
    show "set (a # lru) \<union> set fr' = block_addrs pm4" using ba g(15) by auto
    show "\<forall>b\<in>block_addrs pm4. b < next_addr pm4" using ba g(16) s(11) f3(14) by simp
    show "\<forall>b. clock_hand pm4 = Some b \<longrightarrow> b \<in> set (a # lru)" using ck f3(9) g(12) map_wfD(12) [OF wf] by auto
  qed (use g s f3 map_wfD(1,10,11) [OF wf] in auto)
  have "map_wf pm4 (a # lru) (bk(h := a # bk h)) fr' \<and> (\<forall>b\<in>set lru. same_data pm pm4 b) \<and>
      entry_key pm4 a = (key, cguid, rawobj) \<and> payload (store pm4 a) = (pdata, datalen, 1, False) \<and>
      max_entries pm4 = max_entries pm \<and> extra_pme pm4 = extra_pme pm \<and> nbuckets pm4 = nbuckets pm"
    using lists static old(1,2) key(3) i3(2) data(2) [of a] s(3,4,10) f3(10,15,16) g(8,9,13)
    by (simp add: map_wf_def same_data_def)
  then show ?thesis
    using c g(2) unfolding pm4_def pm3_def pm2_def Let_def by blast
qed

lemma new_pme_wf:
  assumes wf: "map_wf pm lru bk fr" and new: "\<forall>b\<in>set lru. entry_key pm b \<noteq> (key, cguid, rawobj)"
    and h: "h = map_bucket (nbuckets pm) key cguid"
    and bound: "max_entries pm \<noteq> 0 \<longrightarrow> n_entries pm \<le> max_entries pm + extra_pme pm"
  shows "\<exists>pm' a lru' bk' fr'. new_pme pm h key pdata datalen cguid rawobj = Some (pm', a) \<and> map_wf pm' lru' bk' fr' \<and>
     a \<in> set lru' \<and> a \<notin> set lru \<and> set lru' \<subseteq> insert a (set lru) \<and> (\<forall>b\<in>set lru' - {a}. same_data pm pm' b) \<and>
     (\<forall>b\<in>set lru - set lru'. refcnt (store pm b) = 0) \<and> entry_key pm' a = (key, cguid, rawobj) \<and>
     payload (store pm' a) = (pdata, datalen, 1, False) \<and> max_entries pm' = max_entries pm \<and> nbuckets pm' = nbuckets pm \<and>
     (max_entries pm' \<noteq> 0 \<longrightarrow> n_entries pm' \<le> max_entries pm' + extra_pme pm')"
proof -
  obtain pm1 a fr1 where c: "create_pme pm key pdata datalen rawobj cguid = Some (pm1, a)" "a \<notin> set lru"
    and l: "let pm2 = upd a (\<lambda>m. m\<lparr>refcnt := 1, me_bucket := h, me_next := buckets pm1 h\<rparr>) pm1;
          pm4 = insert_lru (pm2\<lparr>buckets := (buckets pm2)(h := Some a), n_entries := n_entries pm2 + 1\<rparr>) a
      in map_wf pm4 (a # lru) (bk(h := a # bk h)) fr1 \<and> (\<forall>b\<in>set lru. same_data pm pm4 b) \<and>
         entry_key pm4 a = (key, cguid, rawobj) \<and> payload (store pm4 a) = (pdata, datalen, 1, False) \<and>
         max_entries pm4 = max_entries pm \<and> extra_pme pm4 = extra_pme pm \<and> nbuckets pm4 = nbuckets pm"
    using linked_wf [OF wf new h] by blast
  define pm2 where "pm2 = upd a (\<lambda>m. m\<lparr>refcnt := 1, me_bucket := h, me_next := buckets pm1 h\<rparr>) pm1"
  define pm4 where "pm4 = insert_lru (pm2\<lparr>buckets := (buckets pm2)(h := Some a), n_entries := n_entries pm2 + 1\<rparr>) a"
  have w4: "map_wf pm4 (a # lru) (bk(h := a # bk h)) fr1" and d4: "\<And>b. b \<in> set lru \<Longrightarrow> same_data pm pm4 b"
    and k4: "entry_key pm4 a = (key, cguid, rawobj)" "payload (store pm4 a) = (pdata, datalen, 1, False)"
    and s4: "max_entries pm4 = max_entries pm" "extra_pme pm4 = extra_pme pm" "nbuckets pm4 = nbuckets pm"
    using l unfolding Let_def pm2_def [symmetric] pm4_def [symmetric] by blast+
  have n: "n_entries pm4 = Suc (n_entries pm)" using map_wfD(10) [OF w4] map_wfD(10) [OF wf] by simp
  have np0: "new_pme pm h key pdata datalen cguid rawobj =
      (if max_entries pm4 > 0 \<and> n_entries pm4 > max_entries pm4 then replace_lru pm4 else Some pm4) \<bind> (\<lambda>pm5. Some (pm5, a))"
    unfolding new_pme_def Let_def c(1) pm4_def pm2_def by (simp only: bind.bind_lunit prod.case)
  show ?thesis
  proof (cases "max_entries pm4 > 0 \<and> n_entries pm4 > max_entries pm4")
    case False
    have "new_pme pm h key pdata datalen cguid rawobj = Some (pm4, a)"
      unfolding np0 if_not_P [OF False] by simp
    then show ?thesis
      using w4 d4 k4 s4 c(2) False by (intro exI [of _ pm4] exI [of _ a] exI [of _ "a # lru"] exI) auto
  next
    case True
    have "refcnt (store pm4 a) \<noteq> 0" using k4(2) by (simp add: payload_def)
    then obtain pm' lru' bk' fr' where r: "replace_lru pm4 = Some pm'" "map_wf pm' lru' bk' fr'" "shrunk pm4 (a # lru) pm' lru'"
      "length lru' + extra_pme pm4 + 1 = length (a # lru) + extra_pme pm'"
      using replace_lru_shrunk [OF w4, of a] by auto
    have a': "a \<in> set lru'" using shrunk_keeps [OF r(3), of a] k4(2) by (simp add: payload_def)
    have np: "new_pme pm h key pdata datalen cguid rawobj = Some (pm', a)"
      using np0 True r(1) by simp
    have sa: "same_data pm4 pm' a" and ma: "max_entries pm' = max_entries pm4" "nbuckets pm' = nbuckets pm4" using r(3) a' by (simp_all add: shrunk_def)
    have ex: "\<forall>b\<in>set lru - set lru'. refcnt (store pm b) = 0"
      using r(3) d4 same_data_refcnt by (fastforce simp: shrunk_def)
    have sd: "\<forall>b\<in>set lru' - {a}. same_data pm pm' b"
      using r(3) d4 by (auto simp: shrunk_def same_data_def)
    have "n_entries pm' = length lru'" by (rule map_wfD(10) [OF r(2)])
    then have bd: "max_entries pm' \<noteq> 0 \<longrightarrow> n_entries pm' \<le> max_entries pm' + extra_pme pm'"
      using r(4) bound ma s4 map_wfD(10) [OF wf] by auto
    show ?thesis
      using np r(2) a' c(2) ex sd bd sa k4 ma s4 r(3)
      by (intro exI [of _ pm'] exI [of _ a] exI [of _ lru'] exI) (auto simp: shrunk_def same_data_def)
  qed
qed

end
