(* ===== verification/Btree_Map_Ops.thy ===== *)
theory Btree_Map_Ops
  imports Btree_Map_Replace
begin

text \<open>
  Every operation of the node cache map returns and keeps the invariant; what the operations on one
  entry do to the lookups.
\<close>

section \<open>Updates of one entry\<close>

lemma lookup_upd:
  assumes wf: "map_wf pm lru bk fr" and f: "keeps_links f" and a: "a \<in> set lru"
  shows "map_lookup (upd a f pm) k = (if k = entry_key pm a then Some (payload (f (store pm a))) else map_lookup pm k)"
proof -
  have wf': "map_wf (upd a f pm) lru bk fr" by (rule wf_data [OF wf f a])
  have e: "entry_key (upd a f pm) = entry_key pm" by (rule keeps_linksD(4) [OF f])
  show ?thesis
  proof (cases "\<exists>b\<in>set lru. entry_key pm b = k")
    case True
    then obtain b where b: "b \<in> set lru" "entry_key pm b = k" by blast
    have "k = entry_key pm a \<longleftrightarrow> b = a" using inj_onD [OF map_wfD(7) [OF wf]] a b by auto
    then show ?thesis
      using lookup_present [OF wf' b(1)] lookup_present [OF wf b] e b(2) by (simp add: store_upd)
  next
    case False
    then show ?thesis using lookup_absent [OF wf', of k] lookup_absent [OF wf, of k] e a by auto
  qed
qed

lemma lookup_irrelevant [simp]:
  "map_lookup (pm\<lparr>replaced := x\<rparr>) = map_lookup pm" "map_lookup (pm\<lparr>extra_pme := y\<rparr>) = map_lookup pm"
proof -
  have s: "same_key (pm\<lparr>replaced := x\<rparr>) = same_key pm" "same_key (pm\<lparr>extra_pme := y\<rparr>) = same_key pm"
    by (auto simp: same_key_def fun_eq_iff)
  show "map_lookup (pm\<lparr>replaced := x\<rparr>) = map_lookup pm" "map_lookup (pm\<lparr>extra_pme := y\<rparr>) = map_lookup pm"
    by (simp_all add: map_lookup_def find_pme_def s fun_eq_iff cong: option.case_cong prod.case_cong)
qed

lemma keeps_links_fields:
  "keeps_links (me_ref_update f)" "keeps_links (refcnt_update g)" "keeps_links (me_deleted_update f)"
  "keeps_links (\<lambda>m. m\<lparr>refcnt := h m\<rparr>)" "keeps_links (\<lambda>m. m\<lparr>contents := c, me_datalen := d\<rparr>)"
  by (simp_all add: keeps_links_def)

section \<open>The invariant with the bound\<close>

definition map_inv :: "map_state \<Rightarrow> bool" where
  "map_inv pm \<longleftrightarrow> map_ok pm \<and> (max_entries pm \<noteq> 0 \<longrightarrow> n_entries pm \<le> max_entries pm + extra_pme pm)"

lemma map_inv_data:
  assumes "map_wf pm lru bk fr" and "map_inv pm" and "keeps_links f" and "a \<in> set lru"
  shows "map_inv (upd a f pm)"
  using wf_data [OF assms(1,3,4)] assms(2) by (auto simp: map_inv_def map_ok_def)

lemma map_inv_irrelevant [simp]: "map_inv (pm\<lparr>replaced := x\<rparr>) = map_inv pm"
  by (simp add: map_inv_def map_ok_def)

lemma inv_wf:
  assumes "map_inv pm"
  obtains lru bk fr where "map_wf pm lru bk fr"
  using assms by (auto simp: map_inv_def map_ok_def)

text \<open>Several data updates in a row.\<close>

lemma upd_twice: "upd a g (upd a f pm) = upd a (\<lambda>m. g (f m)) pm"
  by (simp add: upd_def)

lemma keeps_links_comp: "keeps_links f \<Longrightarrow> keeps_links g \<Longrightarrow> keeps_links (\<lambda>m. g (f m))"
  by (simp add: keeps_links_def)

lemma upd_replaced: "upd a f (pm\<lparr>replaced := x\<rparr>) = (upd a f pm)\<lparr>replaced := x\<rparr>"
  by (simp add: upd_def)

lemma without_inv:
  assumes "map_inv pm" and "map_wf pm' lru bk fr" and "without pm a pm'"
  shows "map_inv pm' \<and> nbuckets pm' = nbuckets pm \<and> max_entries pm' = max_entries pm"
  using assms by (auto simp: map_inv_def map_ok_def without_def)

section \<open>The operations return and keep the invariant\<close>

abbreviation keeps_inv :: "map_state \<Rightarrow> map_state \<Rightarrow> bool" where
  "keeps_inv pm pm' \<equiv> map_inv pm' \<and> nbuckets pm' = nbuckets pm \<and> max_entries pm' = max_entries pm"

lemma new_pme_inv:
  assumes inv: "map_inv pm" and wf: "map_wf pm lru bk fr"
    and new: "\<forall>b\<in>set lru. entry_key pm b \<noteq> (key, cguid, rawobj)" and h: "h = map_bucket (nbuckets pm) key cguid"
  shows "\<exists>pm' a. new_pme pm h key pdata datalen cguid rawobj = Some (pm', a) \<and> keeps_inv pm pm' \<and>
     map_lookup pm' (key, cguid, rawobj) = Some (pdata, datalen, 1, False) \<and>
     (\<forall>k. k \<noteq> (key, cguid, rawobj) \<longrightarrow> map_lookup pm' k = map_lookup pm k \<or>
        map_lookup pm' k = None \<and> (\<exists>c d del. map_lookup pm k = Some (c, d, 0, del)))"
proof -
  have bound: "max_entries pm \<noteq> 0 \<longrightarrow> n_entries pm \<le> max_entries pm + extra_pme pm" using inv by (simp add: map_inv_def)
  obtain pm' a lru' bk' fr' where n: "new_pme pm h key pdata datalen cguid rawobj = Some (pm', a)" "map_wf pm' lru' bk' fr'"
     "a \<in> set lru'" "a \<notin> set lru" "set lru' \<subseteq> insert a (set lru)" "\<forall>b\<in>set lru' - {a}. same_data pm pm' b"
     "\<forall>b\<in>set lru - set lru'. refcnt (store pm b) = 0" "entry_key pm' a = (key, cguid, rawobj)"
     "payload (store pm' a) = (pdata, datalen, 1, False)" "max_entries pm' = max_entries pm" "nbuckets pm' = nbuckets pm"
     "max_entries pm' \<noteq> 0 \<longrightarrow> n_entries pm' \<le> max_entries pm' + extra_pme pm'"
    using new_pme_wf [OF wf new h bound] by blast
  have "map_lookup pm' k = map_lookup pm k \<or> map_lookup pm' k = None \<and> (\<exists>c d del. map_lookup pm k = Some (c, d, 0, del))"
    if k: "k \<noteq> (key, cguid, rawobj)" for k
  proof (cases "\<exists>b\<in>set lru. entry_key pm b = k")
    case False
    have "entry_key pm' b \<noteq> k" if b: "b \<in> set lru'" for b
    proof (cases "b = a")
      case ba: False
      then have "entry_key pm' b = entry_key pm b" "b \<in> set lru" using n(5,6) b by (auto simp: same_data_def)
      then show ?thesis using False by auto
    qed (use n(8) k in auto)
    then show ?thesis using False lookup_absent [OF n(2)] lookup_absent [OF wf] by auto
  next
    case True
    then obtain b where b: "b \<in> set lru" "entry_key pm b = k" by blast
    show ?thesis
    proof (cases "b \<in> set lru'")
      case True
      then have "same_data pm pm' b" using n(4,6) b(1) by auto
      then show ?thesis
        using lookup_present [OF n(2) True] lookup_present [OF wf b] b(2) by (simp add: same_data_def)
    next
      case False
      have "entry_key pm' c \<noteq> k" if c: "c \<in> set lru'" for c
      proof (cases "c = a")
        case True
        then show ?thesis using n(8) k by auto
      next
        case ca: False
        then have "entry_key pm' c = entry_key pm c" "c \<in> set lru" using n(5,6) c by (auto simp: same_data_def)
        then show ?thesis using inj_onD [OF map_wfD(7) [OF wf], of c b] b c False by auto
      qed
      then have "map_lookup pm' k = None" using lookup_absent [OF n(2)] by blast
      moreover have "refcnt (store pm b) = 0" using n(7) b(1) False by blast
      ultimately show ?thesis using lookup_present [OF wf b] by (simp add: payload_def)
    qed
  qed
  then show ?thesis
    using n(1,2,10-12) lookup_present [OF n(2,3,8)] n(9)
    by (intro exI [of _ pm'] exI [of _ a]) (auto simp: map_inv_def map_ok_def)
qed

lemma bucket_walk_cases:
  assumes "llist nx p xs"
  obtains "bucket_walk test nx None p = Some None"
  | us a vs where "xs = us @ a # vs" "test a"
      "bucket_walk test nx None p = Some (Some (if us = [] then None else Some (last us), a))"
proof (cases "\<exists>a\<in>set xs. test a")
  case False
  then show ?thesis using that(1) bucket_walk_None [OF assms] by blast
next
  case True
  then obtain us a vs where s: "xs = us @ a # vs" "test a" "\<forall>u\<in>set us. \<not> test u"
    using split_list_first_prop [OF True] by metis
  have "bucket_walk test nx None p = Some (Some (if us = [] then None else Some (last us), a))"
    by (rule bucket_walk_Some [OF assms [unfolded s(1)] s(3,2)])
  then show ?thesis using that(2) s by blast
qed

lemma drop_found:
  assumes inv: "map_inv pm" and wf: "map_wf pm lru bk fr" and b: "bk h = us @ a # vs"
  shows "\<exists>pm'. drop_pme pm h (if us = [] then None else Some (last us)) a = Some pm' \<and> keeps_inv pm pm'"
proof -
  have "a \<in> set lru" using bucket_facts(4) [OF wf, of a h] b by simp
  then obtain xs ys where l: "lru = xs @ a # ys" by (meson split_list)
  show ?thesis
    using drop_pme_wf [OF wf [unfolded l] b refl] without_inv [OF inv] by blast
qed

lemma release_inv:
  assumes inv: "map_inv pm"
  shows "\<exists>pm' r. release_with f pm key key_ptr cguid rawobj = Some (pm', r) \<and> keeps_inv pm pm'"
proof -
  obtain lru bk fr where wf: "map_wf pm lru bk fr" using inv_wf [OF inv] .
  show ?thesis
  proof (cases rule: find_cases [OF wf, of key cguid rawobj])
    case 1
    then have "release_with f pm key key_ptr cguid rawobj = Some (pm, False)" by (simp add: release_with_def)
    then show ?thesis using inv by blast
  next
    case (2 a)
    note present = 2
    define pm1 where "pm1 = upd a (refcnt_update f) pm"
    have wf1: "map_wf pm1 lru bk fr" unfolding pm1_def by (rule wf_data [OF wf keeps_links_fields(2) present(1)])
    have inv1: "map_inv pm1" unfolding pm1_def by (rule map_inv_data [OF wf inv keeps_links_fields(2) present(1)])
    have s1: "nbuckets pm1 = nbuckets pm" "max_entries pm1 = max_entries pm" by (simp_all add: pm1_def)
    obtain pm2 where d: "release_deleted pm1 key key_ptr cguid rawobj = Some pm2" "keeps_inv pm1 pm2"
    proof (cases rule: bucket_walk_cases [OF map_wfD(3) [OF wf1, of "map_bucket (nbuckets pm1) key cguid"],
          of "same_key pm1 key_ptr cguid rawobj"])
      case 1
      then show ?thesis using that inv1 by (simp add: release_deleted_def)
    next
      case (2 us b vs)
      obtain pm2 where "drop_pme pm1 (map_bucket (nbuckets pm1) key cguid) (if us = [] then None else Some (last us)) b = Some pm2"
         "keeps_inv pm1 pm2"
        using drop_found [OF inv1 wf1 2(1)] by blast
      then show ?thesis using that [of "if refcnt (store pm1 b) = 0 \<and> me_deleted (store pm1 b) then pm2 else pm1"] 2(3) inv1
        by (simp add: release_deleted_def)
    qed
    have "release_with f pm key key_ptr cguid rawobj =
       Some (if refcnt (store pm1 a) = 0 \<and> me_deleted (store pm1 a) then pm2 else pm1, True)"
      using present(3) d(1) by (simp add: release_with_def pm1_def [symmetric] Let_def)
    then show ?thesis using d(2) inv1 s1 by (auto split: if_splits)
  qed
qed

lemma delete_inv:
  assumes inv: "map_inv pm"
  shows "\<exists>pm' r. MapDelete pm key cguid robj = Some (pm', r) \<and> keeps_inv pm pm'"
proof -
  obtain lru bk fr where wf: "map_wf pm lru bk fr" using inv_wf [OF inv] .
  define h where "h = map_bucket (nbuckets pm) key cguid"
  show ?thesis
  proof (cases rule: bucket_walk_cases [OF map_wfD(3) [OF wf, of h], of "same_key pm key cguid robj"])
    case 1
    then have "MapDelete pm key cguid robj = Some (pm, True)"
      using map_wfD(1) [OF wf] by (simp add: MapDelete_def map_assert_def h_def)
    then show ?thesis using inv by blast
  next
    case (2 us a vs)
    let ?pm1 = "upd a (\<lambda>m. m\<lparr>refcnt := refcnt m - 1\<rparr>) pm"
    have a: "a \<in> set lru" using bucket_facts(4) [OF wf, of a h] 2(1) by simp
    have wf1: "map_wf ?pm1 lru bk fr" by (rule wf_data [OF wf keeps_links_fields(4) a])
    have inv1: "map_inv ?pm1" by (rule map_inv_data [OF wf inv keeps_links_fields(4) a])
    have inv2: "map_inv (upd a (me_deleted_update (\<lambda>_. True)) ?pm1)"
      by (rule map_inv_data [OF wf1 inv1 keeps_links_fields(3) a])
    obtain pm2 where d: "drop_pme ?pm1 h (if us = [] then None else Some (last us)) a = Some pm2" "keeps_inv ?pm1 pm2"
      using drop_found [OF inv1 wf1 2(1)] by blast
    have "MapDelete pm key cguid robj =
       Some (if refcnt (store ?pm1 a) = 0 then pm2 else upd a (me_deleted_update (\<lambda>_. True)) ?pm1, False)"
      using d(1) 2(3) map_wfD(1) [OF wf] by (simp add: MapDelete_def map_assert_def h_def [symmetric] Let_def)
    then show ?thesis using d(2) inv2 by (auto split: if_splits)
  qed
qed

section \<open>Operations on one entry\<close>

lemma create_inv:
  assumes inv: "map_inv pm"
  shows "\<exists>pm' r. MapCreate pm key pdata datalen cguid rawobj = Some (pm', r) \<and> keeps_inv pm pm'"
proof -
  obtain lru bk fr where wf: "map_wf pm lru bk fr" using inv_wf [OF inv] .
  show ?thesis
  proof (cases rule: find_cases [OF wf, of key cguid rawobj])
    case 1
    then show ?thesis using new_pme_inv [OF inv wf 1(1) refl, of pdata datalen] by (auto simp: MapCreate_def)
  next
    case (2 a)
    then show ?thesis using inv by (simp add: MapCreate_def)
  qed
qed

lemma touch_inv:
  assumes "map_wf pm lru bk fr" and "map_inv pm" and "a \<in> set lru" and "keeps_links f"
  shows "keeps_inv pm (upd a f (if P then update_lru pm a else pm))"
    and "keeps_inv pm (if P then update_lru (upd a f pm) a else upd a f pm)"
  using assms map_inv_data [OF assms(1,2) keeps_links_comp [OF keeps_links_fields(1) assms(4)] assms(3)]
    map_inv_data [OF assms(1,2) keeps_links_comp [OF assms(4) keeps_links_fields(1)] assms(3)]
    map_inv_data [OF assms(1,2,4,3)]
  by (simp_all add: update_lru_def upd_twice)

lemma update_inv:
  assumes inv: "map_inv pm"
  shows "\<exists>pm' r. MapUpdate pm key pdata datalen cguid rawobj = Some (pm', r) \<and> keeps_inv pm pm'"
proof -
  obtain lru bk fr where wf: "map_wf pm lru bk fr" using inv_wf [OF inv] .
  show ?thesis
  proof (cases rule: find_cases [OF wf, of key cguid rawobj])
    case 1
    then show ?thesis using inv by (simp add: MapUpdate_def)
  next
    case (2 a)
    then show ?thesis
      using touch_inv(1) [OF wf inv 2(1) keeps_links_fields(5)]
      by (simp add: MapUpdate_def Let_def callback_def upd_replaced)
  qed
qed

lemma set_inv:
  assumes inv: "map_inv pm"
  shows "\<exists>pm' r. MapSet pm key pdata datalen cguid rawobj = Some (pm', r) \<and> keeps_inv pm pm'"
proof -
  obtain lru bk fr where wf: "map_wf pm lru bk fr" using inv_wf [OF inv] .
  show ?thesis
  proof (cases rule: find_cases [OF wf, of key cguid rawobj])
    case 1
    then show ?thesis using new_pme_inv [OF inv wf 1(1) refl, of pdata datalen] by (auto simp: MapSet_def)
  next
    case (2 a)
    let ?f = "\<lambda>m. m\<lparr>contents := pdata, me_datalen := datalen\<rparr>"
    let ?r = "replaced pm @ [(0, contents (store pm a), me_datalen (store pm a))]"
    have "MapSet pm key pdata datalen cguid rawobj = Some
        ((if max_entries pm \<noteq> 0 then update_lru (upd a ?f pm) a else upd a ?f pm)\<lparr>replaced := ?r\<rparr>, a, contents (store pm a), me_datalen (store pm a))"
      using 2(3) by (simp add: MapSet_def Let_def upd_replaced update_lru_def)
    then show ?thesis using touch_inv(2) [OF wf inv 2(1) keeps_links_fields(5)] by (auto simp del: map_inv_irrelevant simp: map_inv_irrelevant)
  qed
qed

lemma get_inv:
  assumes inv: "map_inv pm" and few: "\<And>c l n d. map_lookup pm (key, cguid, rawobj) = Some (c, l, n, d) \<Longrightarrow> n < 10000"
  shows "\<exists>pm' r. MapGet pm key cguid rawobj = Some (pm', r)"
proof -
  obtain lru bk fr where wf: "map_wf pm lru bk fr" using inv_wf [OF inv] .
  show ?thesis
  proof (cases rule: find_cases [OF wf, of key cguid rawobj])
    case 1
    then show ?thesis by (simp add: MapGet_def)
  next
    case (2 a)
    have "refcnt (store pm a) < 10000" using few lookup_present [OF wf 2(1,2)] by (simp add: payload_def)
    then show ?thesis using 2(3) by (simp add: MapGet_def map_assert_def Let_def)
  qed
qed

lemma get_keeps:
  assumes inv: "map_inv pm" and "MapGet pm key cguid rawobj = Some (pm', r)"
  shows "keeps_inv pm pm'"
proof -
  obtain lru bk fr where wf: "map_wf pm lru bk fr" using inv_wf [OF inv] .
  show ?thesis
  proof (cases rule: find_cases [OF wf, of key cguid rawobj])
    case 1
    then show ?thesis using inv assms(2) by (simp add: MapGet_def)
  next
    case (2 a)
    have "pm' = (if max_entries pm \<noteq> 0 then update_lru (upd a (\<lambda>m. m\<lparr>refcnt := refcnt m + 1\<rparr>) pm) a else upd a (\<lambda>m. m\<lparr>refcnt := refcnt m + 1\<rparr>) pm)"
      using assms(2) 2(3) by (simp add: MapGet_def Let_def map_assert_def split: if_splits)
    then show ?thesis
      using touch_inv(2) [OF wf inv 2(1) keeps_links_fields(4) [of "\<lambda>m. refcnt m + 1"], of "max_entries pm \<noteq> 0"] by (simp only:)
  qed
qed

lemma incr_inv:
  assumes inv: "map_inv pm"
  shows "\<exists>pm' r. MapIncrRefcnt pm key cguid rawobj = Some (pm', r) \<and> keeps_inv pm pm'"
proof -
  obtain lru bk fr where wf: "map_wf pm lru bk fr" using inv_wf [OF inv] .
  show ?thesis
  proof (cases rule: find_cases [OF wf, of key cguid rawobj])
    case 1
    then have "MapIncrRefcnt pm key cguid rawobj = Some (pm, False)" by (simp add: MapIncrRefcnt_def)
    then show ?thesis using inv by blast
  next
    case (2 a)
    then have "MapIncrRefcnt pm key cguid rawobj = Some (upd a (\<lambda>m. m\<lparr>refcnt := refcnt m + 1\<rparr>) pm, True)"
      by (simp add: MapIncrRefcnt_def)
    then show ?thesis using map_inv_data [OF wf inv keeps_links_fields(4) 2(1)] by auto
  qed
qed

section \<open>Removal of the entries of a container\<close>

lemma clean_step:
  assumes wf: "map_wf pm (us @ e # vs) bk fr"
  shows "\<exists>pm1 prev bk'. remove_lru pm e = Some pm1 \<and>
     (let pm2 = callback (pm1\<lparr>n_entries := n_entries pm1 - 1\<rparr>) e; b = me_bucket (store pm2 e) in
      bucket_walk (\<lambda>a. a = e) (nxt pm2) None (buckets pm2 b) = Some (Some (prev, e)) \<and>
      map_wf (free_entry (set_ppme pm2 b prev (nxt pm2 e)) e) (us @ vs) bk' (e # fr) \<and>
      without pm e (free_entry (set_ppme pm2 b prev (nxt pm2 e)) e))"
proof -
  define h where "h = me_bucket (store pm e)"
  obtain bs cs where b: "bk h = bs @ e # cs"
    and w: "bucket_walk (\<lambda>a. a = e) (nxt pm) None (buckets pm h) = Some (Some (if bs = [] then None else Some (last bs), e))"
    by (rule walk_addr [OF wf _ h_def]) simp
  define prev where "prev = (if bs = [] then None else Some (last bs))"
  have f: "set (bk h') \<inter> set (bk h) = {}" if "h' \<noteq> h" for h'
    using bucket_facts(1) [OF wf, of e h h'] b that by simp
  have fr: "set fr \<inter> set (bk h) = {}" using bucket_facts(2) [OF wf, of e h] b by simp
  obtain pm1 where r: "remove_lru pm e = Some pm1" "map_lists pm1 (us @ vs) bk fr" "same_but_lru pm pm1"
     "clock_hand pm1 = (if clock_hand pm = Some e then nlru pm e else clock_hand pm)"
    using lists_remove_lru wf unfolding map_wf_def by blast
  note s = same_but_lruD [OF r(3)]
  define pm2 where "pm2 = callback (pm1\<lparr>n_entries := n_entries pm1 - 1\<rparr>) e"
  have h2: "me_bucket (store pm2 e) = h" using infoD [OF s(2) [of e]] by (simp add: pm2_def callback_def h_def)
  have n2: "nxt pm2 = nxt pm" "buckets pm2 = buckets pm" using s by (simp_all add: pm2_def callback_def)
  have m2: "map_lists pm2 (us @ vs) bk fr" using r(2) by (simp add: pm2_def callback_def)
  have l3: "map_lists (set_ppme pm2 h prev (nxt pm2 e)) (us @ vs) (bk(h := bs @ cs)) fr"
    by (rule lists_set_ppme [OF m2 b prev_def]) (use f fr in auto)
  have "map_wf (free_entry (set_ppme pm2 h prev (nxt pm2 e)) e) (us @ vs) (bk(h := bs @ cs)) (e # fr) \<and>
      without pm e (free_entry (set_ppme pm2 h prev (nxt pm2 e)) e)"
    by (rule free_unlinked [OF wf b l3])
      (use s remove_clock [OF wf r(4)] in \<open>simp_all add: pm2_def callback_def set_ppme_same\<close>)
  then show ?thesis
    using r(1) w h2 n2 unfolding prev_def [symmetric] Let_def
    by (intro exI [of _ pm1] exI [of _ prev] exI [of _ "bk(h := bs @ cs)"]) (fold pm2_def, simp)
qed

definition of_container :: "map_state \<Rightarrow> u64 \<Rightarrow> addr \<Rightarrow> bool" where
  "of_container pm cguid e \<longleftrightarrow> contents (store pm e) \<noteq> 0 \<and> me_cguid (store pm e) = cguid"

lemma clean_loop_wf:
  assumes "map_wf pm lru bk fr" and "set es \<subseteq> block_addrs pm"
  shows "\<exists>pm' lru' bk' fr'. clean_loop cguid es pm = Some pm' \<and> map_wf pm' lru' bk' fr' \<and>
     set lru' = {a \<in> set lru. \<not> (a \<in> set es \<and> of_container pm cguid a)} \<and>
     (\<forall>a\<in>set lru'. info (store pm' a) = info (store pm a)) \<and> nbuckets pm' = nbuckets pm \<and>
     max_entries pm' = max_entries pm \<and> extra_pme pm' = extra_pme pm \<and> n_entries pm' \<le> n_entries pm"
  using assms
proof (induction es arbitrary: pm lru bk fr)
  case Nil
  then show ?case by (intro exI [of _ pm] exI [of _ lru] exI [of _ bk] exI [of _ fr]) simp
next
  case (Cons e es)
  show ?case
  proof (cases "of_container pm cguid e")
    case False
    then have "clean_loop cguid (e # es) pm = clean_loop cguid es pm" by (auto simp: of_container_def)
    moreover have "{a \<in> set lru. \<not> (a \<in> set (e # es) \<and> of_container pm cguid a)} =
        {a \<in> set lru. \<not> (a \<in> set es \<and> of_container pm cguid a)}" using False by auto
    ultimately show ?thesis using Cons.IH [OF Cons.prems(1)] Cons.prems(2) by simp
  next
    case True
    have "e \<in> set lru"
      using map_wfD(9,13) [OF Cons.prems(1)] Cons.prems(2) True by (auto simp: of_container_def)
    then obtain us vs where l: "lru = us @ e # vs" by (meson split_list)
    have d: "distinct lru" by (rule lru_list_distinct [OF map_wfD(2) [OF Cons.prems(1)]])
    obtain pm1 prev bk' where r: "remove_lru pm e = Some pm1"
      and s: "let pm2 = callback (pm1\<lparr>n_entries := n_entries pm1 - 1\<rparr>) e; b = me_bucket (store pm2 e) in
      bucket_walk (\<lambda>a. a = e) (nxt pm2) None (buckets pm2 b) = Some (Some (prev, e)) \<and>
      map_wf (free_entry (set_ppme pm2 b prev (nxt pm2 e)) e) (us @ vs) bk' (e # fr) \<and>
      without pm e (free_entry (set_ppme pm2 b prev (nxt pm2 e)) e)"
      using clean_step [OF Cons.prems(1) [unfolded l]] by blast
    define pm2 where "pm2 = callback (pm1\<lparr>n_entries := n_entries pm1 - 1\<rparr>) e"
    define pm3 where "pm3 = free_entry (set_ppme pm2 (me_bucket (store pm2 e)) prev (nxt pm2 e)) e"
    have w: "bucket_walk (\<lambda>a. a = e) (nxt pm2) None (buckets pm2 (me_bucket (store pm2 e))) = Some (Some (prev, e))"
      and wf3: "map_wf pm3 (us @ vs) bk' (e # fr)" and wo: "without pm e pm3"
      using s unfolding Let_def pm2_def [symmetric] pm3_def [symmetric] by blast+
    have step: "clean_loop cguid (e # es) pm = clean_loop cguid es pm3"
      using True r w unfolding of_container_def clean_loop.simps Let_def pm2_def [symmetric] pm3_def [symmetric]
      by (simp add: pm2_def [symmetric, unfolded One_nat_def] pm3_def)
    have "set es \<subseteq> block_addrs pm3"
      using map_wfD(13) [OF wf3] map_wfD(13) [OF Cons.prems(1)] Cons.prems(2) l by auto
    from Cons.IH [OF wf3 this] obtain pm' lru' bk2 fr2 where i: "clean_loop cguid es pm3 = Some pm'" "map_wf pm' lru' bk2 fr2"
      "set lru' = {a \<in> set (us @ vs). \<not> (a \<in> set es \<and> of_container pm3 cguid a)}"
      "\<forall>a\<in>set lru'. info (store pm' a) = info (store pm3 a)" "nbuckets pm' = nbuckets pm3" "max_entries pm' = max_entries pm3"
      "extra_pme pm' = extra_pme pm3" "n_entries pm' \<le> n_entries pm3" by blast
    have inf: "info (store pm3 a) = info (store pm a)" if "a \<noteq> e" for a using wo that by (simp add: without_def)
    have oc: "of_container pm3 cguid a = of_container pm cguid a" if "a \<noteq> e" for a
      using infoD [OF inf [OF that]] by (simp add: of_container_def)
    have "e \<notin> set (us @ vs)" using d l by auto
    then have "\<forall>a\<in>set (us @ vs). of_container pm3 cguid a = of_container pm cguid a" using oc by metis
    then have "set lru' = {a \<in> set lru. \<not> (a \<in> set (e # es) \<and> of_container pm cguid a)}"
      using i(3) \<open>e \<notin> set (us @ vs)\<close> True l by auto
    moreover have "\<forall>a\<in>set lru'. info (store pm' a) = info (store pm a)"
      using i(3,4) inf \<open>e \<notin> set (us @ vs)\<close> by (metis (mono_tags, lifting) mem_Collect_eq)
    ultimately show ?thesis
      using step i(1,2,5-8) wo
      by (intro exI [of _ pm'] exI [of _ lru'] exI [of _ bk2] exI [of _ fr2]) (simp add: without_def)
  qed
qed

end
