(* ===== verification/Btree_Map_Spec.thy ===== *)
theory Btree_Map_Spec
  imports Btree_Map_Ops
begin

text \<open>
  The node cache map: the states the operations reach from \<open>MapInit\<close>, and the finite map the
  operations implement in them.
\<close>

section \<open>Reachable states\<close>

inductive map_step :: "map_state \<Rightarrow> map_state \<Rightarrow> bool" where
  step_create: "MapCreate pm key pdata datalen cguid rawobj = Some (pm', r) \<Longrightarrow> map_step pm pm'"
| step_update: "MapUpdate pm key pdata datalen cguid rawobj = Some (pm', r) \<Longrightarrow> map_step pm pm'"
| step_set: "MapSet pm key pdata datalen cguid rawobj = Some (pm', r) \<Longrightarrow> map_step pm pm'"
| step_get: "MapGet pm key cguid rawobj = Some (pm', r) \<Longrightarrow> map_step pm pm'"
| step_incr: "MapIncrRefcnt pm key cguid rawobj = Some (pm', r) \<Longrightarrow> map_step pm pm'"
| step_release: "MapRelease pm key key_ptr cguid rawobj = Some (pm', r) \<Longrightarrow> map_step pm pm'"
| step_release_all: "MapReleaseAll pm key key_ptr cguid rawobj = Some (pm', r) \<Longrightarrow> map_step pm pm'"
| step_delete: "MapDelete pm key cguid rawobj = Some (pm', r) \<Longrightarrow> map_step pm pm'"
| step_clean: "MapClean pm cguid = Some pm' \<Longrightarrow> map_step pm pm'"

inductive map_reach :: "nat \<Rightarrow> nat \<Rightarrow> map_state \<Rightarrow> bool" for nb limit where
  reach_init: "map_reach nb limit (MapInit nb limit)"
| reach_step: "map_reach nb limit pm \<Longrightarrow> map_step pm pm' \<Longrightarrow> map_reach nb limit pm'"

lemma all_addrs: "set (concat (map (\<lambda>b. [b..<b + N_ENTRIES_TO_MALLOC]) (EntryBlocks pm))) = block_addrs pm"
  by (auto simp: block_addrs_def)

lemma clean_inv:
  assumes inv: "map_inv pm"
  shows "\<exists>pm'. MapClean pm cguid = Some pm' \<and> keeps_inv pm pm'"
proof -
  obtain lru bk fr where wf: "map_wf pm lru bk fr" using inv_wf [OF inv] .
  obtain pm' lru' bk' fr' where "MapClean pm cguid = Some pm'" "map_wf pm' lru' bk' fr'" "nbuckets pm' = nbuckets pm"
     "max_entries pm' = max_entries pm" "extra_pme pm' = extra_pme pm" "n_entries pm' \<le> n_entries pm"
    using clean_loop_wf [OF wf, of _ cguid] all_addrs unfolding MapClean_def by blast
  then show ?thesis using inv by (auto simp: map_inv_def map_ok_def)
qed

lemma step_inv:
  assumes "map_step pm pm'" and inv: "map_inv pm"
  shows "keeps_inv pm pm'"
  using assms(1)
proof cases
  case (step_create key pdata datalen cguid rawobj r)
  then show ?thesis using create_inv [OF inv, of key pdata datalen cguid rawobj] by auto
next
  case (step_update key pdata datalen cguid rawobj r)
  then show ?thesis using update_inv [OF inv, of key pdata datalen cguid rawobj] by auto
next
  case (step_set key pdata datalen cguid rawobj r)
  then show ?thesis using set_inv [OF inv, of key pdata datalen cguid rawobj] by auto
next
  case (step_get key cguid rawobj r)
  then show ?thesis by (rule get_keeps [OF inv])
next
  case (step_incr key cguid rawobj r)
  then show ?thesis using incr_inv [OF inv, of key cguid rawobj] by auto
next
  case (step_release key key_ptr cguid rawobj r)
  then show ?thesis using release_inv [OF inv, of "\<lambda>n. n - 1" key key_ptr cguid rawobj] by (auto simp: MapRelease_def)
next
  case (step_release_all key key_ptr cguid rawobj r)
  then show ?thesis using release_inv [OF inv, of "\<lambda>_. 0" key key_ptr cguid rawobj] by (auto simp: MapReleaseAll_def)
next
  case (step_delete key cguid rawobj r)
  then show ?thesis using delete_inv [OF inv, of key cguid rawobj] by auto
next
  case (step_clean cguid)
  then show ?thesis using clean_inv [OF inv, of cguid] by auto
qed

lemma reach_inv:
  assumes "map_reach nb limit pm" and "0 < nb"
  shows "map_inv pm \<and> nbuckets pm = nb \<and> max_entries pm = limit"
  using assms(1)
proof induction
  case reach_init
  have "map_ok (MapInit nb limit)" using map_ok_init [OF assms(2)] unfolding map_ok_def by blast
  then show ?case by (simp add: map_inv_def MapInit_def)
next
  case (reach_step pm pm')
  then show ?case using step_inv by auto
qed

section \<open>Lookups after the operations\<close>

lemma lookup_dom:
  assumes "map_wf pm lru bk fr"
  shows "dom (map_lookup pm) = entry_key pm ` set lru"
proof
  show "dom (map_lookup pm) \<subseteq> entry_key pm ` set lru"
  proof
    fix k
    assume "k \<in> dom (map_lookup pm)"
    then have "\<not> (\<forall>a\<in>set lru. entry_key pm a \<noteq> k)" using lookup_absent [OF assms, of k] by (metis domIff)
    then show "k \<in> entry_key pm ` set lru" by auto
  qed
  show "entry_key pm ` set lru \<subseteq> dom (map_lookup pm)"
    by (rule image_subsetI) (rule domI, rule lookup_present [OF assms _ refl])
qed

lemma lookup_count:
  assumes wf: "map_wf pm lru bk fr"
  shows "card (dom (map_lookup pm)) = n_entries pm"
proof -
  have "card (dom (map_lookup pm)) = card (set lru)"
    unfolding lookup_dom [OF wf] by (rule card_image [OF map_wfD(7) [OF wf]])
  then show ?thesis
    using distinct_card [OF lru_list_distinct [OF map_wfD(2) [OF wf]]] map_wfD(10) [OF wf] by simp
qed

lemma info_same:
  assumes "info (store pm' a) = info (store pm a)"
  shows "entry_key pm' a = entry_key pm a" "payload (store pm' a) = payload (store pm a)"
  using infoD [OF assms] by (simp_all add: entry_key_def payload_def)

lemma lookup_sub:
  assumes wf: "map_wf pm lru bk fr" and wf': "map_wf pm' lru' bk' fr'" and sub: "set lru' \<subseteq> set lru"
    and info: "\<And>a. a \<in> set lru' \<Longrightarrow> info (store pm' a) = info (store pm a)"
  shows "a \<in> set lru \<Longrightarrow> map_lookup pm' (entry_key pm a) = (if a \<in> set lru' then Some (payload (store pm a)) else None)"
    and "\<forall>a\<in>set lru. entry_key pm a \<noteq> k \<Longrightarrow> map_lookup pm' k = None"
proof -
  assume a: "a \<in> set lru"
  show "map_lookup pm' (entry_key pm a) = (if a \<in> set lru' then Some (payload (store pm a)) else None)"
  proof (cases "a \<in> set lru'")
    case True
    then show ?thesis using lookup_present [OF wf' True] info_same [OF info] by simp
  next
    case False
    have "entry_key pm' b \<noteq> entry_key pm a" if b: "b \<in> set lru'" for b
      using inj_onD [OF map_wfD(7) [OF wf], of b a] a b sub False info_same(1) [OF info [OF b]] by auto
    then show ?thesis using False lookup_absent [OF wf'] by auto
  qed
next
  assume "\<forall>a\<in>set lru. entry_key pm a \<noteq> k"
  then have "entry_key pm' b \<noteq> k" if b: "b \<in> set lru'" for b
    using b sub info_same(1) [OF info [OF b]] by auto
  then show "map_lookup pm' k = None" using lookup_absent [OF wf'] by blast
qed

lemma drop_lookup:
  assumes wf: "map_wf pm lru bk fr" and b: "bk h = us @ a # vs"
  shows "\<exists>pm'. drop_pme pm h (if us = [] then None else Some (last us)) a = Some pm' \<and>
     map_lookup pm' = (map_lookup pm)(entry_key pm a := None)"
proof -
  have a: "a \<in> set lru" using bucket_facts(4) [OF wf, of a h] b by simp
  then obtain xs ys where l: "lru = xs @ a # ys" by (meson split_list)
  have d: "distinct lru" by (rule lru_list_distinct [OF map_wfD(2) [OF wf]])
  obtain pm' where p: "drop_pme pm h (if us = [] then None else Some (last us)) a = Some pm'"
    "map_wf pm' (xs @ ys) (bk(h := us @ vs)) (a # fr)" "without pm a pm'"
    using drop_pme_wf [OF wf [unfolded l] b refl] by blast
  have inf: "info (store pm' c) = info (store pm c)" if "c \<in> set (xs @ ys)" for c
    using p(3) that d l by (auto simp: without_def)
  have sub: "set (xs @ ys) \<subseteq> set lru" using l by auto
  note s = lookup_sub [OF wf p(2) sub inf]
  have "map_lookup pm' k = ((map_lookup pm)(entry_key pm a := None)) k" for k
  proof (cases "\<exists>c\<in>set lru. entry_key pm c = k")
    case True
    then obtain c where c: "c \<in> set lru" "entry_key pm c = k" by blast
    have "c \<in> set (xs @ ys) \<longleftrightarrow> c \<noteq> a" using c(1) d l by auto
    moreover have "k = entry_key pm a \<longleftrightarrow> c = a" using inj_onD [OF map_wfD(7) [OF wf]] a c by auto
    ultimately show ?thesis using s(1) [OF _ c(1)] lookup_present [OF wf c] c(2) by simp
  next
    case False
    then show ?thesis using s(2) [of k] lookup_absent [OF wf, of k] by auto
  qed
  then show ?thesis using p(1) by auto
qed

section \<open>The cache as a finite map\<close>

text \<open>
  What a client sees: a partial map from the key, the container and the raw-object flag to contents,
  length, reference count and deletion mark.
\<close>

type_synonym cache_key = "u64 \<times> u64 \<times> bool"
type_synonym cache_spec = "cache_key \<rightharpoonup> u64 \<times> u64 \<times> int \<times> bool"

definition spec_update :: "cache_key \<Rightarrow> u64 \<Rightarrow> u64 \<Rightarrow> cache_spec \<Rightarrow> cache_spec" where
  "spec_update k d l m = (case m k of None \<Rightarrow> m | Some (_, _, n, del) \<Rightarrow> m(k \<mapsto> (d, l, n, del)))"

definition spec_ref :: "cache_key \<Rightarrow> cache_spec \<Rightarrow> cache_spec" where
  "spec_ref k m = (case m k of None \<Rightarrow> m | Some (d, l, n, del) \<Rightarrow> m(k \<mapsto> (d, l, n + 1, del)))"

definition spec_delete :: "cache_key \<Rightarrow> cache_spec \<Rightarrow> cache_spec" where
  "spec_delete k m =
     (case m k of None \<Rightarrow> m
      | Some (d, l, n, del) \<Rightarrow> if n = 1 then m(k := None) else m(k \<mapsto> (d, l, n - 1, True)))"

definition spec_clean :: "u64 \<Rightarrow> cache_spec \<Rightarrow> cache_spec" where
  "spec_clean c m = (\<lambda>k. case m k of None \<Rightarrow> None
     | Some (d, l, n, del) \<Rightarrow> if d \<noteq> 0 \<and> fst (snd k) = c then None else Some (d, l, n, del))"

lemma upd_spec:
  assumes "map_wf pm lru bk fr" and "keeps_links f" and "a \<in> set lru" and "entry_key pm a = k"
  shows "map_lookup (upd a f pm) = (map_lookup pm)(k \<mapsto> payload (f (store pm a)))"
  using lookup_upd [OF assms(1-3)] assms(4) by auto

lemma incr_spec:
  assumes inv: "map_inv pm"
  shows "\<exists>pm'. MapIncrRefcnt pm key cguid rawobj = Some (pm', map_lookup pm (key, cguid, rawobj) \<noteq> None) \<and>
     map_lookup pm' = spec_ref (key, cguid, rawobj) (map_lookup pm)"
proof -
  obtain lru bk fr where wf: "map_wf pm lru bk fr" using inv_wf [OF inv] .
  show ?thesis
  proof (cases rule: find_cases [OF wf, of key cguid rawobj])
    case 1
    then show ?thesis using lookup_absent [OF wf 1(1)] by (simp add: MapIncrRefcnt_def spec_ref_def)
  next
    case (2 a)
    then show ?thesis using upd_spec [OF wf keeps_links_fields(4) 2(1,2), of "\<lambda>m. refcnt m + 1"] lookup_present [OF wf 2(1,2)]
      by (simp add: MapIncrRefcnt_def spec_ref_def payload_def)
  qed
qed

lemma get_spec:
  assumes inv: "map_inv pm" and "MapGet pm key cguid rawobj = Some (pm', r)"
  shows "r = map_option (\<lambda>(d, l, _). (d, l)) (map_lookup pm (key, cguid, rawobj)) \<and>
     map_lookup pm' = spec_ref (key, cguid, rawobj) (map_lookup pm)"
proof -
  obtain lru bk fr where wf: "map_wf pm lru bk fr" using inv_wf [OF inv] .
  show ?thesis
  proof (cases rule: find_cases [OF wf, of key cguid rawobj])
    case 1
    then show ?thesis using lookup_absent [OF wf 1(1)] assms(2) by (simp add: MapGet_def spec_ref_def)
  next
    case (2 a)
    let ?f = "\<lambda>m. m\<lparr>refcnt := refcnt m + 1\<rparr>" and ?t = "me_ref_update (\<lambda>_. True)"
    have p: "pm' = (if max_entries pm \<noteq> 0 then upd a (\<lambda>m. ?t (?f m)) pm else upd a ?f pm)"
      and r: "r = Some (contents (store pm a), me_datalen (store pm a))"
      using assms(2) 2(3) by (simp_all add: MapGet_def Let_def map_assert_def update_lru_def upd_twice split: if_splits)
    have "map_lookup pm' = (map_lookup pm)((key, cguid, rawobj) \<mapsto> payload (?f (store pm a)))"
      unfolding p using upd_spec [OF wf _ 2(1,2)] by (simp add: keeps_links_def payload_def)
    then show ?thesis using r lookup_present [OF wf 2(1,2)] by (simp add: spec_ref_def payload_def)
  qed
qed

lemma update_spec:
  assumes inv: "map_inv pm" and "MapUpdate pm key pdata datalen cguid rawobj = Some (pm', r)"
  shows "(r = None \<longleftrightarrow> map_lookup pm (key, cguid, rawobj) = None) \<and>
     map_lookup pm' = spec_update (key, cguid, rawobj) pdata datalen (map_lookup pm)"
proof -
  obtain lru bk fr where wf: "map_wf pm lru bk fr" using inv_wf [OF inv] .
  show ?thesis
  proof (cases rule: find_cases [OF wf, of key cguid rawobj])
    case 1
    then show ?thesis using lookup_absent [OF wf 1(1)] assms(2) by (simp add: MapUpdate_def spec_update_def)
  next
    case (2 a)
    let ?f = "\<lambda>m. m\<lparr>contents := pdata, me_datalen := datalen\<rparr>" and ?t = "me_ref_update (\<lambda>_. True)"
    obtain x where p: "pm' = (if max_entries pm \<noteq> 0 then upd a (\<lambda>m. ?f (?t m)) pm else upd a ?f pm)\<lparr>replaced := x\<rparr>" and r: "r = Some a"
      using assms(2) 2(3)
      by (auto simp: MapUpdate_def Let_def update_lru_def upd_twice callback_def upd_replaced split: if_splits)
    have "map_lookup pm' = (map_lookup pm)((key, cguid, rawobj) \<mapsto> payload (?f (store pm a)))"
      unfolding p using upd_spec [OF wf _ 2(1,2)] by (simp add: keeps_links_def payload_def)
    then show ?thesis using r lookup_present [OF wf 2(1,2)] by (simp add: spec_update_def payload_def)
  qed
qed

lemma delete_spec:
  assumes inv: "map_inv pm"
  shows "\<exists>pm'. MapDelete pm key cguid rawobj = Some (pm', map_lookup pm (key, cguid, rawobj) = None) \<and>
     map_lookup pm' = spec_delete (key, cguid, rawobj) (map_lookup pm)"
proof -
  obtain lru bk fr where wf: "map_wf pm lru bk fr" using inv_wf [OF inv] .
  define h where "h = map_bucket (nbuckets pm) key cguid"
  show ?thesis
  proof (cases rule: find_cases [OF wf, of key cguid rawobj])
    case 1
    then show ?thesis using lookup_absent [OF wf 1(1)] walk_absent [OF wf 1(1)] map_wfD(1) [OF wf]
      by (simp add: MapDelete_def map_assert_def spec_delete_def)
  next
    case (2 a)
    let ?pm1 = "upd a (\<lambda>m. m\<lparr>refcnt := refcnt m - 1\<rparr>) pm"
    obtain us vs where w: "bk h = us @ a # vs"
      "bucket_walk (same_key pm key cguid rawobj) (nxt pm) None (buckets pm h) = Some (Some (if us = [] then None else Some (last us), a))"
      using walk_present [OF wf 2(1,2) h_def] by blast
    have wf1: "map_wf ?pm1 lru bk fr" by (rule wf_data [OF wf keeps_links_fields(4) 2(1)])
    have k1: "entry_key ?pm1 a = (key, cguid, rawobj)" using 2(2) by (simp add: keeps_linksD(4) [OF keeps_links_fields(4)])
    have l1: "map_lookup ?pm1 = (map_lookup pm)((key, cguid, rawobj) \<mapsto> payload ((store pm a)\<lparr>refcnt := refcnt (store pm a) - 1\<rparr>))"
      by (rule upd_spec [OF wf keeps_links_fields(4) 2(1,2)])
    obtain pm2 where d: "drop_pme ?pm1 h (if us = [] then None else Some (last us)) a = Some pm2"
      "map_lookup pm2 = (map_lookup ?pm1)((key, cguid, rawobj) := None)"
      using drop_lookup [OF wf1 w(1)] unfolding k1 by blast
    have "MapDelete pm key cguid rawobj =
       Some (if refcnt (store pm a) = 1 then pm2 else upd a (me_deleted_update (\<lambda>_. True)) ?pm1, False)"
      using d(1) w(2) map_wfD(1) [OF wf] by (simp add: MapDelete_def map_assert_def h_def [symmetric] Let_def store_upd)
    then show ?thesis
      using d(2) l1 upd_spec [OF wf1 keeps_links_fields(3) 2(1) k1, of "\<lambda>_. True"] lookup_present [OF wf 2(1,2)]
      by (simp add: spec_delete_def payload_def store_upd)
  qed
qed

lemma clean_spec:
  assumes inv: "map_inv pm"
  shows "\<exists>pm'. MapClean pm c = Some pm' \<and> map_lookup pm' = spec_clean c (map_lookup pm)"
proof -
  obtain lru bk fr where wf: "map_wf pm lru bk fr" using inv_wf [OF inv] .
  obtain pm' lru' bk' fr' where p: "MapClean pm c = Some pm'" "map_wf pm' lru' bk' fr'"
     "set lru' = {a \<in> set lru. \<not> (a \<in> block_addrs pm \<and> of_container pm c a)}"
     "\<forall>a\<in>set lru'. info (store pm' a) = info (store pm a)"
    using clean_loop_wf [OF wf eq_refl [OF all_addrs], of c] unfolding all_addrs MapClean_def [symmetric] by blast
  have sub: "set lru' \<subseteq> set lru" using p(3) by auto
  note s = lookup_sub [OF wf p(2) sub p(4) [rule_format]]
  have "map_lookup pm' k = spec_clean c (map_lookup pm) k" for k
  proof (cases "\<exists>a\<in>set lru. entry_key pm a = k")
    case True
    then obtain a where a: "a \<in> set lru" "entry_key pm a = k" by blast
    have "a \<in> block_addrs pm" using map_wfD(13) [OF wf] a(1) by auto
    moreover have "fst (snd k) = me_cguid (store pm a)" using a(2) by (auto simp: entry_key_def)
    ultimately have "a \<in> set lru' \<longleftrightarrow> \<not> (contents (store pm a) \<noteq> 0 \<and> fst (snd k) = c)"
      unfolding p(3) using a(1) by (simp add: of_container_def)
    then show ?thesis using s(1) [OF _ a(1)] lookup_present [OF wf a] a(2) by (simp add: spec_clean_def payload_def)
  next
    case False
    then show ?thesis using s(2) [of k] lookup_absent [OF wf, of k] by (auto simp: spec_clean_def)
  qed
  then show ?thesis using p(1) by blast
qed

lemma create_spec:
  assumes inv: "map_inv pm"
  shows "\<exists>pm' r. MapCreate pm key pdata datalen cguid rawobj = Some (pm', r) \<and>
     (if map_lookup pm (key, cguid, rawobj) \<noteq> None then pm' = pm \<and> r = None
      else r \<noteq> None \<and> map_lookup pm' (key, cguid, rawobj) = Some (pdata, datalen, 1, False) \<and>
        (\<forall>k. k \<noteq> (key, cguid, rawobj) \<longrightarrow> map_lookup pm' k = map_lookup pm k \<or>
           map_lookup pm' k = None \<and> (\<exists>c d del. map_lookup pm k = Some (c, d, 0, del))))"
proof -
  obtain lru bk fr where wf: "map_wf pm lru bk fr" using inv_wf [OF inv] .
  show ?thesis
  proof (cases rule: find_cases [OF wf, of key cguid rawobj])
    case 1
    obtain pm' a where "new_pme pm (map_bucket (nbuckets pm) key cguid) key pdata datalen cguid rawobj = Some (pm', a)"
      "map_lookup pm' (key, cguid, rawobj) = Some (pdata, datalen, 1, False)"
      "\<forall>k. k \<noteq> (key, cguid, rawobj) \<longrightarrow> map_lookup pm' k = map_lookup pm k \<or>
         map_lookup pm' k = None \<and> (\<exists>c d del. map_lookup pm k = Some (c, d, 0, del))"
      using new_pme_inv [OF inv wf 1(1) refl, of pdata datalen] by blast
    then show ?thesis using 1(2) lookup_absent [OF wf 1(1)]
      by (intro exI [of _ pm'] exI [of _ "Some a"]) (simp add: MapCreate_def)
  next
    case (2 a)
    then show ?thesis using lookup_present [OF wf 2(1,2)] by (simp add: MapCreate_def)
  qed
qed

text \<open>A release of the last reference of a deleted entry, when no entry has the caller's address as its key.\<close>

lemma release_spec:
  assumes inv: "map_inv pm" and l: "map_lookup pm (key, cguid, rawobj) = Some (d, len, n, del)"
    and ptr: "map_lookup pm (key_ptr, cguid, rawobj) = None"
  shows "\<exists>pm'. MapRelease pm key key_ptr cguid rawobj = Some (pm', True) \<and>
     map_lookup pm' = (map_lookup pm)((key, cguid, rawobj) \<mapsto> (d, len, n - 1, del)) \<and> n_entries pm' = n_entries pm"
proof -
  obtain lru bk fr where wf: "map_wf pm lru bk fr" using inv_wf [OF inv] .
  show ?thesis
  proof (cases rule: find_cases [OF wf, of key cguid rawobj])
    case 1
    then show ?thesis using lookup_absent [OF wf 1(1)] l by simp
  next
    case (2 a)
    let ?pm1 = "upd a (refcnt_update (\<lambda>n. n - 1)) pm"
    have p: "payload (store pm a) = (d, len, n, del)" using lookup_present [OF wf 2(1,2)] l by simp
    have wf1: "map_wf ?pm1 lru bk fr" by (rule wf_data [OF wf keeps_links_fields(2) 2(1)])
    have k1: "entry_key ?pm1 = entry_key pm" by (rule keeps_linksD(4) [OF keeps_links_fields(2)])
    have no: "\<forall>b\<in>set lru. entry_key ?pm1 b \<noteq> (key_ptr, cguid, rawobj)"
    proof
      fix b
      assume "b \<in> set lru"
      then show "entry_key ?pm1 b \<noteq> (key_ptr, cguid, rawobj)"
        unfolding k1 using lookup_present [OF wf, of b "(key_ptr, cguid, rawobj)"] ptr by auto
    qed
    have "release_deleted ?pm1 key key_ptr cguid rawobj = Some ?pm1"
      using walk_absent [OF wf1 no] by (simp add: release_deleted_def Let_def)
    then have "MapRelease pm key key_ptr cguid rawobj = Some (?pm1, True)"
      using 2(3) by (simp add: MapRelease_def release_with_def Let_def)
    moreover have "map_lookup ?pm1 = (map_lookup pm)((key, cguid, rawobj) \<mapsto> (d, len, n - 1, del))"
      using upd_spec [OF wf keeps_links_fields(2) 2(1,2), of "\<lambda>n. n - 1"] p by (simp add: payload_def)
    ultimately show ?thesis by simp
  qed
qed

end
