(* ===== verification/Btree_Map_Theorems.thy ===== *)
theory Btree_Map_Theorems
  imports Btree_Map_Spec
begin

text \<open>
  Properties of the node cache map: its invariant, that its operations return, the finite map they
  implement, which entries the replacement keeps, and what a release does with a deleted entry.
\<close>

section \<open>Referenced entries\<close>

text \<open>A client's sequence of requests, stopping at the first that does not return.\<close>

primrec run_all :: "('s \<Rightarrow> 'r \<Rightarrow> ('s \<times> 'x) option) \<Rightarrow> 'r list \<Rightarrow> 's \<Rightarrow> 's option" where
  "run_all create [] s = Some s"
| "run_all create (r # rs) s = (case create s r of None \<Rightarrow> None | Some (s', _) \<Rightarrow> run_all create rs s')"

text \<open>
  The part of the cache a reader of nodes relies on: an insertion returns and keeps the entries that
  are pinned.
\<close>

locale pinning_cache =
  fixes good :: "'s \<Rightarrow> bool" and look :: "'s \<Rightarrow> 'k \<Rightarrow> 'p option" and pinned :: "'p \<Rightarrow> bool"
    and create :: "'s \<Rightarrow> 'r \<Rightarrow> ('s \<times> 'x) option"
  assumes create_keeps: "good s \<Longrightarrow> \<exists>s' x. create s r = Some (s', x) \<and> good s' \<and>
    (\<forall>k p. look s k = Some p \<and> pinned p \<longrightarrow> look s' k = Some p)"
begin

lemma run_keeps:
  "good s \<Longrightarrow> look s k = Some p \<Longrightarrow> pinned p \<Longrightarrow> \<exists>s'. run_all create rs s = Some s' \<and> good s' \<and> look s' k = Some p"
proof (induction rs arbitrary: s)
  case Nil
  then show ?case by simp
next
  case (Cons r rs)
  obtain s' x where "create s r = Some (s', x)" "good s'" "look s' k = Some p"
    using create_keeps [OF Cons.prems(1), of r] Cons.prems(2,3) by blast
  then show ?case using Cons.IH [of s'] Cons.prems(3) by simp
qed

end

definition create_req :: "map_state \<Rightarrow> u64 \<times> u64 \<times> u64 \<times> u64 \<times> bool \<Rightarrow> (map_state \<times> addr option) option" where
  "create_req pm = (\<lambda>(key, pdata, datalen, cguid, rawobj). MapCreate pm key pdata datalen cguid rawobj)"

lemma create_req_keeps:
  assumes inv: "map_inv pm"
  shows "\<exists>pm' x. create_req pm r = Some (pm', x) \<and> map_inv pm' \<and>
    (\<forall>k p. map_lookup pm k = Some p \<and> (case p of (_, _, n, _) \<Rightarrow> n \<noteq> 0) \<longrightarrow> map_lookup pm' k = Some p)"
proof -
  obtain key pdata datalen cguid rawobj where r: "r = (key, pdata, datalen, cguid, rawobj)" by (cases r)
  obtain pm' x where c: "MapCreate pm key pdata datalen cguid rawobj = Some (pm', x)"
     "if map_lookup pm (key, cguid, rawobj) \<noteq> None then pm' = pm \<and> x = None
      else x \<noteq> None \<and> map_lookup pm' (key, cguid, rawobj) = Some (pdata, datalen, 1, False) \<and>
        (\<forall>k. k \<noteq> (key, cguid, rawobj) \<longrightarrow> map_lookup pm' k = map_lookup pm k \<or>
           map_lookup pm' k = None \<and> (\<exists>c d del. map_lookup pm k = Some (c, d, 0, del)))"
    using create_spec [OF inv, of key pdata datalen cguid rawobj] by blast
  have i: "map_inv pm'" using step_inv [OF step_create [OF c(1)] inv] by blast
  have "map_lookup pm' k = Some p" if k: "map_lookup pm k = Some p" "case p of (_, _, n, _) \<Rightarrow> n \<noteq> 0" for k p
  proof (cases "map_lookup pm (key, cguid, rawobj) = None")
    case True
    then have "k \<noteq> (key, cguid, rawobj)" using k(1) by auto
    then have "map_lookup pm' k = map_lookup pm k \<or> (\<exists>c d del. map_lookup pm k = Some (c, d, 0, del))"
      using c(2) True by metis
    then show ?thesis using k by auto
  next
    case False
    then show ?thesis using c(2) k(1) by simp
  qed
  then show ?thesis using c(1) i r by (auto simp: create_req_def)
qed

interpretation node_cache: pinning_cache map_inv map_lookup "\<lambda>(_, _, n, _). n \<noteq> 0" create_req
  by unfold_locales (rule create_req_keeps)

section \<open>Sample states\<close>

lemma init_lookup: "0 < nb \<Longrightarrow> map_lookup (MapInit nb limit) k = None"
  using lookup_absent [OF map_ok_init] by simp

lemma sample_created: "\<exists>pm. map_reach 4 2 pm \<and> map_lookup pm = [(5, 1, False) \<mapsto> (7, 8, 1, False)]"
proof -
  have r0: "map_reach 4 2 (MapInit 4 2)" by (rule reach_init)
  have n: "map_lookup (MapInit 4 2) k = None" for k by (rule init_lookup) simp
  obtain pm r where c: "MapCreate (MapInit 4 2) 5 7 8 1 False = Some (pm, r)"
     "map_lookup pm (5, 1, False) = Some (7, 8, 1, False)" "\<forall>k. k \<noteq> (5, 1, False) \<longrightarrow> map_lookup pm k = None"
    using create_spec [of "MapInit 4 2" 5 7 8 1 False] reach_inv [OF r0] n by auto
  have "map_lookup pm = [(5, 1, False) \<mapsto> (7, 8, 1, False)]" using c(2,3) by (auto simp: fun_eq_iff)
  then show ?thesis using reach_step [OF r0 step_create [OF c(1)]] by blast
qed

lemma sample_released: "\<exists>pm. map_reach 4 2 pm \<and> map_lookup pm = [(5, 1, False) \<mapsto> (7, 8, 0, False)]"
proof -
  obtain pm where p: "map_reach 4 2 pm" "map_lookup pm = [(5, 1, False) \<mapsto> (7, 8, 1, False)]" using sample_created by blast
  obtain pm' where c: "MapRelease pm 5 4096 1 False = Some (pm', True)" "map_lookup pm' = [(5, 1, False) \<mapsto> (7, 8, 0, False)]"
    using release_spec [of pm 5 1 False 7 8 1 False 4096] reach_inv [OF p(1)] p(2) by auto
  then show ?thesis using reach_step [OF p(1) step_release [OF c(1)]] by blast
qed

lemma sample_deleted: "\<exists>pm. map_reach 4 2 pm \<and> map_lookup pm = [(5, 1, False) \<mapsto> (7, 8, 1, True)]"
proof -
  obtain pm where p: "map_reach 4 2 pm" "map_lookup pm = [(5, 1, False) \<mapsto> (7, 8, 1, False)]" using sample_created by blast
  obtain pm1 r where c: "MapIncrRefcnt pm 5 1 False = Some (pm1, r)" "map_lookup pm1 = [(5, 1, False) \<mapsto> (7, 8, 2, False)]"
    using incr_spec [of pm 5 1 False] reach_inv [OF p(1)] p(2) by (auto simp: spec_ref_def)
  have r1: "map_reach 4 2 pm1" by (rule reach_step [OF p(1) step_incr [OF c(1)]])
  obtain pm2 r where d: "MapDelete pm1 5 1 False = Some (pm2, r)" "map_lookup pm2 = [(5, 1, False) \<mapsto> (7, 8, 1, True)]"
    using delete_spec [of pm1 5 1 False] reach_inv [OF r1] c(2) by (auto simp: spec_delete_def)
  then show ?thesis using reach_step [OF r1 step_delete [OF d(1)]] by blast
qed

section \<open>Properties\<close>

text \<open>C36: In every state the operations reach from \<open>MapInit\<close> with at least one bucket, the bucket chains, the
  doubly linked list of entries, the free list and the clock hand are consistent; \<open>MapNEntries\<close> is the
  number of keys that a lookup finds; and with a limit set that number exceeds the limit by at most the
  number of entries the replacement could not evict (\<open>extra_pme\<close>).
\<close>

theorem cache_map_invariant:
  assumes "map_reach nb limit pm" and "0 < nb"
  shows "map_ok pm \<and> card (dom (map_lookup pm)) = MapNEntries pm \<and>
     (limit \<noteq> 0 \<longrightarrow> MapNEntries pm \<le> limit + extra_pme pm)"
proof -
  have inv: "map_inv pm" "max_entries pm = limit" using reach_inv [OF assms] by auto
  obtain lru bk fr where wf: "map_wf pm lru bk fr" using inv_wf [OF inv(1)] .
  show ?thesis using lookup_count [OF wf] inv by (simp add: map_inv_def MapNEntries_def)
qed

theorem cache_map_invariant_witness:
  "\<exists>pm. map_reach 4 2 pm \<and> map_lookup pm (5, 1, False) = Some (7, 8, 1, False) \<and> map_ok pm \<and> MapNEntries pm = 1"
proof -
  obtain pm where p: "map_reach 4 2 pm" "map_lookup pm = [(5, 1, False) \<mapsto> (7, 8, 1, False)]" using sample_created by blast
  then show ?thesis using cache_map_invariant [OF p(1)] by (intro exI [of _ pm]) simp
qed



text \<open>C35: Seen through lookups, the linked structures implement a finite map.  \<open>MapCreate\<close> does nothing to a
  map that has the key; else the new entry is there with one reference, and any other entry is as before
  or, if nobody referred to it, may be gone.  \<open>MapUpdate\<close>, \<open>MapIncrRefcnt\<close>, \<open>MapDelete\<close>, \<open>MapClean\<close> and
  \<open>MapGet\<close> change exactly the entries their specification says and report whether the key was there.
\<close>

theorem cache_map_refines:
  assumes "map_reach nb limit pm" and "0 < nb"
  shows "(\<exists>pm' r. MapCreate pm key d l c raw = Some (pm', r) \<and>
      (if map_lookup pm (key, c, raw) \<noteq> None then pm' = pm \<and> r = None
       else r \<noteq> None \<and> map_lookup pm' (key, c, raw) = Some (d, l, 1, False) \<and>
        (\<forall>k. k \<noteq> (key, c, raw) \<longrightarrow> map_lookup pm' k = map_lookup pm k \<or>
           map_lookup pm' k = None \<and> (\<exists>d' l' del. map_lookup pm k = Some (d', l', 0, del))))) \<and>
    (\<exists>pm' r. MapUpdate pm key d l c raw = Some (pm', r) \<and> (r = None \<longleftrightarrow> map_lookup pm (key, c, raw) = None) \<and>
       map_lookup pm' = spec_update (key, c, raw) d l (map_lookup pm)) \<and>
    (\<exists>pm'. MapIncrRefcnt pm key c raw = Some (pm', map_lookup pm (key, c, raw) \<noteq> None) \<and>
       map_lookup pm' = spec_ref (key, c, raw) (map_lookup pm)) \<and>
    (\<exists>pm'. MapDelete pm key c raw = Some (pm', map_lookup pm (key, c, raw) = None) \<and>
       map_lookup pm' = spec_delete (key, c, raw) (map_lookup pm)) \<and>
    (\<exists>pm'. MapClean pm c = Some pm' \<and> map_lookup pm' = spec_clean c (map_lookup pm)) \<and>
    (\<forall>pm' r. MapGet pm key c raw = Some (pm', r) \<longrightarrow>
       r = map_option (\<lambda>(d, l, _). (d, l)) (map_lookup pm (key, c, raw)) \<and>
       map_lookup pm' = spec_ref (key, c, raw) (map_lookup pm))"
proof -
  have inv: "map_inv pm" using reach_inv [OF assms] by blast
  have u: "\<exists>pm' r. MapUpdate pm key d l c raw = Some (pm', r) \<and> (r = None \<longleftrightarrow> map_lookup pm (key, c, raw) = None) \<and>
       map_lookup pm' = spec_update (key, c, raw) d l (map_lookup pm)"
    using update_inv [OF inv, of key d l c raw] update_spec [OF inv, of key d l c raw] by blast
  show ?thesis
    using create_spec [OF inv, of key d l c raw] u incr_spec [OF inv, of key c raw] delete_spec [OF inv, of key c raw]
      clean_spec [OF inv, of c] get_spec [OF inv, of key c raw]
    by (intro conjI) blast+
qed

theorem cache_map_refines_witness:
  "\<exists>pm pm'. map_reach 4 2 pm \<and> MapDelete pm 5 1 False = Some (pm', False) \<and> map_lookup pm' (5, 1, False) = None"
proof -
  obtain pm where p: "map_reach 4 2 pm" "map_lookup pm = [(5, 1, False) \<mapsto> (7, 8, 1, False)]" using sample_created by blast
  then show ?thesis using cache_map_refines [OF p(1), of 5 7 8 1 False] by (auto simp: spec_delete_def)
qed

text \<open>C38: The clock gives every entry one more chance and no more: if some entry has no reference, the scan
  of \<open>try_replace_lru\<close> ends, and if it finds no victim the next scan does.
\<close>

theorem replacement_finds_victim:
  assumes "map_reach nb limit pm" and "0 < nb" and "map_lookup pm k = Some (d, l, 0, del)"
  shows "\<exists>pm1 found. try_replace_lru pm = Some (pm1, found) \<and> (found \<or> (\<exists>pm2. try_replace_lru pm1 = Some (pm2, True)))"
proof -
  have inv: "map_inv pm" using reach_inv [OF assms(1,2)] by blast
  obtain lru bk fr where wf: "map_wf pm lru bk fr" using inv_wf [OF inv] .
  obtain a where a: "a \<in> set lru" "refcnt (store pm a) = 0"
    using lookup_SomeD [OF wf assms(3)] by (auto simp: payload_def)
  have ne: "lru \<noteq> []" using a(1) by auto
  obtain pm1 found where t: "try_replace_lru pm = Some (pm1, found)"
     "\<not> found \<longrightarrow> cleared pm pm1 \<and> (\<forall>a\<in>set lru. \<not> me_ref (store pm1 a))"
    using try_replace_wf [OF wf ne] by blast
  have "\<exists>pm2. try_replace_lru pm1 = Some (pm2, True)" if f: "\<not> found"
  proof -
    have c: "cleared pm pm1" and m: "\<not> me_ref (store pm1 a)" using t(2) f a(1) by auto
    have wf1: "map_wf pm1 lru bk fr" using cleared_wf [OF c] wf by simp
    have "refcnt (store pm1 a) = 0" using same_data_refcnt [OF cleared_data [OF c]] a(2) by simp
    then show ?thesis using try_replace_wf [OF wf1 ne] m a(1) by (metis (full_types))
  qed
  then show ?thesis using t(1) by blast
qed

theorem replacement_finds_victim_witness:
  "\<exists>pm pm1 found. map_reach 4 2 pm \<and> try_replace_lru pm = Some (pm1, found) \<and>
     (found \<or> (\<exists>pm2. try_replace_lru pm1 = Some (pm2, True)))"
proof -
  obtain pm where p: "map_reach 4 2 pm" "map_lookup pm = [(5, 1, False) \<mapsto> (7, 8, 0, False)]" using sample_released by blast
  then show ?thesis using replacement_finds_victim [OF p(1), of "(5, 1, False)" 7 8 False] by auto
qed

text \<open>C39: \<open>MapRelease\<close> does not remove a deleted entry with its last reference: it compares the entry's key with
  the address of the caller's key.  Unless that address happens to be the key of an entry, the deleted
  entry stays in the map without references, and lookups still find it.
\<close>

theorem release_keeps_deleted:
  assumes "map_reach nb limit pm" and "0 < nb" and "map_lookup pm (key, c, raw) = Some (d, l, 1, True)"
    and "map_lookup pm (key_ptr, c, raw) = None"
  shows "\<exists>pm'. MapRelease pm key key_ptr c raw = Some (pm', True) \<and> map_lookup pm' (key, c, raw) = Some (d, l, 0, True) \<and>
     MapNEntries pm' = MapNEntries pm"
  using release_spec [OF _ assms(3,4)] reach_inv [OF assms(1,2)] by (auto simp: MapNEntries_def)

theorem release_keeps_deleted_witness:
  "\<exists>pm pm'. map_reach 4 2 pm \<and> map_lookup pm (5, 1, False) = Some (7, 8, 1, True) \<and>
     MapRelease pm 5 4096 1 False = Some (pm', True) \<and> map_lookup pm' (5, 1, False) = Some (7, 8, 0, True)"
proof -
  obtain pm where p: "map_reach 4 2 pm" "map_lookup pm = [(5, 1, False) \<mapsto> (7, 8, 1, True)]" using sample_deleted by blast
  then show ?thesis using release_keeps_deleted [OF p(1), of 5 1 False 7 8 4096] by auto
qed

end
