(* ===== verification/Btree_Pmap.thy ===== *)
theory Btree_Pmap
  imports Btree_Map_Theorems
begin

text \<open>
  The partitioned node cache (\<open>src/btree/btree_pmap.c\<close>): an array of maps, in which the hash of the node id
  and container selects the map.  A result \<^term>\<open>None\<close> is that of the map's operation, or no partitions.
\<close>

section \<open>Operations\<close>

type_synonym pmap = "map_state list"

definition PMapInit :: "nat \<Rightarrow> nat \<Rightarrow> nat \<Rightarrow> pmap" where
  "PMapInit nparts nb limit = replicate nparts (MapInit nb limit)"

definition PMapNEntries :: "pmap \<Rightarrow> nat" where
  "PMapNEntries ps = sum_list (map MapNEntries ps)"

fun PMapClean :: "pmap \<Rightarrow> u64 \<Rightarrow> pmap option" where
  "PMapClean [] cguid = Some []"
| "PMapClean (pm # ps) cguid = do {
     pm' \<leftarrow> MapClean pm cguid;
     ps' \<leftarrow> PMapClean ps cguid;
     Some (pm' # ps')
   }"

text \<open>An operation on the partition of the key.\<close>

definition on_part :: "pmap \<Rightarrow> u64 \<Rightarrow> u64 \<Rightarrow> (map_state \<Rightarrow> (map_state \<times> 'x) option) \<Rightarrow> (pmap \<times> 'x) option" where
  "on_part ps key cguid f =
     (let idx = pmap_part (length ps) key cguid in
      do {
        _ \<leftarrow> map_assert (ps \<noteq> []);
        (pm', x) \<leftarrow> f (ps ! idx);
        Some (ps[idx := pm'], x)
      })"

definition PMapCreate :: "pmap \<Rightarrow> u64 \<Rightarrow> u64 \<Rightarrow> u64 \<Rightarrow> u64 \<Rightarrow> bool \<Rightarrow> (pmap \<times> addr option) option" where
  "PMapCreate ps key pdata datalen cguid robj = on_part ps key cguid (\<lambda>pm. MapCreate pm key pdata datalen cguid robj)"

definition PMapUpdate :: "pmap \<Rightarrow> u64 \<Rightarrow> u64 \<Rightarrow> u64 \<Rightarrow> u64 \<Rightarrow> bool \<Rightarrow> (pmap \<times> addr option) option" where
  "PMapUpdate ps key pdata datalen cguid robj = on_part ps key cguid (\<lambda>pm. MapUpdate pm key pdata datalen cguid robj)"

definition PMapSet :: "pmap \<Rightarrow> u64 \<Rightarrow> u64 \<Rightarrow> u64 \<Rightarrow> u64 \<Rightarrow> bool \<Rightarrow> (pmap \<times> addr \<times> u64 \<times> u64) option" where
  "PMapSet ps key pdata datalen cguid robj = on_part ps key cguid (\<lambda>pm. MapSet pm key pdata datalen cguid robj)"

definition PMapGet :: "pmap \<Rightarrow> u64 \<Rightarrow> u64 \<Rightarrow> bool \<Rightarrow> (pmap \<times> (u64 \<times> u64) option) option" where
  "PMapGet ps key cguid robj = on_part ps key cguid (\<lambda>pm. MapGet pm key cguid robj)"

definition PMapGetRefcnt :: "pmap \<Rightarrow> u64 \<Rightarrow> u64 \<Rightarrow> bool \<Rightarrow> int option" where
  "PMapGetRefcnt ps key cguid robj = do {
     _ \<leftarrow> map_assert (ps \<noteq> []);
     MapGetRefcnt (ps ! pmap_part (length ps) key cguid) key cguid robj
   }"

definition PMapIncrRefcnt :: "pmap \<Rightarrow> u64 \<Rightarrow> u64 \<Rightarrow> bool \<Rightarrow> (pmap \<times> bool) option" where
  "PMapIncrRefcnt ps key cguid robj = on_part ps key cguid (\<lambda>pm. MapIncrRefcnt pm key cguid robj)"

definition PMapRelease :: "pmap \<Rightarrow> u64 \<Rightarrow> u64 \<Rightarrow> u64 \<Rightarrow> bool \<Rightarrow> (pmap \<times> bool) option" where
  "PMapRelease ps key key_ptr cguid robj = on_part ps key cguid (\<lambda>pm. MapRelease pm key key_ptr cguid robj)"

definition PMapReleaseAll :: "pmap \<Rightarrow> u64 \<Rightarrow> u64 \<Rightarrow> u64 \<Rightarrow> bool \<Rightarrow> (pmap \<times> bool) option" where
  "PMapReleaseAll ps key key_ptr cguid robj = on_part ps key cguid (\<lambda>pm. MapReleaseAll pm key key_ptr cguid robj)"

definition PMapDelete :: "pmap \<Rightarrow> u64 \<Rightarrow> u64 \<Rightarrow> bool \<Rightarrow> (pmap \<times> bool) option" where
  "PMapDelete ps key cguid robj = on_part ps key cguid (\<lambda>pm. MapDelete pm key cguid robj)"

section \<open>Reachable states\<close>

inductive pmap_step :: "pmap \<Rightarrow> pmap \<Rightarrow> bool" where
  pstep_create: "PMapCreate ps key pdata datalen cguid robj = Some (ps', r) \<Longrightarrow> pmap_step ps ps'"
| pstep_update: "PMapUpdate ps key pdata datalen cguid robj = Some (ps', r) \<Longrightarrow> pmap_step ps ps'"
| pstep_set: "PMapSet ps key pdata datalen cguid robj = Some (ps', r') \<Longrightarrow> pmap_step ps ps'"
| pstep_get: "PMapGet ps key cguid robj = Some (ps', r'') \<Longrightarrow> pmap_step ps ps'"
| pstep_incr: "PMapIncrRefcnt ps key cguid robj = Some (ps', b) \<Longrightarrow> pmap_step ps ps'"
| pstep_release: "PMapRelease ps key key_ptr cguid robj = Some (ps', b) \<Longrightarrow> pmap_step ps ps'"
| pstep_release_all: "PMapReleaseAll ps key key_ptr cguid robj = Some (ps', b) \<Longrightarrow> pmap_step ps ps'"
| pstep_delete: "PMapDelete ps key cguid robj = Some (ps', b) \<Longrightarrow> pmap_step ps ps'"
| pstep_clean: "PMapClean ps cguid = Some ps' \<Longrightarrow> pmap_step ps ps'"

inductive pmap_reach :: "nat \<Rightarrow> nat \<Rightarrow> nat \<Rightarrow> pmap \<Rightarrow> bool" for nparts nb limit where
  preach_init: "pmap_reach nparts nb limit (PMapInit nparts nb limit)"
| preach_step: "pmap_reach nparts nb limit ps \<Longrightarrow> pmap_step ps ps' \<Longrightarrow> pmap_reach nparts nb limit ps'"

lemma part_bound: "ps \<noteq> [] \<Longrightarrow> pmap_part (length ps) key cguid < length ps"
  by (simp add: pmap_part_def)

lemma on_partD:
  assumes "on_part ps key cguid f = Some (ps', x)"
  obtains pm' where "ps \<noteq> []" and "f (ps ! pmap_part (length ps) key cguid) = Some (pm', x)"
    and "ps' = ps[pmap_part (length ps) key cguid := pm']"
  using assms by (auto simp: on_part_def map_assert_def Let_def split: if_splits bind_splits)

text \<open>Each partition goes through steps of its own.\<close>

abbreviation part_steps :: "pmap \<Rightarrow> pmap \<Rightarrow> bool" where
  "part_steps \<equiv> list_all2 (\<lambda>pm pm'. pm' = pm \<or> map_step pm pm')"

lemma on_part_steps:
  assumes "on_part ps key cguid f = Some (ps', x)" and "\<And>pm pm' x. f pm = Some (pm', x) \<Longrightarrow> map_step pm pm'"
  shows "part_steps ps ps'"
proof -
  obtain pm' where u: "f (ps ! pmap_part (length ps) key cguid) = Some (pm', x)" "ps' = ps[pmap_part (length ps) key cguid := pm']" "ps \<noteq> []"
    using on_partD [OF assms(1)] by blast
  have "map_step (ps ! pmap_part (length ps) key cguid) pm'" by (rule assms(2) [OF u(1)])
  then show ?thesis unfolding u(2) using part_bound [OF u(3), of key cguid] by (auto simp: list_all2_conv_all_nth nth_list_update)
qed

lemma clean_steps: "PMapClean ps cguid = Some ps' \<Longrightarrow> part_steps ps ps'"
  by (induction ps cguid arbitrary: ps' rule: PMapClean.induct) (auto split: bind_splits intro: map_step.intros)

lemma pmap_step_parts: "pmap_step ps ps' \<Longrightarrow> part_steps ps ps'"
  by (induction rule: pmap_step.induct)
    (auto simp: PMapCreate_def PMapUpdate_def PMapSet_def PMapGet_def PMapIncrRefcnt_def PMapRelease_def PMapReleaseAll_def
      PMapDelete_def intro: clean_steps elim!: on_part_steps intro: map_step.intros)

lemma pmap_reach_parts:
  assumes "pmap_reach nparts nb limit ps"
  shows "length ps = nparts \<and> (\<forall>pm\<in>set ps. map_reach nb limit pm)"
  using assms
proof induction
  case preach_init
  then show ?case by (auto simp: PMapInit_def intro: reach_init)
next
  case (preach_step ps ps')
  then show ?case using pmap_step_parts [OF preach_step(2)]
    by (auto simp: list_all2_conv_all_nth all_set_conv_all_nth intro: reach_step) (metis reach_step)
qed

section \<open>Lookups\<close>

definition pmap_lookup :: "pmap \<Rightarrow> cache_spec" where
  "pmap_lookup ps = (\<lambda>(key, cguid, robj). map_lookup (ps ! pmap_part (length ps) key cguid) (key, cguid, robj))"

definition pmap_inv :: "pmap \<Rightarrow> bool" where
  "pmap_inv ps \<longleftrightarrow> ps \<noteq> [] \<and> (\<forall>pm\<in>set ps. map_inv pm)"

definition pcreate_req :: "pmap \<Rightarrow> u64 \<times> u64 \<times> u64 \<times> u64 \<times> bool \<Rightarrow> (pmap \<times> addr option) option" where
  "pcreate_req ps = (\<lambda>(key, pdata, datalen, cguid, robj). PMapCreate ps key pdata datalen cguid robj)"

lemma pcreate_req_keeps:
  assumes inv: "pmap_inv ps"
  shows "\<exists>ps' x. pcreate_req ps r = Some (ps', x) \<and> pmap_inv ps' \<and>
    (\<forall>k p. pmap_lookup ps k = Some p \<and> (case p of (_, _, n, _) \<Rightarrow> n \<noteq> 0) \<longrightarrow> pmap_lookup ps' k = Some p)"
proof -
  obtain key pdata datalen cguid robj where r: "r = (key, pdata, datalen, cguid, robj)" by (cases r)
  define i where "i = pmap_part (length ps) key cguid"
  have ne: "ps \<noteq> []" and i: "i < length ps" using inv part_bound by (auto simp: pmap_inv_def i_def)
  then have "map_inv (ps ! i)" using inv by (simp add: pmap_inv_def)
  then obtain pm' x where c: "create_req (ps ! i) r = Some (pm', x)" "map_inv pm'"
    "\<forall>k p. map_lookup (ps ! i) k = Some p \<and> (case p of (_, _, n, _) \<Rightarrow> n \<noteq> 0) \<longrightarrow> map_lookup pm' k = Some p"
    using node_cache.create_keeps [of "ps ! i" r] by blast
  have e: "pcreate_req ps r = Some (ps[i := pm'], x)"
    using c(1) ne r by (simp add: pcreate_req_def create_req_def PMapCreate_def on_part_def map_assert_def i_def)
  have "pmap_inv (ps[i := pm'])" using inv c(2) set_update_subset_insert [of ps i pm'] by (auto simp: pmap_inv_def)
  moreover have "pmap_lookup (ps[i := pm']) k = Some p"
    if "pmap_lookup ps k = Some p" "case p of (_, _, n, _) \<Rightarrow> n \<noteq> 0" for k p
    using that c(3) i by (cases k) (auto simp: pmap_lookup_def nth_list_update)
  ultimately show ?thesis using e by blast
qed

interpretation node_pcache: pinning_cache pmap_inv pmap_lookup "\<lambda>(_, _, n, _). n \<noteq> 0" pcreate_req
  by unfold_locales (rule pcreate_req_keeps)

section \<open>Properties\<close>

lemma preach_inv: "pmap_reach nparts nb limit ps \<Longrightarrow> 0 < nparts \<Longrightarrow> 0 < nb \<Longrightarrow> pmap_inv ps"
  using pmap_reach_parts reach_inv by (force simp: pmap_inv_def)

text \<open>C34: A node with a reference is never evicted from the node cache: after any number of \<open>PMapCreate\<close> calls,
  whatever keys they have and however small the limit of a partition, all of them have returned and a
  lookup finds the node with its contents, count and mark unchanged.
\<close>

theorem referenced_node_kept:
  assumes "pmap_reach nparts nb limit ps" and "0 < nparts" and "0 < nb"
    and "pmap_lookup ps k = Some (d, l, n, del)" and "n \<noteq> 0"
  shows "\<exists>ps'. run_all pcreate_req reqs ps = Some ps' \<and> pmap_lookup ps' k = Some (d, l, n, del)"
  using node_pcache.run_keeps [of ps k "(d, l, n, del)" reqs] preach_inv [OF assms(1-3)] assms(4,5) by auto

theorem referenced_node_kept_witness:
  "\<exists>ps ps'. pmap_reach 3 4 1 ps \<and> run_all pcreate_req [(1, 2, 3, 4, False), (9, 2, 3, 4, False), (10, 2, 3, 4, True)] ps = Some ps' \<and>
     pmap_lookup ps' (5, 1, False) = Some (7, 8, 1, False)"
proof -
  let ?p0 = "PMapInit 3 4 1"
  define i where "i = pmap_part 3 5 1"
  have r0: "pmap_reach 3 4 1 ?p0" by (rule preach_init)
  have i: "i < 3" "length ?p0 = 3" "?p0 ! i = MapInit 4 1" by (simp_all add: i_def pmap_part_def PMapInit_def)
  obtain pm x where c: "MapCreate (MapInit 4 1) 5 7 8 1 False = Some (pm, x)" "map_lookup pm (5, 1, False) = Some (7, 8, 1, False)"
    using create_spec [of "MapInit 4 1" 5 7 8 1 False] reach_inv [OF reach_init, of 4 1] init_lookup [of 4 1] by auto
  have e: "PMapCreate ?p0 5 7 8 1 False = Some (?p0[i := pm], x)"
    using c(1) i by (simp add: PMapCreate_def on_part_def map_assert_def i_def [symmetric]) (simp add: PMapInit_def)
  have r1: "pmap_reach 3 4 1 (?p0[i := pm])" by (rule preach_step [OF r0 pstep_create [OF e]])
  have "pmap_lookup (?p0[i := pm]) (5, 1, False) = Some (7, 8, 1, False)"
    using c(2) i by (simp add: pmap_lookup_def i_def [symmetric])
  then show ?thesis
    using referenced_node_kept [OF r1, of "(5, 1, False)" 7 8 1 False "[(1, 2, 3, 4, False), (9, 2, 3, 4, False), (10, 2, 3, 4, True)]"] r1
    by auto
qed

end
