(* ===== verification/Btree_Tree.thy ===== *)
theory Btree_Tree
  imports Btree_Overflow
begin

text \<open>
  Reading an object of the tree (\<open>btree_raw_get\<close> and \<open>btree_raw_find\<close> in \<open>src/btree/btree_raw.c\<close>): the
  descent from the root through cached nodes, reading those that are not cached, and the search in the
  leaf.

  The state holds the cached leaf and non-leaf nodes, what a read of each node from flash returns, and
  the state of the overflow nodes.  A lookup runs alone: the root does not change while it is fetched, a
  node that was read stays valid, and nobody else refers to the nodes it releases.  Locks, pinned nodes,
  statistics, the error log and raw objects (\<open>bt_storm_mode\<close>) are left out.
\<close>

unbundle bit_operations_syntax

section \<open>State\<close>

record tree_mem_node =
  tn_node :: btree_node
  tn_valid :: bool
  tn_deleted :: bool
  deref_delete_cache :: bool

record tree_state =
  tn_cache :: "u64 \<Rightarrow> tree_mem_node option"
  tn_flash :: "u64 \<Rightarrow> btree_status + btree_node"
  tn_overflow :: overflow_state

definition FORCE_DELETE :: u32 where "FORCE_DELETE = push_bit 20 1"

section \<open>Nodes\<close>

text \<open>
  \<open>get_existing_node\<close>; \<open>dd\<close> is the flag \<open>NODE_CACHE_DEREF_DELETE\<close>.  A failed read removes the node from
  the cache.
\<close>

definition get_existing_node ::
  "tree_state \<Rightarrow> u64 \<Rightarrow> bool \<Rightarrow> (tree_state \<times> (btree_status + btree_node)) option" where
  "get_existing_node st i dd =
     (let hit = (case tn_cache st i of None \<Rightarrow> False | Some m \<Rightarrow> tn_valid m);
          deleted = (case tn_cache st i of None \<Rightarrow> False | Some m \<Rightarrow> tn_deleted m)
      in if deleted then None
         else if hit then
           (let m = the (tn_cache st i);
                m' = (if dd then m else m\<lparr>deref_delete_cache := False\<rparr>)
            in Some (st\<lparr>tn_cache := (tn_cache st)(i \<mapsto> m')\<rparr>, Inr (tn_node m)))
         else (case tn_flash st i of
                 Inl ret \<Rightarrow> Some (st\<lparr>tn_cache := (tn_cache st)(i := None)\<rparr>, Inl ret)
               | Inr n \<Rightarrow> do {
                   _ \<leftarrow> assert_opt (i = node_logical_id n);
                   Some (st\<lparr>tn_cache := (tn_cache st)(i \<mapsto>
                     \<lparr>tn_node = n, tn_valid = True, tn_deleted = False, deref_delete_cache = dd\<rparr>)\<rparr>, Inr n)
                 }))"

text \<open>A release of a node that is not in the cache fails an assertion.\<close>

definition deref_l1cache_node :: "tree_state \<Rightarrow> u64 \<Rightarrow> tree_state option" where
  "deref_l1cache_node st i = do {
     m \<leftarrow> tn_cache st i;
     Some (if deref_delete_cache m then st\<lparr>tn_cache := (tn_cache st)(i := None)\<rparr> else st)
   }"

definition root_get_and_lock :: "btree_raw \<Rightarrow> tree_state \<Rightarrow> (tree_state \<times> (btree_status + btree_node)) option" where
  "root_get_and_lock bt st = get_existing_node st (rootid bt) False"

section \<open>Descent\<close>

text \<open>The loop of \<open>btree_raw_find\<close>, at node \<open>i\<close>: the leaf it ends at, or the status of a failed read.\<close>

partial_function (option) find_loop ::
  "btree_raw \<Rightarrow> mem \<Rightarrow> btree_metadata \<Rightarrow> bool \<Rightarrow> tree_state \<Rightarrow> u64 \<Rightarrow> btree_node \<Rightarrow> nat
    \<Rightarrow> (tree_state \<times> (btree_status + u64 \<times> btree_node) \<times> nat) option" where
  "find_loop bt key meta snap_query st i node pathcnt =
     (if is_leaf node then Some (st, Inr (i, node), pathcnt)
      else do {
        (_, _, child_id) \<leftarrow> bsearch_key bt node key (Some meta) BSF_LATEST;
        _ \<leftarrow> assert_opt (child_id \<noteq> BAD_CHILD);
        (st1, r) \<leftarrow> get_existing_node st child_id snap_query;
        st2 \<leftarrow> deref_l1cache_node st1 i;
        (if isl r then Some (st2, Inl (projl r), pathcnt)
         else find_loop bt key meta snap_query st2 child_id (projr r) (pathcnt + 1))
      })"

text \<open>
  The result is the id of the leaf, the leaf, the index and \<open>found\<close>, with the length of the path; or the
  status if there is no node.  A tombstone counts as not found unless the find is for a forced delete.
\<close>

definition btree_raw_find ::
  "btree_raw \<Rightarrow> tree_state \<Rightarrow> mem \<Rightarrow> btree_metadata \<Rightarrow> nat
    \<Rightarrow> (tree_state \<times> (btree_status + u64 \<times> leaf_node \<times> int \<times> bool) \<times> nat) option" where
  "btree_raw_find bt st key meta pathcnt =
     (let snap_query = (md_flags meta AND (READ_SEQNO_EQ OR READ_SEQNO_LE OR READ_SEQNO_GT_LE) \<noteq> 0) in
      do {
        (st1, r) \<leftarrow> root_get_and_lock bt st;
        (case r of
           Inl ret \<Rightarrow> Some (st1, Inl ret, pathcnt)
         | Inr root \<Rightarrow> do {
             (st2, r2, pathcnt') \<leftarrow> find_loop bt key meta snap_query st1 (rootid bt) root pathcnt;
             (case r2 of
                Inr (i, LeafNode n) \<Rightarrow> do {
                  (index, found, _) \<leftarrow> bsearch_key bt (LeafNode n) key (Some meta) BSF_LATEST;
                  tombstone \<leftarrow> (if found then btree_leaf_is_key_tombstoned n (nat index) else Some False);
                  Some (st2, Inr (i, n, index, found \<and> \<not> (tombstone \<and> md_flags meta AND FORCE_DELETE = 0)), pathcnt')
                }
              | Inr (i, NonLeafNode n) \<Rightarrow> None
              | Inl ret \<Rightarrow> Some (st2, Inl ret, pathcnt'))
           })
      })"

text \<open>The status, the data (\<^term>\<open>None\<close> if no pointer is returned) and their length.\<close>

definition btree_raw_get ::
  "btree_raw \<Rightarrow> tree_state \<Rightarrow> mem \<Rightarrow> btree_metadata
    \<Rightarrow> (tree_state \<times> btree_status \<times> mem option \<times> u64) option" where
  "btree_raw_get bt st key meta = do {
     (st1, r, pathcnt) \<leftarrow> btree_raw_find bt st key meta 1;
     (case r of
        Inl find_ret \<Rightarrow> Some (st1, find_ret, None, 0)
      | Inr (i, n, index, found) \<Rightarrow> do {
          (ov, ret, data, datalen) \<leftarrow>
            (if found then get_leaf_data_nth_key bt (tn_overflow st1) n (nat index) (md_flags meta) False
             else Some (tn_overflow st1, BTREE_KEY_NOT_FOUND, None, 0));
          st2 \<leftarrow> deref_l1cache_node (st1\<lparr>tn_overflow := ov\<rparr>) i;
          Some (st2, ret, data, datalen)
        })
   }"

end
