(* ===== verification/Btree_Tree_Correct.thy ===== *)
theory Btree_Tree_Correct
  imports Btree_Tree Btree_Nonleaf_Correct
begin

text \<open>
  The search tree the nodes form, and the descent in it.  \<open>tn_view\<close> is what a client sees of a node,
  whether it is cached or has to be read.
\<close>

section \<open>Nodes\<close>

definition flash_node :: "tree_state \<Rightarrow> u64 \<Rightarrow> btree_node option" where
  "flash_node st i = (case tn_flash st i of Inl _ \<Rightarrow> None | Inr n \<Rightarrow> if node_logical_id n = i then Some n else None)"

lemma flash_node_cache [simp]: "flash_node (st\<lparr>tn_cache := c\<rparr>) = flash_node st"
  by (simp add: flash_node_def fun_eq_iff)

definition tn_view :: "tree_state \<Rightarrow> u64 \<Rightarrow> btree_node option" where
  "tn_view st i =
     (case tn_cache st i of
        None \<Rightarrow> flash_node st i
      | Some m \<Rightarrow> if tn_deleted m then None else if tn_valid m then Some (tn_node m) else flash_node st i)"

text \<open>Nodes that leave the cache when they are released are as on flash.\<close>

definition tn_clean :: "tree_state \<Rightarrow> bool" where
  "tn_clean st \<longleftrightarrow> (\<forall>i m. tn_cache st i = Some m \<and> deref_delete_cache m \<and> tn_valid m \<and> \<not> tn_deleted m \<longrightarrow>
     flash_node st i = Some (tn_node m))"

definition tn_held :: "tree_state \<Rightarrow> u64 \<Rightarrow> bool" where
  "tn_held st i \<longleftrightarrow> (\<exists>m. tn_cache st i = Some m \<and> tn_valid m \<and> \<not> tn_deleted m)"

lemma view_overflow [simp]:
  "tn_view (st\<lparr>tn_overflow := v\<rparr>) = tn_view st" "tn_clean (st\<lparr>tn_overflow := v\<rparr>) = tn_clean st"
  "tn_held (st\<lparr>tn_overflow := v\<rparr>) = tn_held st"
proof -
  have fl: "flash_node (st\<lparr>tn_overflow := v\<rparr>) = flash_node st" by (simp add: flash_node_def fun_eq_iff)
  show "tn_view (st\<lparr>tn_overflow := v\<rparr>) = tn_view st"
    by (simp add: tn_view_def fun_eq_iff fl cong: option.case_cong if_cong)
  show "tn_clean (st\<lparr>tn_overflow := v\<rparr>) = tn_clean st" by (simp add: tn_clean_def fl)
  show "tn_held (st\<lparr>tn_overflow := v\<rparr>) = tn_held st" by (simp add: tn_held_def fun_eq_iff)
qed

lemma tree_get_view:
  assumes v: "tn_view st i = Some n" and c: "tn_clean st"
  obtains st' where "get_existing_node st i dd = Some (st', Inr n)" and "tn_view st' = tn_view st" and "tn_clean st'"
    and "tn_held st' i" and "\<And>j. tn_held st j \<Longrightarrow> tn_held st' j" and "tn_overflow st' = tn_overflow st"
proof (cases "tn_held st i")
  case True
  then obtain m where m: "tn_cache st i = Some m" "tn_valid m" "\<not> tn_deleted m" by (auto simp: tn_held_def)
  let ?st = "st\<lparr>tn_cache := (tn_cache st)(i \<mapsto> if dd then m else m\<lparr>deref_delete_cache := False\<rparr>)\<rparr>"
  have fl: "flash_node ?st = flash_node st" by (simp add: flash_node_def fun_eq_iff)
  show ?thesis
  proof (rule that)
    show "get_existing_node st i dd = Some (?st, Inr n)"
      using v m by (simp add: get_existing_node_def tn_view_def Let_def)
    show "tn_view ?st = tn_view st" using m by (auto simp: tn_view_def fun_eq_iff cong: option.case_cong if_cong)
    show "tn_clean ?st" using c m(1) unfolding tn_clean_def fl by auto
    show "tn_held ?st i" using m by (simp add: tn_held_def)
    show "tn_held ?st j" if "tn_held st j" for j using that m by (auto simp: tn_held_def)
  qed simp
next
  case False
  have nd: "tn_deleted m = False" "tn_valid m = False" if "tn_cache st i = Some m" for m
    using v False that by (auto simp: tn_view_def tn_held_def split: if_splits)
  have fi: "flash_node st i = Some n" using v nd by (auto simp: tn_view_def split: option.splits)
  then have f: "tn_flash st i = Inr n" "node_logical_id n = i"
    by (auto simp: flash_node_def split: sum.splits if_splits)
  let ?st = "st\<lparr>tn_cache := (tn_cache st)(i \<mapsto> \<lparr>tn_node = n, tn_valid = True, tn_deleted = False, deref_delete_cache = dd\<rparr>)\<rparr>"
  have fl: "flash_node ?st = flash_node st" by (simp add: flash_node_def fun_eq_iff)
  show ?thesis
  proof (rule that)
    show "get_existing_node st i dd = Some (?st, Inr n)"
      using nd f by (auto simp: get_existing_node_def Let_def assert_opt_def split: option.splits)
    show "tn_view ?st = tn_view st" using v by (auto simp: tn_view_def fun_eq_iff cong: option.case_cong if_cong)
    show "tn_clean ?st" using c fi unfolding tn_clean_def fl by auto
    show "tn_held ?st i" by (simp add: tn_held_def)
    show "tn_held ?st j" if "tn_held st j" for j using that by (auto simp: tn_held_def)
  qed simp
qed

lemma tree_deref_view:
  assumes h: "tn_held st i" and c: "tn_clean st"
  obtains st' where "deref_l1cache_node st i = Some st'" and "tn_view st' = tn_view st" and "tn_clean st'"
    and "\<And>j. j \<noteq> i \<Longrightarrow> tn_held st j \<Longrightarrow> tn_held st' j" and "tn_overflow st' = tn_overflow st"
proof -
  obtain m where m: "tn_cache st i = Some m" "tn_valid m" "\<not> tn_deleted m" using h by (auto simp: tn_held_def)
  let ?st = "if deref_delete_cache m then st\<lparr>tn_cache := (tn_cache st)(i := None)\<rparr> else st"
  have fl: "flash_node ?st = flash_node st" by (simp add: flash_node_def fun_eq_iff)
  show ?thesis
  proof (rule that)
    show "deref_l1cache_node st i = Some ?st" using m by (simp add: deref_l1cache_node_def)
    show "tn_view ?st = tn_view st"
      using c m unfolding tn_clean_def by (auto simp: tn_view_def fun_eq_iff cong: option.case_cong if_cong)
    show "tn_clean ?st" using c unfolding tn_clean_def fl by auto
    show "tn_held ?st j" if "j \<noteq> i" "tn_held st j" for j using that by (auto simp: tn_held_def)
  qed simp
qed

section \<open>The search tree\<close>

text \<open>
  A separator \<open>s\<close> between the versions to its left and to its right.  Versions of one key may lie on
  both sides only if the left side still has the version the separator was taken from.
\<close>

definition sep_between :: "(mem \<Rightarrow> mem \<Rightarrow> int) \<Rightarrow> mem \<times> u64 \<Rightarrow> (mem \<times> u64) set \<Rightarrow> (mem \<times> u64) set \<Rightarrow> bool" where
  "sep_between cmp s L R \<longleftrightarrow>
     (\<forall>v\<in>L. \<not> version_less cmp s v) \<and> (\<forall>w\<in>R. version_less cmp s w) \<and>
     ((\<exists>v\<in>L. cmp (fst s) (fst v) = 0 \<and> snd v = snd s) \<or> (\<forall>w\<in>R. cmp (fst s) (fst w) \<noteq> 0))"

text \<open>The node with id \<open>i\<close> is the root of a tree of the given height with the entries \<open>es\<close> in its leaves.\<close>

inductive tree_repr :: "btree_raw \<Rightarrow> (u64 \<Rightarrow> btree_node option) \<Rightarrow> nat \<Rightarrow> u64 \<Rightarrow> leaf_entry list \<Rightarrow> bool" for bt vw where
  tree_leaf: "vw i = Some (LeafNode n) \<Longrightarrow> leaf_repr bt n es \<Longrightarrow> sorted_wrt (version_less (cmp_cb bt)) (leaf_versions es) \<Longrightarrow>
    tree_repr bt vw 0 i es"
| tree_node: "vw i = Some (NonLeafNode x) \<Longrightarrow> nonleaf_repr bt x seps \<Longrightarrow>
    sorted_wrt (version_less (cmp_cb bt)) (nl_versions seps) \<Longrightarrow> length ess = Suc (length seps) \<Longrightarrow>
    (\<forall>j\<le>length seps. children seps (nl_rightmost x) ! j \<noteq> BAD_CHILD \<and>
       tree_repr bt vw h (children seps (nl_rightmost x) ! j) (ess ! j)) \<Longrightarrow>
    (\<forall>j<length seps. sep_between (cmp_cb bt) (nl_versions seps ! j)
       (set (leaf_versions (concat (take (Suc j) ess)))) (set (leaf_versions (concat (drop (Suc j) ess))))) \<Longrightarrow>
    tree_repr bt vw (Suc h) i (concat ess)"

lemma tree_height_unique: "tree_repr bt vw h i es \<Longrightarrow> tree_repr bt vw h' i es' \<Longrightarrow> h' = h"
proof (induction arbitrary: h' es' rule: tree_repr.induct)
  case (tree_leaf i n es)
  from tree_leaf.prems tree_leaf.hyps(1) show ?case by cases auto
next
  case (tree_node i x seps ess h)
  from tree_node.prems show ?case
  proof cases
    case (tree_leaf n)
    then show ?thesis using tree_node.hyps(1) by simp
  next
    case (tree_node x' seps' ess' k)
    have x: "x' = x" using tree_node(3) \<open>vw i = Some (NonLeafNode x)\<close> by simp
    have "tree_repr bt vw k (nl_rightmost x) (ess' ! length seps')"
      using tree_node(7) x by (auto simp: children_def nth_append dest: spec [of _ "length seps'"])
    then show ?thesis using tree_node.IH [rule_format, of "length seps"] tree_node(1)
      by (simp add: children_def nth_append) blast
  qed
qed

section \<open>Versions on both sides of a separator\<close>

context key_order
begin

lemma before_le:
  assumes "\<not> version_less cmp s v" and "before cmp key meta s"
  shows "before cmp key meta v"
proof -
  have le: "cmp (fst v) (fst s) \<le> 0" and sq: "cmp (fst s) (fst v) = 0 \<Longrightarrow> snd s \<le> snd v"
    using assms(1) cmp_le_flip [of "fst v" "fst s"] by (auto simp: version_less_def)
  show ?thesis
  proof (cases "0 < cmp key (fst v)")
    case False
    have s: "cmp key (fst s) = 0" "0 < seqno_class meta (snd s)"
      using assms(2) cmp_greater_left [OF le, of key] False by (auto simp: before_def)
    have v: "cmp key (fst v) = 0"
      using False cmp_less_right [OF le, of key] s(1) by linarith
    have "cmp (fst s) (fst v) = 0"
      using cmp_trans [of "fst s" key "fst v"] s(1) v cmp_eq_sym [of key "fst s"] le cmp_le_flip [of "fst v" "fst s"] by linarith
    then have "snd s \<le> snd v" by (rule sq)
    then have "seqno_class meta (snd s) \<le> seqno_class meta (snd v)"
      using seqno_class_mono [of "snd s" "snd v" meta] by (cases "snd s = snd v") auto
    then show ?thesis using v s(2) by (simp add: before_def)
  qed (simp add: before_def)
qed

lemma version_le_less_trans:
  assumes "\<not> version_less cmp s v" and "version_less cmp s w"
  shows "version_less cmp v w"
proof -
  have le: "cmp (fst v) (fst s) \<le> 0" and sq: "cmp (fst s) (fst v) = 0 \<Longrightarrow> snd s \<le> snd v"
    using assms(1) cmp_le_flip [of "fst v" "fst s"] by (auto simp: version_less_def)
  have sw: "cmp (fst s) (fst w) \<le> 0" by (rule version_less_le [OF assms(2)])
  have vw: "cmp (fst v) (fst w) \<le> 0" by (rule cmp_trans [OF le sw])
  show ?thesis
  proof (cases "cmp (fst v) (fst w) = 0")
    case True
    have "cmp (fst w) (fst s) \<le> 0"
      using cmp_trans [of "fst w" "fst v" "fst s"] True cmp_eq_sym [of "fst v" "fst w"] le by simp
    then have sw0: "cmp (fst s) (fst w) = 0" using sw cmp_le_flip [of "fst w" "fst s"] by linarith
    have "cmp (fst s) (fst v) \<le> 0" using cmp_trans [of "fst s" "fst w" "fst v"] sw0 True cmp_eq_sym [of "fst v" "fst w"] by simp
    then have "cmp (fst s) (fst v) = 0" using le cmp_le_flip [of "fst v" "fst s"] by linarith
    then show ?thesis using sq assms(2) sw0 True by (auto simp: version_less_def)
  qed (use vw in \<open>simp add: version_less_def\<close>)
qed

lemma before_not_matches: "before cmp key meta v \<Longrightarrow> \<not> matches cmp key meta v"
  by (auto simp: before_def matches_def)

text \<open>A match to the right of a separator that is not before the query has the key of the separator.\<close>

lemma match_right:
  assumes "version_less cmp s w" and "\<not> before cmp key meta s" and "matches cmp key meta w"
  shows "cmp (fst s) (fst w) = 0" and "cmp key (fst s) = 0" and "snd w < snd s" and "matches cmp key meta s"
proof -
  have le: "cmp (fst s) (fst w) \<le> 0" by (rule version_less_le [OF assms(1)])
  have kw: "cmp key (fst w) = 0" using assms(3) by (simp add: matches_def)
  have ks: "cmp key (fst s) \<le> 0" using assms(2) by (auto simp: before_def)
  show k: "cmp key (fst s) = 0" using ks cmp_less_right [OF le, of key] kw by linarith
  show sw: "cmp (fst s) (fst w) = 0"
    using cmp_trans [of "fst w" key "fst s"] kw k cmp_eq_sym [of key "fst w"] le cmp_le_flip [of "fst w" "fst s"] by linarith
  show sq: "snd w < snd s" using assms(1) sw by (auto simp: version_less_def)
  have "seqno_class meta (snd s) \<ge> 0" using seqno_class_mono [OF sq, of meta] assms(3) by (simp add: matches_def)
  moreover have "\<not> 0 < seqno_class meta (snd s)" using assms(2) k by (simp add: before_def)
  ultimately show "matches cmp key meta s" using k by (simp add: matches_def)
qed

lemma matches_same:
  assumes "matches cmp key meta s" and "cmp (fst s) (fst v) = 0" and "snd v = snd s"
  shows "matches cmp key meta v"
  using assms cmp_trans [of key "fst s" "fst v"] cmp_trans [of "fst v" "fst s" key]
    cmp_eq_sym [of "fst s" "fst v"] cmp_eq_sym [of key "fst s"] cmp_le_flip [of "fst v" key]
  by (auto simp: matches_def)

text \<open>The child the search picks has the latest match of the whole node, if there is one.\<close>

lemma child_has_latest:
  assumes s: "sorted_wrt (version_less cmp) ss" and l: "length vss = Suc (length ss)"
    and sep: "\<And>j. j < length ss \<Longrightarrow> sep_between cmp (ss ! j) (set (concat (take (Suc j) vss))) (set (concat (drop (Suc j) vss)))"
    and w: "w \<in> set (concat vss)" "matches cmp key meta w"
  shows "\<exists>v\<in>set (vss ! latest_pos cmp key meta ss). matches cmp key meta v \<and> snd w \<le> snd v"
proof -
  let ?p = "latest_pos cmp key meta ss"
  have p: "?p \<le> length ss" by (rule latest_pos_le)
  have inp: "\<not> matches cmp key meta v" if v: "v \<in> set (concat (take ?p vss))" for v
  proof (cases ?p)
    case 0
    then show ?thesis using v by simp
  next
    case (Suc q)
    have "before cmp key meta (ss ! q)" using before_latest_pos [of q key meta ss] Suc by simp
    moreover have "\<not> version_less cmp (ss ! q) v" using sep [of q] v Suc p by (auto simp: sep_between_def)
    ultimately show ?thesis using before_le before_not_matches by blast
  qed
  have split: "concat vss = concat (take ?p vss) @ (vss ! ?p) @ concat (drop (Suc ?p) vss)"
    using id_take_nth_drop [of ?p vss] p l by (metis concat.simps(2) concat_append less_Suc_eq_le)
  consider (left) "w \<in> set (concat (take ?p vss))" | (this) "w \<in> set (vss ! ?p)" | (right) "w \<in> set (concat (drop (Suc ?p) vss))"
    using w(1) split by (metis Un_iff set_append)
  then show ?thesis
  proof cases
    case left
    then show ?thesis using inp w(2) by blast
  next
    case this
    then show ?thesis using w(2) by blast
  next
    case right
    then have pl: "?p < length ss" using p l by (cases "?p = length ss") auto
    have nb: "\<not> before cmp key meta (ss ! ?p)" by (rule not_before_latest_pos [OF s order_refl pl])
    have "version_less cmp (ss ! ?p) w" using sep [OF pl] right unfolding sep_between_def by blast
    note m = match_right [OF this nb w(2)]
    obtain v where v: "v \<in> set (concat (take (Suc ?p) vss))" "cmp (fst (ss ! ?p)) (fst v) = 0" "snd v = snd (ss ! ?p)"
      using sep [OF pl] right m(1) unfolding sep_between_def by blast
    have mv: "matches cmp key meta v" by (rule matches_same [OF m(4) v(2,3)])
    have "v \<notin> set (concat (take ?p vss))" using inp mv by blast
    moreover have "concat (take (Suc ?p) vss) = concat (take ?p vss) @ vss ! ?p" using pl l by (simp add: take_Suc_conv_app_nth)
    ultimately have "v \<in> set (vss ! ?p)" using v(1) by simp
    then show ?thesis using mv m(3) v(3) by auto
  qed
qed

end

section \<open>The descent\<close>

text \<open>The entries of the query's latest version among others, by key order and query.\<close>

definition latest_entry :: "btree_raw \<Rightarrow> mem \<Rightarrow> btree_metadata \<Rightarrow> leaf_entry list \<Rightarrow> leaf_entry \<Rightarrow> bool" where
  "latest_entry bt key meta es e \<longleftrightarrow> e \<in> set es \<and> matches (cmp_cb bt) key (Some meta) (le_key e, le_seqno e) \<and>
     (\<forall>e'\<in>set es. matches (cmp_cb bt) key (Some meta) (le_key e', le_seqno e') \<longrightarrow> le_seqno e' \<le> le_seqno e)"

lemma bsearch_key_nonleaf:
  assumes cmp: "key_order (cmp_cb bt)" and r: "nonleaf_repr bt x seps"
    and s: "sorted_wrt (version_less (cmp_cb bt)) (nl_versions seps)"
  shows "bsearch_key bt (NonLeafNode x) key meta BSF_LATEST =
     Some (int (latest_pos (cmp_cb bt) key meta (nl_versions seps)), latest_found (cmp_cb bt) key meta (nl_versions seps),
       children seps (nl_rightmost x) ! latest_pos (cmp_cb bt) key meta (nl_versions seps))"
proof -
  let ?p = "latest_pos (cmp_cb bt) key meta (nl_versions seps)"
  have p: "?p \<le> length seps" using key_order.latest_pos_le [OF cmp, of key meta "nl_versions seps"] by simp
  show ?thesis
    using key_order.bsearch_latest [OF cmp refl nonleaf_node_reads [OF r] s, of key meta] nonleaf_repr_nkeys [OF r]
      get_key_stuff_encoded [OF r, of ?p] p
    by (auto simp: bsearch_key_def children_def nth_append)
qed

lemma bsearch_key_leaf:
  assumes "key_order (cmp_cb bt)" and "leaf_repr bt n es" and "sorted_wrt (version_less (cmp_cb bt)) (leaf_versions es)"
  shows "bsearch_key bt (LeafNode n) key meta BSF_LATEST =
     Some (int (latest_pos (cmp_cb bt) key meta (leaf_versions es)), latest_found (cmp_cb bt) key meta (leaf_versions es), BAD_CHILD)"
  using key_order.bsearch_latest [OF assms(1) refl leaf_node_reads [OF assms(2)] assms(3), of key meta]
  by (simp add: bsearch_key_def)

definition reaches_leaf ::
  "btree_raw \<Rightarrow> (u64 \<Rightarrow> btree_node option) \<Rightarrow> mem \<Rightarrow> btree_metadata \<Rightarrow> leaf_entry list \<Rightarrow> tree_state \<Rightarrow> u64 \<Rightarrow> btree_node \<Rightarrow> bool" where
  "reaches_leaf bt vw key meta es st i node \<longleftrightarrow>
     (\<exists>n les. node = LeafNode n \<and> leaf_repr bt n les \<and> sorted_wrt (version_less (cmp_cb bt)) (leaf_versions les) \<and>
        tn_view st = vw \<and> tn_clean st \<and> tn_held st i \<and> set les \<subseteq> set es \<and>
        (\<forall>e\<in>set es. matches (cmp_cb bt) key (Some meta) (le_key e, le_seqno e) \<longrightarrow>
           (\<exists>e'\<in>set les. matches (cmp_cb bt) key (Some meta) (le_key e', le_seqno e') \<and> le_seqno e \<le> le_seqno e')))"

lemma reaches_leaf_widen:
  assumes r: "reaches_leaf bt vw key meta es st i leaf" and sub: "set es \<subseteq> set es'"
    and lat: "\<And>e. e \<in> set es' \<Longrightarrow> matches (cmp_cb bt) key (Some meta) (le_key e, le_seqno e) \<Longrightarrow>
      \<exists>e'\<in>set es. matches (cmp_cb bt) key (Some meta) (le_key e', le_seqno e') \<and> le_seqno e \<le> le_seqno e'"
  shows "reaches_leaf bt vw key meta es' st i leaf"
proof -
  obtain n les where l: "leaf = LeafNode n" "leaf_repr bt n les" "sorted_wrt (version_less (cmp_cb bt)) (leaf_versions les)"
    "tn_view st = vw" "tn_clean st" "tn_held st i" "set les \<subseteq> set es"
    "\<And>e. e \<in> set es \<Longrightarrow> matches (cmp_cb bt) key (Some meta) (le_key e, le_seqno e) \<Longrightarrow>
       \<exists>e'\<in>set les. matches (cmp_cb bt) key (Some meta) (le_key e', le_seqno e') \<and> le_seqno e \<le> le_seqno e'"
    using r unfolding reaches_leaf_def by blast
  have "\<exists>e'\<in>set les. matches (cmp_cb bt) key (Some meta) (le_key e', le_seqno e') \<and> le_seqno e \<le> le_seqno e'"
    if e: "e \<in> set es'" "matches (cmp_cb bt) key (Some meta) (le_key e, le_seqno e)" for e
  proof -
    obtain e1 where e1: "e1 \<in> set es" "matches (cmp_cb bt) key (Some meta) (le_key e1, le_seqno e1)" "le_seqno e \<le> le_seqno e1"
      using lat [OF e] by blast
    then show ?thesis using l(8) [OF e1(1,2)] order_trans [OF e1(3)] by blast
  qed
  then show ?thesis using l(1-7) sub unfolding reaches_leaf_def by blast
qed

lemma find_loop_reaches:
  assumes cmp: "key_order (cmp_cb bt)"
  shows "tree_repr bt vw h i es \<Longrightarrow> tn_view st = vw \<Longrightarrow> tn_clean st \<Longrightarrow> tn_held st i \<Longrightarrow> vw i = Some node \<Longrightarrow>
    \<exists>st' j leaf. find_loop bt key meta sq st i node k = Some (st', Inr (j, leaf), k + h) \<and>
      reaches_leaf bt vw key meta es st' j leaf \<and> tn_overflow st' = tn_overflow st"
proof (induction arbitrary: st node k rule: tree_repr.induct)
  case (tree_leaf i n es)
  then have "node = LeafNode n" by simp
  moreover have "reaches_leaf bt vw key meta es st i (LeafNode n)"
    using tree_leaf unfolding reaches_leaf_def by blast
  ultimately show ?case by (subst find_loop.simps) auto
next
  case (tree_node i x seps ess h)
  let ?c = "cmp_cb bt"
  let ?p = "latest_pos ?c key (Some meta) (nl_versions seps)"
  define ch where "ch = children seps (nl_rightmost x) ! ?p"
  have nd: "node = NonLeafNode x" using tree_node.hyps(1) tree_node.prems(4) by simp
  have p: "?p \<le> length seps" using key_order.latest_pos_le [OF cmp, of key "Some meta" "nl_versions seps"] by simp
  have t: "tree_repr bt vw h ch (ess ! ?p)" and nb: "ch \<noteq> BAD_CHILD" using tree_node.IH p unfolding ch_def by blast+
  have ih: "tn_view st = vw \<Longrightarrow> tn_clean st \<Longrightarrow> tn_held st ch \<Longrightarrow> vw ch = Some node \<Longrightarrow>
      \<exists>st' j leaf. find_loop bt key meta sq st ch node k = Some (st', Inr (j, leaf), k + h) \<and>
        reaches_leaf bt vw key meta (ess ! ?p) st' j leaf \<and> tn_overflow st' = tn_overflow st" for st node k
    using tree_node.IH p unfolding ch_def by blast
  obtain cn where cn: "vw ch = Some cn" using t by cases auto
  have ne: "ch \<noteq> i"
  proof
    assume "ch = i"
    moreover have "tree_repr bt vw (Suc h) i (concat ess)"
      by (rule tree_repr.tree_node [where x = x and seps = seps]) (use tree_node.IH tree_node.hyps in blast)+
    ultimately show False using tree_height_unique [OF t, of "Suc h" "concat ess"] by auto
  qed
  obtain st1 where g: "get_existing_node st ch sq = Some (st1, Inr cn)" "tn_view st1 = tn_view st" "tn_clean st1" "tn_held st1 ch"
     "\<And>j. tn_held st j \<Longrightarrow> tn_held st1 j" "tn_overflow st1 = tn_overflow st"
    using tree_get_view [of st ch cn] cn tree_node.prems(1,2) by blast
  obtain st2 where d: "deref_l1cache_node st1 i = Some st2" "tn_view st2 = tn_view st1" "tn_clean st2" "tn_held st2 ch" "tn_overflow st2 = tn_overflow st1"
    using tree_deref_view [of st1 i] g(3-5) tree_node.prems(3) ne by metis
  have u: "find_loop bt key meta sq st i node k = find_loop bt key meta sq st2 ch cn (k + 1)"
    using bsearch_key_nonleaf [OF cmp tree_node.hyps(2,3), of key "Some meta"] g(1) d(1) nb
    unfolding nd by (subst find_loop.simps) (simp add: ch_def [symmetric] assert_opt_def)
  obtain st' j leaf where f: "find_loop bt key meta sq st2 ch cn (k + 1) = Some (st', Inr (j, leaf), k + 1 + h)"
      "reaches_leaf bt vw key meta (ess ! ?p) st' j leaf" "tn_overflow st' = tn_overflow st2"
    using ih [OF _ d(3,4) cn, of "k + 1"] d(2) g(2) tree_node.prems(1) by auto
  have "ess ! ?p \<in> set ess" using p tree_node.hyps(4) by simp
  then have sub: "set (ess ! ?p) \<subseteq> set (concat ess)" by auto
  have lat: "\<exists>e'\<in>set (ess ! ?p). matches ?c key (Some meta) (le_key e', le_seqno e') \<and> le_seqno e \<le> le_seqno e'"
    if e: "e \<in> set (concat ess)" "matches ?c key (Some meta) (le_key e, le_seqno e)" for e
  proof -
    have "\<exists>v\<in>set (map leaf_versions ess ! ?p). matches ?c key (Some meta) v \<and> snd (le_key e, le_seqno e) \<le> snd v"
    proof (rule key_order.child_has_latest [OF cmp tree_node.hyps(3) _ _ _ e(2)])
      show "length (map leaf_versions ess) = Suc (length (nl_versions seps))" using tree_node.hyps(4) by simp
      show "sep_between ?c (nl_versions seps ! j) (set (concat (take (Suc j) (map leaf_versions ess))))
           (set (concat (drop (Suc j) (map leaf_versions ess))))" if "j < length (nl_versions seps)" for j
        using tree_node.hyps(5) that by (simp add: take_map drop_map map_concat [symmetric])
      show "(le_key e, le_seqno e) \<in> set (concat (map leaf_versions ess))" using e(1) by auto
    qed
    then show ?thesis using p tree_node.hyps(4) by auto
  qed
  have "reaches_leaf bt vw key meta (concat ess) st' j leaf"
    by (rule reaches_leaf_widen [OF f(2) sub lat])
  then show ?case using u f(1,3) d(5) g(6) by (intro exI [of _ st'] exI [of _ j] exI [of _ leaf]) simp
qed

text \<open>
  The outcome of a find: the leaf, and either the latest matching entry at the index or that no entry of
  the tree matches.
\<close>

definition find_outcome ::
  "btree_raw \<Rightarrow> mem \<Rightarrow> btree_metadata \<Rightarrow> leaf_entry list \<Rightarrow> leaf_node \<Rightarrow> int \<Rightarrow> bool \<Rightarrow> bool" where
  "find_outcome bt key meta es n index found \<longleftrightarrow>
     (\<exists>les. leaf_repr bt n les \<and>
       (if \<exists>e. latest_entry bt key meta es e
        then \<exists>k<length les. index = int k \<and> latest_entry bt key meta es (les ! k) \<and>
               (found \<longleftrightarrow> \<not> le_tombstone (les ! k) \<or> md_flags meta AND FORCE_DELETE \<noteq> 0)
        else \<not> found))"

lemma leaf_outcome:
  assumes cmp: "key_order (cmp_cb bt)" and r: "reaches_leaf bt vw key meta es st i (LeafNode n)"
  shows "\<exists>index fnd tomb. bsearch_key bt (LeafNode n) key (Some meta) BSF_LATEST = Some (index, fnd, BAD_CHILD) \<and>
     (if fnd then btree_leaf_is_key_tombstoned n (nat index) else Some False) = Some tomb \<and>
     find_outcome bt key meta es n index (fnd \<and> \<not> (tomb \<and> md_flags meta AND FORCE_DELETE = 0))"
proof -
  let ?c = "cmp_cb bt" and ?m = "Some meta"
  obtain les where l: "leaf_repr bt n les" "sorted_wrt (version_less ?c) (leaf_versions les)" "set les \<subseteq> set es"
    "\<And>e. e \<in> set es \<Longrightarrow> matches ?c key ?m (le_key e, le_seqno e) \<Longrightarrow>
       \<exists>e'\<in>set les. matches ?c key ?m (le_key e', le_seqno e') \<and> le_seqno e \<le> le_seqno e'"
    using r unfolding reaches_leaf_def by blast
  let ?vs = "leaf_versions les"
  let ?p = "latest_pos ?c key ?m ?vs" and ?f = "latest_found ?c key ?m ?vs"
  note b = bsearch_key_leaf [OF cmp l(1,2), of key ?m]
  note fi = key_order.latest_found_iff [OF cmp l(2), where key = key and meta = ?m]
  show ?thesis
  proof (cases ?f)
    case False
    have "\<not> latest_entry bt key meta es e" for e
    proof
      assume "latest_entry bt key meta es e"
      then obtain e' where "e' \<in> set les" "matches ?c key ?m (le_key e', le_seqno e')" using l(4) unfolding latest_entry_def by blast
      then show False using False fi(1) by auto
    qed
    then have "find_outcome bt key meta es n (int ?p) False" using l(1) unfolding find_outcome_def by auto
    then show ?thesis using b False by (intro exI [of _ "int ?p"] exI [of _ False]) simp
  next
    case True
    then have p: "?p < length les" and m: "matches ?c key ?m (le_key (les ! ?p), le_seqno (les ! ?p))"
      by (auto simp: latest_found_def Let_def)
    have lat: "latest_entry bt key meta es (les ! ?p)"
      unfolding latest_entry_def
    proof (intro conjI ballI impI)
      show "les ! ?p \<in> set es" using l(3) p by auto
      show "matches ?c key ?m (le_key (les ! ?p), le_seqno (les ! ?p))" by (rule m)
      fix e assume "e \<in> set es" "matches ?c key ?m (le_key e, le_seqno e)"
      then obtain e' where e': "e' \<in> set les" "matches ?c key ?m (le_key e', le_seqno e')" "le_seqno e \<le> le_seqno e'" using l(4) by blast
      have "snd (le_key e', le_seqno e') \<le> snd (?vs ! ?p)" by (rule fi(2)) (use e' in auto)
      then show "le_seqno e \<le> le_seqno (les ! ?p)" using e'(3) p by simp
    qed
    have t: "btree_leaf_is_key_tombstoned n (nat (int ?p)) = Some (le_tombstone (les ! ?p))"
      using encoded_tombstone [OF p, of bt n] l(1) unfolding leaf_repr_def nat_int by metis
    have "find_outcome bt key meta es n (int ?p) (\<not> (le_tombstone (les ! ?p) \<and> md_flags meta AND FORCE_DELETE = 0))"
      using l(1) lat p unfolding find_outcome_def by auto
    then show ?thesis using b True t by (intro exI [of _ "int ?p"] exI [of _ True] exI) simp
  qed
qed

section \<open>The entries of a tree\<close>

lemma sorted_concat:
  assumes "\<And>xs. xs \<in> set xss \<Longrightarrow> sorted_wrt P xs"
    and "\<And>j x y. j < length xss \<Longrightarrow> x \<in> set (concat (take j xss)) \<Longrightarrow> y \<in> set (concat (drop j xss)) \<Longrightarrow> P x y"
  shows "sorted_wrt P (concat xss)"
  using assms
proof (induction xss rule: rev_induct)
  case (snoc xs xss)
  have "sorted_wrt P (concat xss)"
  proof (rule snoc.IH)
    show "sorted_wrt P ys" if "ys \<in> set xss" for ys using snoc.prems(1) that by simp
    show "P x y" if "j < length xss" "x \<in> set (concat (take j xss))" "y \<in> set (concat (drop j xss))" for j x y
      using snoc.prems(2) [of j x y] that by simp
  qed
  moreover have "P x y" if "x \<in> set (concat xss)" "y \<in> set xs" for x y
    using snoc.prems(2) [of "length xss" x y] that by simp
  ultimately show ?case using snoc.prems(1) [of xs] by (simp add: sorted_wrt_append)
qed simp

lemma tree_sorted:
  assumes cmp: "key_order (cmp_cb bt)"
  shows "tree_repr bt vw h i es \<Longrightarrow> sorted_wrt (version_less (cmp_cb bt)) (leaf_versions es)"
proof (induction rule: tree_repr.induct)
  case (tree_node i x seps ess h)
  have "sorted_wrt (version_less (cmp_cb bt)) (concat (map leaf_versions ess))"
  proof (rule sorted_concat)
    show "sorted_wrt (version_less (cmp_cb bt)) vs" if vs: "vs \<in> set (map leaf_versions ess)" for vs
    proof -
      obtain j where "j < length ess" "vs = leaf_versions (ess ! j)" using vs by (auto simp: in_set_conv_nth)
      then show ?thesis using tree_node.IH tree_node.hyps(4) by (simp add: less_Suc_eq_le)
    qed
    show "version_less (cmp_cb bt) v w"
      if j: "j < length (map leaf_versions ess)" and v: "v \<in> set (concat (take j (map leaf_versions ess)))"
        and w: "w \<in> set (concat (drop j (map leaf_versions ess)))" for j v w
    proof (cases j)
      case (Suc k)
      have "sep_between (cmp_cb bt) (nl_versions seps ! k)
         (set (leaf_versions (concat (take j ess)))) (set (leaf_versions (concat (drop j ess))))"
        using tree_node.hyps(4,5) j Suc by simp
      moreover have "v \<in> set (leaf_versions (concat (take j ess)))" "w \<in> set (leaf_versions (concat (drop j ess)))"
        using v w by (simp_all add: take_map drop_map map_concat [symmetric])
      ultimately show ?thesis using key_order.version_le_less_trans [OF cmp] unfolding sep_between_def by blast
    qed (use v in simp)
  qed
  then show ?case by (simp add: map_concat)
qed

text \<open>In a sorted list the first match is the latest.\<close>

abbreviation entry_matches :: "btree_raw \<Rightarrow> mem \<Rightarrow> btree_metadata \<Rightarrow> leaf_entry \<Rightarrow> bool" where
  "entry_matches bt key meta e \<equiv> matches (cmp_cb bt) key (Some meta) (le_key e, le_seqno e)"

lemma latest_entry_find:
  assumes cmp: "key_order (cmp_cb bt)" and s: "sorted_wrt (version_less (cmp_cb bt)) (leaf_versions es)"
  shows "latest_entry bt key meta es e \<longleftrightarrow> List.find (entry_matches bt key meta) es = Some e"
proof -
  have after: "le_seqno (es ! j) < le_seqno (es ! i)"
    if "i < j" "j < length es" "entry_matches bt key meta (es ! i)" "entry_matches bt key meta (es ! j)" for i j
    using key_order.sorted_same_key [OF cmp s that(1), of key] that by (simp add: matches_def)
  show ?thesis
  proof
    assume l: "latest_entry bt key meta es e"
    then obtain i where i: "i < length es" "es ! i = e" "entry_matches bt key meta (es ! i)"
      by (auto simp: latest_entry_def in_set_conv_nth)
    have "\<not> entry_matches bt key meta (es ! j)" if j: "j < i" for j
    proof
      assume m: "entry_matches bt key meta (es ! j)"
      have "le_seqno (es ! i) < le_seqno (es ! j)" using after [OF j i(1) m i(3)] .
      moreover have "le_seqno (es ! j) \<le> le_seqno e" using l m i(1) j unfolding latest_entry_def by auto
      ultimately show False using i(2) by simp
    qed
    then show "List.find (entry_matches bt key meta) es = Some e" using i by (auto simp: find_Some_iff)
  next
    assume "List.find (entry_matches bt key meta) es = Some e"
    then obtain i where i: "i < length es" "entry_matches bt key meta (es ! i)" "e = es ! i"
      "\<forall>j<i. \<not> entry_matches bt key meta (es ! j)" by (auto simp: find_Some_iff)
    have "le_seqno e' \<le> le_seqno e" if e': "e' \<in> set es" "entry_matches bt key meta e'" for e'
    proof -
      obtain j where j: "j < length es" "e' = es ! j" using e'(1) by (auto simp: in_set_conv_nth)
      then have "i \<le> j" using i(4) e'(2) by (metis not_le)
      then show ?thesis using after [of i j] i(2,3) j e'(2) by (cases "i = j") auto
    qed
    then show "latest_entry bt key meta es e" using i unfolding latest_entry_def by auto
  qed
qed

end
