(* ===== verification/Btree_Tree_Theorems.thy ===== *)
theory Btree_Tree_Theorems
  imports Btree_Tree_Correct Btree_Node_Theorems Btree_Overflow_Theorems
begin

text \<open>
  A read from the tree returns what the entries in its leaves say.
\<close>

section \<open>Specification\<close>

text \<open>The first entry in the order of the leaves that satisfies the query, unless it is a tombstone.\<close>

definition spec_get :: "btree_raw \<Rightarrow> leaf_entry list \<Rightarrow> mem \<Rightarrow> btree_metadata \<Rightarrow> leaf_entry option" where
  "spec_get bt es key meta =
     (case List.find (entry_matches bt key meta) es of
        None \<Rightarrow> None
      | Some e \<Rightarrow> if le_tombstone e \<and> md_flags meta AND FORCE_DELETE = 0 then None else Some e)"

lemma find_finds:
  assumes cmp: "key_order (cmp_cb bt)" and t: "tree_repr bt (tn_view st) h (rootid bt) es" and c: "tn_clean st"
  shows "\<exists>st' i n index found. btree_raw_find bt st key meta k = Some (st', Inr (i, n, index, found), k + h) \<and>
     tn_view st' = tn_view st \<and> tn_clean st' \<and> tn_held st' i \<and> tn_overflow st' = tn_overflow st \<and>
     (\<exists>les. leaf_repr bt n les \<and>
       (case spec_get bt es key meta of
          None \<Rightarrow> \<not> found
        | Some e \<Rightarrow> found \<and> 0 \<le> index \<and> nat index < length les \<and> les ! nat index = e \<and> e \<in> set es))"
proof -
  let ?sq = "md_flags meta AND (READ_SEQNO_EQ OR READ_SEQNO_LE OR READ_SEQNO_GT_LE) \<noteq> 0"
  obtain root where root: "tn_view st (rootid bt) = Some root" using t by cases auto
  obtain st1 where g: "get_existing_node st (rootid bt) False = Some (st1, Inr root)" "tn_view st1 = tn_view st" "tn_clean st1"
     "tn_held st1 (rootid bt)" "tn_overflow st1 = tn_overflow st"
    using tree_get_view [OF root c] by metis
  obtain st' i leaf where f: "find_loop bt key meta ?sq st1 (rootid bt) root k = Some (st', Inr (i, leaf), k + h)"
      "reaches_leaf bt (tn_view st) key meta es st' i leaf" "tn_overflow st' = tn_overflow st1"
    using find_loop_reaches [OF cmp t g(2-4) root] by blast
  obtain n where n: "leaf = LeafNode n" "tn_view st' = tn_view st" "tn_clean st'" "tn_held st' i"
    using f(2) unfolding reaches_leaf_def by blast
  obtain index fnd tomb where o: "bsearch_key bt (LeafNode n) key (Some meta) BSF_LATEST = Some (index, fnd, BAD_CHILD)"
     "(if fnd then btree_leaf_is_key_tombstoned n (nat index) else Some False) = Some tomb"
     "find_outcome bt key meta es n index (fnd \<and> \<not> (tomb \<and> md_flags meta AND FORCE_DELETE = 0))"
    using leaf_outcome [OF cmp f(2) [unfolded n(1)]] by blast
  let ?found = "fnd \<and> \<not> (tomb \<and> md_flags meta AND FORCE_DELETE = 0)"
  have r: "btree_raw_find bt st key meta k = Some (st', Inr (i, n, index, ?found), k + h)"
    using g(1) f(1) n(1) o(1,2) by (simp add: btree_raw_find_def root_get_and_lock_def Let_def)
  have lf: "latest_entry bt key meta es e \<longleftrightarrow> List.find (entry_matches bt key meta) es = Some e" for e
    by (rule latest_entry_find [OF cmp tree_sorted [OF cmp t]])
  have "\<exists>les. leaf_repr bt n les \<and>
       (case spec_get bt es key meta of
          None \<Rightarrow> \<not> ?found
        | Some e \<Rightarrow> ?found \<and> 0 \<le> index \<and> nat index < length les \<and> les ! nat index = e \<and> e \<in> set es)"
  proof (cases "List.find (entry_matches bt key meta) es")
    case None
    then have ne: "\<not> (\<exists>e. latest_entry bt key meta es e)" using lf by simp
    show ?thesis using o(3) None unfolding find_outcome_def if_not_P [OF ne] spec_get_def by auto
  next
    case (Some e)
    then obtain les j where "leaf_repr bt n les" "j < length les" "index = int j" "latest_entry bt key meta es (les ! j)"
       "?found \<longleftrightarrow> \<not> le_tombstone (les ! j) \<or> md_flags meta AND FORCE_DELETE \<noteq> 0"
      using o(3) lf unfolding find_outcome_def by (metis (no_types, lifting))
    moreover have "les ! j = e" using calculation(4) lf Some by simp
    moreover have "e \<in> set es" using Some lf [of e] by (simp add: latest_entry_def)
    ultimately show ?thesis using Some unfolding spec_get_def by (intro exI [of _ les]) auto
  qed
  moreover have "tn_overflow st' = tn_overflow st" using f(3) g(5) by simp
  ultimately show ?thesis using r n(2-4) by blast
qed

section \<open>Properties\<close>

text \<open>C1: In a search tree whose nodes can be read and whose objects are stored, \<open>btree_raw_get\<close> returns: if the
  first entry of the leaves that satisfies the query - the latest matching version of the key - exists
  and is not a tombstone, success with exactly the bytes of its object, from cache or flash; otherwise
  \<open>BTREE_KEY_NOT_FOUND\<close>.  What clients see of the nodes does not change.\<close>

theorem btree_raw_get_correct:
  assumes "key_order (cmp_cb bt)" and "tree_repr bt (tn_view st) h (rootid bt) es" and "tn_clean st"
    and "\<forall>e\<in>set es. \<exists>ids. object_of bt (tn_overflow st) e ids (data e)"
    and "md_flags meta AND BUFFER_PROVIDED = 0"
  shows "\<exists>st'. btree_raw_get bt st key meta = Some (st',
       case spec_get bt es key meta of
         None \<Rightarrow> (BTREE_KEY_NOT_FOUND, None, 0)
       | Some e \<Rightarrow> (BTREE_SUCCESS, Some (data e), word_of_nat (length (data e)))) \<and>
     tn_view st' = tn_view st \<and> ov_view (tn_overflow st') = ov_view (tn_overflow st)"
proof -
  obtain st1 i n index found les where f: "btree_raw_find bt st key meta 1 = Some (st1, Inr (i, n, index, found), 1 + h)"
     "tn_view st1 = tn_view st" "tn_clean st1" "tn_held st1 i" "tn_overflow st1 = tn_overflow st" "leaf_repr bt n les"
     "case spec_get bt es key meta of None \<Rightarrow> \<not> found
        | Some e \<Rightarrow> found \<and> 0 \<le> index \<and> nat index < length les \<and> les ! nat index = e \<and> e \<in> set es"
    using find_finds [OF assms(1-3), of key meta 1] by blast
  have der: "\<exists>st2. deref_l1cache_node (st1\<lparr>tn_overflow := ov\<rparr>) i = Some st2 \<and> tn_view st2 = tn_view st \<and> tn_overflow st2 = ov" for ov
    using tree_deref_view [of "st1\<lparr>tn_overflow := ov\<rparr>" i] f(2-4) by (metis tree_state.select_convs(3) tree_state.update_convs(3) view_overflow tree_state.surjective)
  show ?thesis
  proof (cases "spec_get bt es key meta")
    case None
    then show ?thesis using f(1,5,7) der [of "tn_overflow st1"] by (auto simp: btree_raw_get_def)
  next
    case (Some e)
    then have e: "found" "nat index < length les" "les ! nat index = e" "e \<in> set es" using f(7) by auto
    obtain ids where "object_of bt (tn_overflow st) e ids (data e)" using assms(4) e(4) by blast
    then obtain ov where g: "get_leaf_data_nth_key bt (tn_overflow st) n (nat index) (md_flags meta) False
        = Some (ov, BTREE_SUCCESS, Some (data e), word_of_nat (length (data e)))" "ov_view ov = ov_view (tn_overflow st)"
      using read_object [OF f(6) e(2), of "tn_overflow st" ids "data e" "md_flags meta" False] e(3) assms(5) by auto
    obtain st2 where "deref_l1cache_node (st1\<lparr>tn_overflow := ov\<rparr>) i = Some st2" "tn_view st2 = tn_view st" "tn_overflow st2 = ov"
      using der by blast
    then show ?thesis using f(1,5) e(1) g Some by (auto simp: btree_raw_get_def)
  qed
qed

text \<open>A root with one separator between two leaves, of which the nodes below the root are on flash.\<close>

definition sample_version :: "mem \<Rightarrow> u64 \<Rightarrow> mem \<Rightarrow> leaf_entry" where
  "sample_version k s d = \<lparr>le_key = k, le_data = d, le_datalen = word_of_nat (length d), le_ptr = 0, le_seqno = s, le_tombstone = False\<rparr>"

definition sample_left :: "leaf_entry list" where
  "sample_left = [sample_version [1] 5 [10], sample_version [3] 4 [11, 12]]"

definition sample_right :: "leaf_entry list" where
  "sample_right = [sample_version [3] 2 [13, 14, 15], sample_version [5] 7 [16]]"

definition sample_tree_leaf :: "u64 \<Rightarrow> leaf_entry list \<Rightarrow> leaf_node" where
  "sample_tree_leaf i es = encode_leaf sample_btree (sample_node\<lparr>ln_logical_id := i\<rparr>) es"

definition sample_root :: nonleaf_node where
  "sample_root = sample_nonleaf [sample_sep [3] 4 10]"

definition sample_tree_state :: tree_state where
  "sample_tree_state = \<lparr>tn_cache = [1 \<mapsto> \<lparr>tn_node = NonLeafNode sample_root, tn_valid = True, tn_deleted = False, deref_delete_cache = False\<rparr>],
     tn_flash = (\<lambda>i. if i = 10 then Inr (LeafNode (sample_tree_leaf 10 sample_left))
                 else if i = 14 then Inr (LeafNode (sample_tree_leaf 14 sample_right)) else Inl BTREE_OBJECT_UNKNOWN),
     tn_overflow = sample_store (\<lambda>_. Inl BTREE_OBJECT_UNKNOWN)\<rparr>"

lemma sample_btree_ok: "tree_ok sample_btree"
  by (simp add: tree_ok_def sample_btree_def get_data_in_overflownode_def)

lemma sample_version_ok: "length k + length d < 1977 \<Longrightarrow> entry_ok sample_btree (sample_version k s d)"
  by (simp add: entry_ok_def sample_btree_def sample_version_def big_object_kd_def datalen_in_leaf_def
      word_le_nat_alt unat_word_ariths)

lemma sample_leaf_repr:
  assumes "\<forall>e\<in>set es. entry_ok sample_btree e" and "length es \<le> 4"
  shows "leaf_repr sample_btree (sample_tree_leaf i es) es"
  unfolding sample_tree_leaf_def by (rule leaf_reprI [OF sample_btree_ok four_entries_fit [OF sample_btree_ok assms]])

lemma sample_view:
  "tn_view sample_tree_state 1 = Some (NonLeafNode sample_root)"
  "tn_view sample_tree_state 10 = Some (LeafNode (sample_tree_leaf 10 sample_left))"
  "tn_view sample_tree_state 14 = Some (LeafNode (sample_tree_leaf 14 sample_right))"
  by (simp_all add: tn_view_def sample_tree_state_def flash_node_def sample_tree_leaf_def encode_leaf_def Let_def)

lemma sample_tree_repr: "tree_repr sample_btree (tn_view sample_tree_state) 1 (rootid sample_btree) (concat [sample_left, sample_right])"
proof -
  let ?vw = "tn_view sample_tree_state"
  have l: "tree_repr sample_btree ?vw 0 10 sample_left"
  proof (rule tree_leaf [where n = "sample_tree_leaf 10 sample_left"])
    show "leaf_repr sample_btree (sample_tree_leaf 10 sample_left) sample_left"
      by (rule sample_leaf_repr) (auto simp: sample_left_def intro!: sample_version_ok)
    show "sorted_wrt (version_less (cmp_cb sample_btree)) (leaf_versions sample_left)"
      by (simp add: sample_left_def sample_version_def version_less_def lex_cmp_cb_rec)
  qed (rule sample_view(2))
  have r: "tree_repr sample_btree ?vw 0 14 sample_right"
  proof (rule tree_leaf [where n = "sample_tree_leaf 14 sample_right"])
    show "leaf_repr sample_btree (sample_tree_leaf 14 sample_right) sample_right"
      by (rule sample_leaf_repr) (auto simp: sample_right_def intro!: sample_version_ok)
    show "sorted_wrt (version_less (cmp_cb sample_btree)) (leaf_versions sample_right)"
      by (simp add: sample_right_def sample_version_def version_less_def lex_cmp_cb_rec)
  qed (rule sample_view(3))
  have ok: "seps_ok sample_btree [sample_sep [3] 4 10]"
    by (simp add: seps_ok_def sample_btree_def sample_sep_def nl_used_def)
  have "tree_repr sample_btree ?vw (Suc 0) 1 (concat [sample_left, sample_right])"
  proof (rule tree_node [where x = sample_root and seps = "[sample_sep [3] 4 10]"])
    show "nonleaf_repr sample_btree sample_root [sample_sep [3] 4 10]"
      unfolding sample_root_def by (rule sample_nonleaf_repr [OF ok])
    have c: "children [sample_sep [3] 4 10] (nl_rightmost sample_root) = [10, 14]"
      by (simp add: children_def sample_sep_def sample_root_def sample_nonleaf_def)
    show "\<forall>j\<le>length [sample_sep [3] 4 10]. children [sample_sep [3] 4 10] (nl_rightmost sample_root) ! j \<noteq> BAD_CHILD \<and>
       tree_repr sample_btree ?vw 0 (children [sample_sep [3] 4 10] (nl_rightmost sample_root) ! j) ([sample_left, sample_right] ! j)"
      unfolding c using l r by (auto simp: less_Suc_eq_le [symmetric] less_Suc_eq BAD_CHILD_def)
    show "\<forall>j<length [sample_sep [3] 4 10]. sep_between (cmp_cb sample_btree) (nl_versions [sample_sep [3] 4 10] ! j)
       (set (leaf_versions (concat (take (Suc j) [sample_left, sample_right]))))
       (set (leaf_versions (concat (drop (Suc j) [sample_left, sample_right]))))"
      by (simp add: sep_between_def sample_left_def sample_right_def sample_version_def sample_sep_def version_less_def lex_cmp_cb_rec)
  qed (simp_all add: sample_view(1))
  then show ?thesis by (simp add: sample_btree_def)
qed

theorem btree_raw_get_correct_witness:
  "\<exists>st'. btree_raw_get sample_btree sample_tree_state [3] (LE_meta 3) = Some (st', BTREE_SUCCESS, Some [13, 14, 15], 3)"
proof -
  have "tn_clean sample_tree_state" by (simp add: tn_clean_def sample_tree_state_def)
  moreover have "\<forall>e\<in>set (concat [sample_left, sample_right]).
      \<exists>ids. object_of sample_btree (tn_overflow sample_tree_state) e ids (le_data e)"
    by (simp add: sample_left_def sample_right_def sample_version_def object_of_def big_object_kd_def sample_btree_def
        word_le_nat_alt unat_word_ariths)
  moreover have "md_flags (LE_meta 3) AND BUFFER_PROVIDED = 0" by (simp add: LE_meta_def READ_SEQNO_LE_def BUFFER_PROVIDED_def)
  moreover have "spec_get sample_btree (concat [sample_left, sample_right]) [3] (LE_meta 3) = Some (sample_version [3] 2 [13, 14, 15])"
    by (simp add: spec_get_def sample_left_def sample_right_def sample_version_def matches_def lex_cmp_cb_rec seqno_cmp_range_def
        LE_meta_def READ_SEQNO_LE_def READ_SEQNO_EQ_def READ_SEQNO_GT_LE_def)
  ultimately show ?thesis
    using btree_raw_get_correct [OF sample_order sample_tree_repr, where data = le_data and key = "[3]" and meta = "LE_meta 3"]
    by (auto simp: sample_version_def)
qed

end
