(* ===== verification/Spec2Isabelle.thy ===== *)
theory Spec2Isabelle
  imports Leaf_Limits Btree_Node_Theorems Btree_Snapshot Btree_Overflow_Theorems Btree_Flush Btree_Pmap Btree_Tree_Theorems
begin

text \<open>
  A verification development for the B-tree of ZetaScale (\<open>src/btree\<close>).

  \<^bold>\<open>The program.\<close>  ZetaScale is a key-value store on flash.  Its containers are B+-trees whose nodes
  are fixed-size blocks, cached in memory and written through a storage engine.  Leaf nodes hold the
  objects as variable-size entries with prefix compression of the keys and compressed metadata; an
  object can have several versions, distinguished by sequence numbers, since snapshots keep old
  versions alive.  Big objects keep part of their data in chains of overflow nodes.  Non-leaf nodes
  hold separators: a key with a sequence number and the child with everything up to it.

  \<^bold>\<open>Conventions.\<close>  Definitions carry the names of the C functions.  \<^term>\<open>None\<close> is behaviour the code must
  never show: an access outside a node, a failed assertion, an abort or a loop that does not end.
  Machine integers keep their width where they are stored or can wrap; positions inside a node, which
  has at most 32768 bytes, are natural numbers.  The comparison of keys is the callback \<open>cmp_cb\<close> of the
  tree.  Locks, statistics counters and debug output are left out; \<open>space_op_disabled\<close> and
  \<open>min_common_length\<close>, process-wide settings of the prefix compression, are constant during the life of
  a node.

  \<^bold>\<open>Leaf nodes\<close> (\<open>btree_var_leaf.c\<close>, \<open>btree_var_leaf.h\<close>).
  \<open>Leaf_Node\<close>: types, packed metadata, accessors.  \<open>Leaf_Ops\<close>: insertion, removal, update and the
  fullness check.  \<open>Leaf_Moves\<close>: split, copy, move, shift and merge, with \<open>merge_nodes_leaf\<close> and
  \<open>equalize_keys_leaf\<close> of \<open>btree_raw.c\<close>.  \<open>Leaf_Codec\<close>: the list of entries a node represents and its
  canonical encoding.  \<open>Leaf_Meta\<close>, \<open>Leaf_Decode\<close>, \<open>Leaf_Fixup\<close>, \<open>Leaf_Layout\<close>, \<open>Leaf_Copy\<close>,
  \<open>Leaf_Refine\<close>, \<open>Leaf_Space\<close>, \<open>Leaf_Merge\<close>, \<open>Leaf_Split\<close>, \<open>Leaf_Shift\<close>: every operation turns the
  encoding of a list into the encoding of the list it should produce.  \<open>Leaf_Correct\<close>: the contract
  \<open>leaf_store\<close> and its interpretation.  \<open>Leaf_Theorems\<close>, \<open>Leaf_Neighbours\<close>, \<open>Leaf_Limits\<close>: the
  properties, including configurations in which the code does not do what it means to.

  \<^bold>\<open>Search and non-leaf nodes\<close> (\<open>btree_raw.c\<close>).
  \<open>Btree_Node\<close>: both kinds of nodes and their accessors, the canonical encoding of separators.
  \<open>Btree_Search\<close>: comparison callbacks, binary search, the walk among versions, the find functions.
  \<open>Btree_Search_Correct\<close>: the contract \<open>key_order\<close> of a comparison callback, interpreted for
  \<open>lex_cmp_cb\<close> and \<open>default_cmp_cb\<close>; the search agrees with a linear specification.
  \<open>Btree_Nonleaf\<close>, \<open>Btree_Nonleaf_Correct\<close>: insertion, deletion and split of separators.
  \<open>Btree_Node_Theorems\<close>: the properties.  No fuel is used anywhere: every loop has a measure.

  \<^bold>\<open>Snapshots\<close> (\<open>btree_snapshot.c\<close>).  \<open>Btree_Status\<close>: the status codes.  \<open>Btree_Snapshot\<close>: the snapshot
  metadata, its invariant over all reachable states, and the search for the snapshot of a version.

  \<^bold>\<open>Big objects\<close> (\<open>btree_raw.c\<close>).  \<open>Btree_Overflow\<close>: the cached nodes, what reads from flash return and
  the lists of the running operation, with the allocation, reading and deletion of overflow chains and
  the insertion and deletion of leaf entries on top.  \<open>Btree_Overflow_Correct\<close>: the view of the nodes a
  client has, and each loop on a chain.  \<open>Btree_Overflow_Theorems\<close>: objects are read back as they were
  inserted, deletion queues exactly their nodes, and what is reported for a chain that ends early.  The
  loops need no fuel: they use up the bytes left, or the finitely many ids not yet marked deleted.  New
  ids are assumed unused, and the lists of the operation to have room.  Raw objects (\<open>bt_storm_mode\<close>)
  are excluded.  \<open>Btree_Flush\<close>: the end of an operation, which writes and deletes the nodes of its lists,
  and its error handling; the callbacks of the storage engine are parameters with stated laws.

  \<^bold>\<open>Node cache\<close> (\<open>btree_hash.c\<close>, \<open>btree_map.c\<close>, \<open>btree_pmap.c\<close>).  \<open>Btree_Hash\<close>: the hash of a node id, that
  its mixing step is reversible, and what follows from taking partition and bucket from one hash.
  \<open>Btree_Map\<close>: the hash table with its list of entries, free list and clock, at the level of pointers.
  \<open>Btree_Map_Lists\<close>, \<open>Btree_Map_Correct\<close>, \<open>Btree_Map_Replace\<close>: the lists in the store, the invariant, the
  scan of the clock and the insertion of an entry.  \<open>Btree_Map_Ops\<close>, \<open>Btree_Map_Spec\<close>: every operation
  returns, keeps the invariant and implements its specification on a finite map.  \<open>Btree_Map_Theorems\<close>:
  the contract \<open>pinning_cache\<close>, interpreted for the map, and the properties over all reachable states.
  \<open>Btree_Pmap\<close>: the partitioned map, a second interpretation.  The bucket and clock loops are partial
  functions; that they end in every reachable state is proved.  Operations run one at a time, under the
  lock of a map; counters do not wrap.

  \<^bold>\<open>Reading the tree\<close> (\<open>btree_raw.c\<close>).  \<open>Btree_Tree\<close>: \<open>btree_raw_find\<close> and \<open>btree_raw_get\<close> over the cached
  nodes and what reads from flash return, for an operation that runs alone.  \<open>Btree_Tree_Correct\<close>: the
  search tree the nodes form (\<open>tree_repr\<close>), its height and order, and that the descent ends at the leaf with
  the latest match.  \<open>Btree_Tree_Theorems\<close>: a read returns what the entries of all leaves say.

  \<^bold>\<open>Not modelled.\<close>  Writes and deletes across nodes, with splits and rebalancing on the way; locks and
  restarts of concurrent descents, the reference counts in the
  callers of the node cache, the storage engine below, the public API, transactions, recovery and the
  network protocol.  They are driven by threads and device I/O.
\<close>

end
